(* ===== verification/DA_Prelude.thy ===== *)
theory DA_Prelude
  imports Main "HOL-Library.Word" "HOL-Library.List_Lexorder" "HOL-Library.Char_ord"
begin

text \<open>
  The vocabulary every component theory shares: the result type of the Rust code
  (\<open>anyhow::Result\<close>, the error being its message), its combinators \<open>?\<close> and
  \<open>ensure!\<close>, checked and saturating arithmetic on machine integers, the little and
  big endian byte codecs of the standard library, and the string operations
  (\<open>strip_prefix\<close>, \<open>split\<close>, \<open>rsplit_once\<close>, decimal and hexadecimal
  formatting and parsing) the storage code is written with.
  Strings are UTF-8 byte strings, so \<open>length\<close> is Rust's \<open>len()\<close>.
\<close>

section \<open>Types\<close>

type_synonym byte = "8 word"
type_synonym bytes = "byte list"
type_synonym u32 = "32 word"
type_synonym u64 = "64 word"
type_synonym 'a result = "string + 'a"

named_theorems result_simps "rewriting successful and failing results to their causes"

section \<open>Results: the question mark operator and \<open>ensure!\<close>\<close>

definition rbind :: "'a result \<Rightarrow> ('a \<Rightarrow> 'b result) \<Rightarrow> 'b result" where
  "rbind m f = (case m of Inl e \<Rightarrow> Inl e | Inr x \<Rightarrow> f x)"

definition ensure :: "bool \<Rightarrow> string \<Rightarrow> 'a result \<Rightarrow> 'a result" where
  "ensure c msg k = (if c then k else Inl msg)"

definition context_opt :: "string \<Rightarrow> 'a option \<Rightarrow> 'a result" where
  "context_opt msg x = (case x of None \<Rightarrow> Inl msg | Some v \<Rightarrow> Inr v)"

text \<open>\<open>Context\<close> on a result: the message of the error is replaced.\<close>

definition with_context :: "string \<Rightarrow> 'a result \<Rightarrow> 'a result" where
  "with_context msg m = (case m of Inl _ \<Rightarrow> Inl msg | Inr x \<Rightarrow> Inr x)"

fun transpose_opt :: "'a result option \<Rightarrow> 'a option result" where
  "transpose_opt None = Inr None"
| "transpose_opt (Some (Inl e)) = Inl e"
| "transpose_opt (Some (Inr x)) = Inr (Some x)"

fun is_ok :: "'a result \<Rightarrow> bool" where
  "is_ok (Inl _) = False"
| "is_ok (Inr _) = True"

lemma rbind_simps [simp]:
  "rbind (Inl e) f = Inl e" "rbind (Inr x) f = f x"
  by (simp_all add: rbind_def)

lemma rbind_Inr_iff [result_simps]:
  "rbind m f = Inr y \<longleftrightarrow> (\<exists>x. m = Inr x \<and> f x = Inr y)"
  by (cases m) auto

lemma rbind_Inl_iff [result_simps]:
  "rbind m f = Inl e \<longleftrightarrow> m = Inl e \<or> (\<exists>x. m = Inr x \<and> f x = Inl e)"
  by (cases m) auto

lemma ensure_simps [simp]:
  "ensure True msg k = k" "ensure False msg k = Inl msg"
  by (simp_all add: ensure_def)

lemma ensure_Inr_iff [result_simps]: "ensure c msg k = Inr y \<longleftrightarrow> c \<and> k = Inr y"
  by (simp add: ensure_def)

lemma with_context_simps [simp]:
  "with_context msg (Inr x) = Inr x" "with_context msg (Inl e) = Inl msg"
  by (simp_all add: with_context_def)

lemma with_context_Inr [result_simps]: "with_context msg m = Inr x \<longleftrightarrow> m = Inr x"
  by (cases m) (auto simp: with_context_def)

lemma context_opt_simps [simp]:
  "context_opt msg None = Inl msg" "context_opt msg (Some v) = Inr v"
  by (simp_all add: context_opt_def)

lemma context_opt_Inr_iff [result_simps]: "context_opt msg x = Inr v \<longleftrightarrow> x = Some v"
  by (cases x) auto

lemma transpose_opt_Inr_iff [result_simps]:
  "transpose_opt x = Inr y \<longleftrightarrow>
     (x = None \<and> y = None) \<or> (\<exists>v. x = Some (Inr v) \<and> y = Some v)"
  by (cases x rule: transpose_opt.cases) auto

lemma is_ok_iff [result_simps]: "is_ok r \<longleftrightarrow> (\<exists>x. r = Inr x)"
  by (cases r) auto

section \<open>Machine integers\<close>

definition checked_add :: "u64 \<Rightarrow> u64 \<Rightarrow> u64 option" where
  "checked_add a b = (if unat a + unat b < 2 ^ 64 then Some (a + b) else None)"

definition checked_sub :: "u64 \<Rightarrow> u64 \<Rightarrow> u64 option" where
  "checked_sub a b = (if b \<le> a then Some (a - b) else None)"

definition saturating_add :: "u64 \<Rightarrow> u64 \<Rightarrow> u64" where
  "saturating_add a b = (case checked_add a b of Some c \<Rightarrow> c | None \<Rightarrow> - 1)"

definition saturating_sub :: "u64 \<Rightarrow> u64 \<Rightarrow> u64" where
  "saturating_sub a b = (if b \<le> a then a - b else 0)"

lemma u64_bound: "unat (x :: u64) < 2 ^ 64"
  using unsigned_less [of x, where ?'a = nat] by simp

lemma u32_bound: "unat (x :: u32) < 2 ^ 32"
  using unsigned_less [of x, where ?'a = nat] by simp

lemma byte_bound: "unat (x :: byte) < 256"
  using unsigned_less [of x, where ?'a = nat] by simp

lemma unat_of_nat_u64: "n < 2 ^ 64 \<Longrightarrow> unat (of_nat n :: u64) = n"
  by (simp add: unat_of_nat)

lemma unat_of_nat_u32: "n < 2 ^ 32 \<Longrightarrow> unat (of_nat n :: u32) = n"
  by (simp add: unat_of_nat)

lemma checked_add_Some:
  "checked_add a b = Some c \<Longrightarrow> unat c = unat a + unat b"
  by (auto simp: checked_add_def unat_word_ariths split: if_splits)

lemma checked_add_Some_iff:
  "checked_add a b = Some c \<longleftrightarrow> unat c = unat a + unat b"
proof
  show "checked_add a b = Some c \<Longrightarrow> unat c = unat a + unat b"
    by (rule checked_add_Some)
next
  assume eq: "unat c = unat a + unat b"
  then have lt: "unat a + unat b < 2 ^ 64"
    using u64_bound [of c] by simp
  moreover from lt eq have "a + b = c"
    by (simp add: word_unat_eq_iff unat_word_ariths)
  ultimately show "checked_add a b = Some c"
    by (simp add: checked_add_def)
qed

lemma checked_sub_Some_iff:
  "checked_sub a b = Some c \<longleftrightarrow> unat a = unat b + unat c"
proof
  assume "checked_sub a b = Some c"
  then have "b \<le> a" "c = a - b"
    by (auto simp: checked_sub_def split: if_splits)
  then show "unat a = unat b + unat c"
    by (simp add: unat_sub_if' word_le_nat_alt)
next
  assume eq: "unat a = unat b + unat c"
  then have "b \<le> a" by (simp add: word_le_nat_alt)
  moreover from this eq have "a - b = c"
    by (simp add: word_unat_eq_iff unat_sub_if' word_le_nat_alt)
  ultimately show "checked_sub a b = Some c"
    by (simp add: checked_sub_def)
qed

lemma checked_add_1_less: "checked_add a 1 = Some b \<Longrightarrow> a < b"
  by (simp add: checked_add_Some_iff word_less_nat_alt)

lemma saturating_add_ge: "a \<le> saturating_add a b"
proof (cases "checked_add a b")
  case None
  then show ?thesis by (simp add: saturating_add_def)
next
  case (Some c)
  then have "unat c = unat a + unat b" by (rule checked_add_Some)
  with Some show ?thesis by (simp add: saturating_add_def word_le_nat_alt)
qed

lemma saturating_add_unat: "unat (saturating_add a b) = min (unat a + unat b) (2 ^ 64 - 1)"
proof (cases "checked_add a b")
  case None
  then have "2 ^ 64 \<le> unat a + unat b"
    by (simp add: checked_add_def split: if_splits)
  moreover have "unat (- 1 :: u64) = 2 ^ 64 - 1"
    by (simp add: unsigned_minus_1_eq_mask mask_eq_exp_minus_1)
  ultimately show ?thesis using None by (simp add: saturating_add_def)
next
  case (Some c)
  then have "unat c = unat a + unat b" by (simp add: checked_add_Some_iff)
  moreover have "unat c < 2 ^ 64" using u64_bound [of c] by simp
  ultimately show ?thesis using Some by (simp add: saturating_add_def)
qed

section \<open>Little and big endian integers\<close>

fun le_enc :: "nat \<Rightarrow> nat \<Rightarrow> bytes" where
  "le_enc 0 x = []"
| "le_enc (Suc n) x = of_nat (x mod 256) # le_enc n (x div 256)"

fun le_val :: "bytes \<Rightarrow> nat" where
  "le_val [] = 0"
| "le_val (b # bs) = unat b + 256 * le_val bs"

lemma length_le_enc [simp]: "length (le_enc n x) = n"
  by (induction n arbitrary: x) auto

lemma le_val_le_enc: "le_val (le_enc n x) = x mod 256 ^ n"
proof (induction n arbitrary: x)
  case 0
  then show ?case by simp
next
  case (Suc n)
  have "unat (of_nat (x mod 256) :: byte) = x mod 256"
    by (simp add: unat_of_nat)
  then show ?case
    using Suc by (simp add: mod_mult2_eq)
qed

lemma le_val_bound: "le_val bs < 256 ^ length bs"
proof (induction bs)
  case Nil
  then show ?case by simp
next
  case (Cons b bs)
  have "unat b < 256" by (rule byte_bound)
  with Cons show ?case by simp
qed

lemma le_enc_le_val: "le_enc (length bs) (le_val bs) = bs"
proof (induction bs)
  case Nil
  then show ?case by simp
next
  case (Cons b bs)
  have "unat b < 256" by (rule byte_bound)
  with Cons show ?case by simp
qed

definition u32_to_le_bytes :: "u32 \<Rightarrow> bytes" where
  "u32_to_le_bytes x = le_enc 4 (unat x)"

definition u32_from_le_bytes :: "bytes \<Rightarrow> u32" where
  "u32_from_le_bytes bs = of_nat (le_val bs)"

definition u64_to_le_bytes :: "u64 \<Rightarrow> bytes" where
  "u64_to_le_bytes x = le_enc 8 (unat x)"

definition u64_from_le_bytes :: "bytes \<Rightarrow> u64" where
  "u64_from_le_bytes bs = of_nat (le_val bs)"

definition u64_to_be_bytes :: "u64 \<Rightarrow> bytes" where
  "u64_to_be_bytes x = rev (u64_to_le_bytes x)"

definition u64_from_be_bytes :: "bytes \<Rightarrow> u64" where
  "u64_from_be_bytes bs = u64_from_le_bytes (rev bs)"

lemma length_to_bytes [simp]:
  "length (u32_to_le_bytes x) = 4" "length (u64_to_le_bytes y) = 8"
  "length (u64_to_be_bytes y) = 8"
  by (simp_all add: u32_to_le_bytes_def u64_to_le_bytes_def u64_to_be_bytes_def)

lemma u32_le_roundtrip [simp]: "u32_from_le_bytes (u32_to_le_bytes x) = x"
proof -
  have "unat x < 256 ^ 4" using u32_bound [of x] by simp
  then show ?thesis
    by (simp add: u32_from_le_bytes_def u32_to_le_bytes_def le_val_le_enc)
qed

lemma u64_le_roundtrip [simp]: "u64_from_le_bytes (u64_to_le_bytes x) = x"
proof -
  have "unat x < 256 ^ 8" using u64_bound [of x] by simp
  then show ?thesis
    by (simp add: u64_from_le_bytes_def u64_to_le_bytes_def le_val_le_enc)
qed

lemma u64_be_roundtrip [simp]: "u64_from_be_bytes (u64_to_be_bytes x) = x"
  by (simp add: u64_from_be_bytes_def u64_to_be_bytes_def)

section \<open>Strings\<close>

definition strip_prefix :: "'a list \<Rightarrow> 'a list \<Rightarrow> 'a list option" where
  "strip_prefix p s = (if take (length p) s = p then Some (drop (length p) s) else None)"

definition strip_suffix :: "'a list \<Rightarrow> 'a list \<Rightarrow> 'a list option" where
  "strip_suffix p s = map_option rev (strip_prefix (rev p) (rev s))"

definition starts_with :: "'a list \<Rightarrow> 'a list \<Rightarrow> bool" where
  "starts_with p s \<longleftrightarrow> take (length p) s = p"

definition ends_with :: "'a list \<Rightarrow> 'a list \<Rightarrow> bool" where
  "ends_with p s \<longleftrightarrow> starts_with (rev p) (rev s)"

text \<open>\<open>str::split\<close> on a character: one part more than there are separators.\<close>

fun split_on :: "'a \<Rightarrow> 'a list \<Rightarrow> 'a list list" where
  "split_on c [] = [[]]"
| "split_on c (x # xs) =
     (if x = c then [] # split_on c xs
      else case split_on c xs of [] \<Rightarrow> [[x]] | p # ps \<Rightarrow> (x # p) # ps)"

definition rsplit_on :: "'a \<Rightarrow> 'a list \<Rightarrow> 'a list list" where
  "rsplit_on c s = rev (split_on c s)"

fun split_once :: "'a \<Rightarrow> 'a list \<Rightarrow> ('a list \<times> 'a list) option" where
  "split_once c [] = None"
| "split_once c (x # xs) =
     (if x = c then Some ([], xs)
      else map_option (\<lambda>(a, b). (x # a, b)) (split_once c xs))"

definition rsplit_once :: "'a \<Rightarrow> 'a list \<Rightarrow> ('a list \<times> 'a list) option" where
  "rsplit_once c s = map_option (\<lambda>(a, b). (rev b, rev a)) (split_once c (rev s))"

text \<open>\<open>str::splitn\<close>: at most \<open>n\<close> parts, the last one unsplit.\<close>

fun splitn :: "nat \<Rightarrow> 'a \<Rightarrow> 'a list \<Rightarrow> 'a list list" where
  "splitn 0 c s = []"
| "splitn (Suc 0) c s = [s]"
| "splitn (Suc (Suc n)) c s =
     (case split_once c s of None \<Rightarrow> [s] | Some (a, b) \<Rightarrow> a # splitn (Suc n) c b)"

fun join_with :: "'a \<Rightarrow> 'a list list \<Rightarrow> 'a list" where
  "join_with c [] = []"
| "join_with c [p] = p"
| "join_with c (p # q # ps) = p @ c # join_with c (q # ps)"

lemma strip_prefix_Some_iff: "strip_prefix p s = Some r \<longleftrightarrow> s = p @ r"
  by (auto simp: strip_prefix_def) (metis append_take_drop_id)

lemma strip_prefix_append [simp]: "strip_prefix p (p @ r) = Some r"
  by (simp add: strip_prefix_Some_iff)

lemma strip_suffix_Some_iff: "strip_suffix p s = Some r \<longleftrightarrow> s = r @ p"
proof -
  have "strip_suffix p s = Some r \<longleftrightarrow> strip_prefix (rev p) (rev s) = Some (rev r)"
    by (auto simp: strip_suffix_def)
  also have "\<dots> \<longleftrightarrow> rev s = rev (r @ p)"
    by (simp add: strip_prefix_Some_iff)
  finally show ?thesis by (simp only: rev_is_rev_conv)
qed

lemma strip_suffix_append [simp]: "strip_suffix p (r @ p) = Some r"
  by (simp add: strip_suffix_Some_iff)

lemma starts_with_iff: "starts_with p s \<longleftrightarrow> (\<exists>r. s = p @ r)"
  by (auto simp: starts_with_def) (metis append_take_drop_id)

lemma ends_with_iff: "ends_with p s \<longleftrightarrow> (\<exists>r. s = r @ p)"
  unfolding ends_with_def starts_with_iff
  by (metis rev_append rev_rev_ident)

lemma split_on_ne [simp]: "split_on c s \<noteq> []"
  by (induction s) (auto split: list.splits)

lemma split_on_no_sep: "c \<notin> set s \<Longrightarrow> split_on c s = [s]"
  by (induction s) auto

lemma split_on_append: "c \<notin> set a \<Longrightarrow> split_on c (a @ c # b) = a # split_on c b"
  by (induction a) auto

lemma split_once_append: "c \<notin> set a \<Longrightarrow> split_once c (a @ c # b) = Some (a, b)"
  by (induction a) auto

lemma split_once_None_iff: "split_once c s = None \<longleftrightarrow> c \<notin> set s"
  by (induction s) auto

lemma split_once_Some_iff:
  "split_once c s = Some (a, b) \<longleftrightarrow> s = a @ c # b \<and> c \<notin> set a"
proof
  show "split_once c s = Some (a, b) \<Longrightarrow> s = a @ c # b \<and> c \<notin> set a"
    by (induction s arbitrary: a) (auto split: if_splits)
qed (auto simp: split_once_append)

lemma rsplit_once_append: "c \<notin> set b \<Longrightarrow> rsplit_once c (a @ c # b) = Some (a, b)"
  by (simp add: rsplit_once_def split_once_append)

lemma rsplit_once_Some_iff:
  "rsplit_once c s = Some (a, b) \<longleftrightarrow> s = a @ c # b \<and> c \<notin> set b"
proof
  assume "rsplit_once c s = Some (a, b)"
  then have "split_once c (rev s) = Some (rev b, rev a)"
    by (auto simp: rsplit_once_def)
  then have "rev s = rev b @ c # rev a" "c \<notin> set b"
    by (auto simp: split_once_Some_iff)
  then show "s = a @ c # b \<and> c \<notin> set b"
    by (metis append.assoc append_Cons append_Nil rev.simps(2) rev_append rev_rev_ident)
qed (auto simp: rsplit_once_append)

lemma split_on_snoc:
  "split_on c (a @ c # b) = split_on c a @ split_on c b"
proof (induction a)
  case Nil
  then show ?case by simp
next
  case (Cons x a)
  then show ?case by (cases "split_on c a") auto
qed

lemma rsplit_on_snoc: "c \<notin> set b \<Longrightarrow> rsplit_on c (a @ c # b) = b # rsplit_on c a"
  by (simp add: rsplit_on_def split_on_snoc split_on_no_sep)

lemma split_on_join:
  "ps \<noteq> [] \<Longrightarrow> \<forall>p \<in> set ps. c \<notin> set p \<Longrightarrow> split_on c (join_with c ps) = ps"
  by (induction c ps rule: join_with.induct) (auto simp: split_on_append split_on_no_sep)

lemma join_split_on: "join_with c (split_on c s) = s"
proof (induction s)
  case Nil
  then show ?case by simp
next
  case (Cons x s)
  obtain p ps where eq: "split_on c s = p # ps"
    by (cases "split_on c s") auto
  with Cons show ?case by (cases ps) auto
qed

section \<open>Numerals\<close>

text \<open>Formatting and \<open>from_str_radix\<close>: digits most significant first. Parsing refuses
  the empty string, a lone sign, a foreign character and a value that overflows, and
  accepts one leading plus sign.\<close>

fun digits_of :: "nat \<Rightarrow> nat \<Rightarrow> nat list" where
  "digits_of b n = (if b < 2 \<or> n < b then [n] else digits_of b (n div b) @ [n mod b])"

declare digits_of.simps [simp del]

definition digit_char :: "nat \<Rightarrow> char" where
  "digit_char d = char_of (if d < 10 then 48 + d else 87 + d)"

definition char_digit :: "nat \<Rightarrow> char \<Rightarrow> nat option" where
  "char_digit b c =
     (let n = of_char c :: nat;
          d = (if 48 \<le> n \<and> n < 58 then Some (n - 48)
               else if 97 \<le> n \<and> n < 123 then Some (n - 87)
               else if 65 \<le> n \<and> n < 91 then Some (n - 55) else None)
      in case d of None \<Rightarrow> None | Some v \<Rightarrow> if v < b then Some v else None)"

definition show_radix :: "nat \<Rightarrow> nat \<Rightarrow> string" where
  "show_radix b n = map digit_char (digits_of b n)"

definition pad_zero :: "nat \<Rightarrow> string \<Rightarrow> string" where
  "pad_zero w s = replicate (w - length s) (CHR ''0'') @ s"

fun digits_val :: "nat \<Rightarrow> nat \<Rightarrow> string \<Rightarrow> nat option" where
  "digits_val b acc [] = Some acc"
| "digits_val b acc (c # cs) =
     (case char_digit b c of None \<Rightarrow> None | Some d \<Rightarrow> digits_val b (b * acc + d) cs)"

definition from_str_radix :: "nat \<Rightarrow> string \<Rightarrow> u64 option" where
  "from_str_radix b s =
     (if s = [] \<or> s = ''+'' \<or> s = ''-'' then None
      else case digits_val b 0 (if hd s = CHR ''+'' then tl s else s) of
        None \<Rightarrow> None
      | Some n \<Rightarrow> if n < 2 ^ 64 then Some (of_nat n) else None)"

definition show_u64 :: "u64 \<Rightarrow> string" where
  "show_u64 v = show_radix 10 (unat v)"

definition parse_u64 :: "string \<Rightarrow> u64 option" where
  "parse_u64 = from_str_radix 10"

text \<open>\<open>{:020}\<close> and \<open>{:032x}\<close>.\<close>

definition show_u64_020 :: "u64 \<Rightarrow> string" where
  "show_u64_020 v = pad_zero 20 (show_u64 v)"

definition show_u64_032x :: "u64 \<Rightarrow> string" where
  "show_u64_032x v = pad_zero 32 (show_radix 16 (unat v))"

lemma char_digit_digit_char [simp]: "b \<le> 36 \<Longrightarrow> d < b \<Longrightarrow> char_digit b (digit_char d) = Some d"
  by (auto simp: char_digit_def digit_char_def)

lemma digits_of_less: "2 \<le> b \<Longrightarrow> d \<in> set (digits_of b n) \<Longrightarrow> d < b"
proof (induction b n rule: digits_of.induct)
  case (1 b n)
  show ?case
  proof (cases "n < b")
    case True
    with "1.prems" show ?thesis by (simp add: digits_of.simps [of b n])
  next
    case False
    with "1" show ?thesis by (auto simp: digits_of.simps [of b n])
  qed
qed

lemma digits_val_append:
  "digits_val b acc (xs @ ys) =
     (case digits_val b acc xs of None \<Rightarrow> None | Some n \<Rightarrow> digits_val b n ys)"
  by (induction b acc xs rule: digits_val.induct) (auto split: option.splits)

lemma digits_val_show_radix:
  "2 \<le> b \<Longrightarrow> b \<le> 36 \<Longrightarrow> digits_val b 0 (show_radix b n) = Some n"
proof (induction b n rule: digits_of.induct)
  case (1 b n)
  show ?case
  proof (cases "n < b")
    case True
    with "1.prems" show ?thesis by (simp add: show_radix_def digits_of.simps [of b n])
  next
    case False
    with "1" have IH: "digits_val b 0 (show_radix b (n div b)) = Some (n div b)" by simp
    from False "1.prems" have "show_radix b n = show_radix b (n div b) @ [digit_char (n mod b)]"
      by (simp add: show_radix_def digits_of.simps [of b n])
    with IH "1.prems" show ?thesis by (simp add: digits_val_append)
  qed
qed

lemma digits_of_ne: "digits_of b n \<noteq> []"
  by (subst digits_of.simps) simp

lemma show_radix_ne: "show_radix b n \<noteq> []"
  by (simp add: show_radix_def digits_of_ne)

lemma digit_char_range: "d < 36 \<Longrightarrow> 48 \<le> (of_char (digit_char d) :: nat)"
  by (auto simp: digit_char_def)

lemma show_radix_chars:
  assumes "2 \<le> b" "b \<le> 36" "c \<in> set (show_radix b n)"
  shows "48 \<le> (of_char c :: nat)"
proof -
  from assms(3) obtain d where "d \<in> set (digits_of b n)" "c = digit_char d"
    by (auto simp: show_radix_def)
  moreover from this assms have "d < b" by (auto dest: digits_of_less)
  ultimately show ?thesis using assms by (simp add: digit_char_range)
qed

lemma digits_val_zeros: "2 \<le> b \<Longrightarrow> digits_val b 0 (replicate k (CHR ''0'') @ s) = digits_val b 0 s"
  by (induction k) (auto simp: char_digit_def)

lemma pad_zero_chars:
  assumes "c \<in> set (pad_zero w s)" "\<forall>x \<in> set s. 48 \<le> (of_char x :: nat)"
  shows "48 \<le> (of_char c :: nat)"
  using assms by (auto simp: pad_zero_def)

lemma from_str_radix_padded:
  assumes "2 \<le> b" "b \<le> 36"
  shows "from_str_radix b (pad_zero w (show_radix b (unat (v :: u64)))) = Some v"
proof -
  let ?s = "pad_zero w (show_radix b (unat v))"
  have chars: "\<forall>c \<in> set ?s. 48 \<le> (of_char c :: nat)"
    using assms by (auto intro: pad_zero_chars simp: show_radix_chars)
  have ne: "?s \<noteq> []" by (simp add: pad_zero_def show_radix_ne)
  then have "hd ?s \<in> set ?s" by simp
  with chars have hd: "hd ?s \<noteq> CHR ''+''" "hd ?s \<noteq> CHR ''-''" by fastforce+
  then have "?s \<noteq> ''+''" "?s \<noteq> ''-''" by auto
  moreover have "digits_val b 0 ?s = Some (unat v)"
    using assms by (simp add: pad_zero_def digits_val_zeros digits_val_show_radix)
  ultimately show ?thesis
    using ne hd u64_bound [of v] by (simp add: from_str_radix_def)
qed

lemma pad_zero_0 [simp]: "pad_zero 0 s = s"
  by (simp add: pad_zero_def)

lemma parse_show_u64 [simp]: "parse_u64 (show_u64 v) = Some v"
  using from_str_radix_padded [of 10 0 v] by (simp add: parse_u64_def show_u64_def)

lemma parse_show_u64_020 [simp]: "parse_u64 (show_u64_020 v) = Some v"
  by (simp add: parse_u64_def show_u64_020_def show_u64_def from_str_radix_padded)

lemma parse_show_u64_032x [simp]: "from_str_radix 16 (show_u64_032x v) = Some v"
  by (simp add: show_u64_032x_def from_str_radix_padded)

lemma show_u64_chars: "c \<in> set (show_u64 v) \<Longrightarrow> 48 \<le> (of_char c :: nat)"
  using show_radix_chars [of 10 c] by (simp add: show_u64_def)

lemma show_u64_032x_chars: "c \<in> set (show_u64_032x v) \<Longrightarrow> 48 \<le> (of_char c :: nat)"
  unfolding show_u64_032x_def by (rule pad_zero_chars) (auto intro: show_radix_chars [of 16])

lemma show_u64_no_slash [simp]:
  "CHR ''/'' \<notin> set (show_u64 v)" "CHR ''/'' \<notin> set (show_u64_032x v)"
  by (fastforce dest: show_u64_chars show_u64_032x_chars)+

lemma show_u64_inj [simp]: "show_u64 a = show_u64 b \<longleftrightarrow> a = b"
  by (metis option.inject parse_show_u64)

lemma show_u64_032x_inj [simp]: "show_u64_032x a = show_u64_032x b \<longleftrightarrow> a = b"
  by (metis option.inject parse_show_u64_032x)

section \<open>Operations on a state\<close>

text \<open>A fallible operation with side effects: the state is kept on failure as it was at the
  point of the failure.\<close>

type_synonym ('s, 'a) op = "'s \<Rightarrow> 'a result \<times> 's"

definition ret_op :: "'a \<Rightarrow> ('s, 'a) op" where
  "ret_op x s = (Inr x, s)"

definition lift_op :: "'a result \<Rightarrow> ('s, 'a) op" where
  "lift_op r s = (r, s)"

definition bind_op :: "('s, 'a) op \<Rightarrow> ('a \<Rightarrow> ('s, 'b) op) \<Rightarrow> ('s, 'b) op" where
  "bind_op m f s = (case m s of (Inl e, s') \<Rightarrow> (Inl e, s') | (Inr x, s') \<Rightarrow> f x s')"

definition ensure_op :: "bool \<Rightarrow> string \<Rightarrow> ('s, 'a) op \<Rightarrow> ('s, 'a) op" where
  "ensure_op c msg k s = (if c then k s else (Inl msg, s))"

text \<open>Run an operation and keep its result as a value, as a join or a match on it does.\<close>

definition try_op :: "('s, 'a) op \<Rightarrow> ('s, 'a result) op" where
  "try_op m s = (case m s of (r, s') \<Rightarrow> (Inr r, s'))"

named_theorems op_simps

lemma bind_op_Inr [op_simps]:
  "bind_op m f s = (Inr y, s') \<longleftrightarrow> (\<exists>x t. m s = (Inr x, t) \<and> f x t = (Inr y, s'))"
  by (auto simp: bind_op_def split: prod.splits sum.splits)

lemma ret_op_Inr [op_simps]: "ret_op x s = (Inr y, s') \<longleftrightarrow> y = x \<and> s' = s"
  by (auto simp: ret_op_def)

lemma lift_op_Inr [op_simps]: "lift_op r s = (Inr y, s') \<longleftrightarrow> r = Inr y \<and> s' = s"
  by (auto simp: lift_op_def)

lemma ensure_op_Inr [op_simps]: "ensure_op c msg k s = (Inr y, s') \<longleftrightarrow> c \<and> k s = (Inr y, s')"
  by (auto simp: ensure_op_def)

lemma try_op_Inr [op_simps]: "try_op m s = (Inr y, s') \<longleftrightarrow> m s = (y, s')"
  by (auto simp: try_op_def split: prod.splits)

section \<open>Invariants of a state machine\<close>

text \<open>What an inductive step relation has to provide for a property to hold in every
  reachable state.\<close>

locale invariant_of =
  fixes init :: "'s \<Rightarrow> bool"
    and step :: "'s \<Rightarrow> 's \<Rightarrow> bool"
    and invar :: "'s \<Rightarrow> bool"
  assumes init_invar: "init s \<Longrightarrow> invar s"
    and step_invar: "invar s \<Longrightarrow> step s t \<Longrightarrow> invar t"
begin

lemma steps_invar: "step\<^sup>*\<^sup>* s t \<Longrightarrow> invar s \<Longrightarrow> invar t"
  by (induction rule: rtranclp_induct) (auto intro: step_invar)

lemma reachable_invar: "init s \<Longrightarrow> step\<^sup>*\<^sup>* s t \<Longrightarrow> invar t"
  by (rule steps_invar) (auto intro: init_invar)

end

end
