(* ===== verification/Storage_Paths.thy ===== *)
theory Storage_Paths
  imports DA_Prelude
begin

text \<open>
  Actor identities and the object names derived from them
  (\<open>actor/protocol.rs\<close>, \<open>actor_state.rs\<close>, \<open>storage_paths.rs\<close>,
  \<open>storage.rs\<close>). Base64 and SHA-256 come from third-party crates and are the
  record \<open>crypto\<close>; what the code relies on is the predicate \<open>crypto_ok\<close>: decoding
  inverts encoding, the encoding stays inside the URL-safe alphabet, a digest has 32 bytes.
\<close>

section \<open>Byte strings\<close>

definition str_bytes :: "string \<Rightarrow> bytes" where
  "str_bytes s = map (\<lambda>c. of_nat (of_char c)) s"

definition bytes_str :: "bytes \<Rightarrow> string" where
  "bytes_str bs = map (\<lambda>b. char_of (unat b)) bs"

text \<open>\<open>String::from_utf8\<close>: the well-formed byte sequences of RFC 3629.\<close>

definition cont :: "byte \<Rightarrow> bool" where
  "cont b \<longleftrightarrow> 0x80 \<le> b \<and> b \<le> 0xBF"

fun utf8_valid :: "bytes \<Rightarrow> bool" where
  "utf8_valid [] = True"
| "utf8_valid (a # r) =
    (if a < 0x80 then utf8_valid r
     else if 0xC2 \<le> a \<and> a \<le> 0xDF then
       (case r of b # r' \<Rightarrow> cont b \<and> utf8_valid r' | _ \<Rightarrow> False)
     else if 0xE0 \<le> a \<and> a \<le> 0xEF then
       (case r of b # c # r' \<Rightarrow>
          cont b \<and> cont c \<and> (a = 0xE0 \<longrightarrow> 0xA0 \<le> b) \<and> (a = 0xED \<longrightarrow> b \<le> 0x9F) \<and> utf8_valid r'
        | _ \<Rightarrow> False)
     else if 0xF0 \<le> a \<and> a \<le> 0xF4 then
       (case r of b # c # d # r' \<Rightarrow>
          cont b \<and> cont c \<and> cont d \<and> (a = 0xF0 \<longrightarrow> 0x90 \<le> b) \<and> (a = 0xF4 \<longrightarrow> b \<le> 0x8F) \<and>
          utf8_valid r'
        | _ \<Rightarrow> False)
     else False)"

definition from_utf8 :: "bytes \<Rightarrow> string result" where
  "from_utf8 bs = (if utf8_valid bs then Inr (bytes_str bs) else Inl ''invalid utf-8'')"

lemma bytes_str_str_bytes [simp]: "bytes_str (str_bytes s) = s"
  by (induction s) (simp_all add: bytes_str_def str_bytes_def unat_of_nat)

lemma utf8_valid_ascii: "\<forall>c \<in> set s. (of_char c :: nat) < 128 \<Longrightarrow> utf8_valid (str_bytes s)"
proof (induction s)
  case Nil
  then show ?case by (simp add: str_bytes_def)
next
  case (Cons c s)
  then have "(of_nat (of_char c) :: byte) < 0x80"
    by (simp add: word_less_nat_alt unat_of_nat)
  with Cons show ?case by (simp add: str_bytes_def)
qed

section \<open>External codecs\<close>

record crypto =
  b64url_encode :: "bytes \<Rightarrow> string"
  b64url_decode :: "string \<Rightarrow> bytes result"
  sha256 :: "bytes \<Rightarrow> bytes"

definition is_ascii_alphanumeric :: "char \<Rightarrow> bool" where
  "is_ascii_alphanumeric c \<longleftrightarrow>
     (let n = (of_char c :: nat) in 48 \<le> n \<and> n \<le> 57 \<or> 65 \<le> n \<and> n \<le> 90 \<or> 97 \<le> n \<and> n \<le> 122)"

definition url_safe :: "char \<Rightarrow> bool" where
  "url_safe c \<longleftrightarrow> is_ascii_alphanumeric c \<or> c = CHR ''-'' \<or> c = CHR ''_''"

definition crypto_ok :: "crypto \<Rightarrow> bool" where
  "crypto_ok C \<longleftrightarrow>
     (\<forall>bs. b64url_decode C (b64url_encode C bs) = Inr bs) \<and>
     (\<forall>bs. \<forall>c \<in> set (b64url_encode C bs). url_safe c) \<and>
     (\<forall>bs. length (sha256 C bs) = 32)"

lemma url_safe_no_slash: "url_safe c \<Longrightarrow> c \<noteq> CHR ''/''"
  by (auto simp: url_safe_def is_ascii_alphanumeric_def)

section \<open>Actor keys\<close>

record ActorKey =
  project_id :: string
  actor_name :: string
  actor_id :: string

datatype ActorStorageKey = ActorStorageKey (as_str: string)

definition MAX_ACTOR_NAME_BYTES :: nat where "MAX_ACTOR_NAME_BYTES = 48"
definition MAX_ACTOR_ID_BYTES :: nat where "MAX_ACTOR_ID_BYTES = 128"
definition MAX_METHOD_BYTES :: nat where "MAX_METHOD_BYTES = 128"

definition component_char :: "char \<Rightarrow> bool" where
  "component_char c \<longleftrightarrow> is_ascii_alphanumeric c \<or> c \<in> {CHR ''-'', CHR ''_'', CHR ''.''}"

definition validate_component :: "string \<Rightarrow> string \<Rightarrow> nat \<Rightarrow> unit result" where
  "validate_component name value max_bytes =
     ensure (value \<noteq> []) (name @ '' must not be empty'') (
     ensure (length value \<le> max_bytes)
       (name @ '' must be at most '' @ show_radix 10 max_bytes @ '' bytes'') (
     ensure (list_all component_char value)
       (name @ '' may contain only ASCII letters, digits, '' @
        [CHR 0x27, CHR ''.'', CHR 0x27] @ '', '' @ [CHR 0x27, CHR ''-'', CHR 0x27] @ '', and '' @
        [CHR 0x27, CHR ''_'', CHR 0x27]) (
     Inr ())))"

text \<open>\<open>char::is_control\<close> over the UTF-8 bytes: U+0000 to U+001F, U+007F, and
  U+0080 to U+009F, which is the byte C2 followed by 80 to 9F.\<close>

fun has_control :: "string \<Rightarrow> bool" where
  "has_control [] = False"
| "has_control (c # s) =
     ((of_char c :: nat) < 32 \<or> (of_char c :: nat) = 127 \<or>
      ((of_char c :: nat) = 194 \<and> s \<noteq> [] \<and> 128 \<le> (of_char (hd s) :: nat) \<and> (of_char (hd s) :: nat) < 160) \<or>
      has_control s)"

definition storage_key_validate :: "ActorStorageKey \<Rightarrow> unit result" where
  "storage_key_validate k =
     ensure (as_str k \<noteq> []) ''actor storage key must not be empty'' (
     ensure (length (as_str k) \<le> 255) ''actor storage key must be at most 255 bytes'' (
     ensure (as_str k \<noteq> ''.'' \<and> as_str k \<noteq> ''..'')
       ''actor storage key must not be a relative path component'' (
     ensure (\<not> (CHR ''/'' \<in> set (as_str k) \<or> CHR 0x5C \<in> set (as_str k) \<or> has_control (as_str k)))
       ''actor storage key must not contain path separators or control characters'' (
     Inr ()))))"

definition storage_key :: "ActorKey \<Rightarrow> ActorStorageKey" where
  "storage_key a =
     ActorStorageKey (''object.v4.'' @ project_id a @ '':'' @ actor_name a @ '':'' @ actor_id a)"

definition actor_validate :: "ActorKey \<Rightarrow> unit result" where
  "actor_validate a =
     rbind (validate_component ''project ID'' (project_id a) 64) (\<lambda>_.
     rbind (validate_component ''actor name'' (actor_name a) MAX_ACTOR_NAME_BYTES) (\<lambda>_.
     rbind (validate_component ''actor ID'' (actor_id a) MAX_ACTOR_ID_BYTES) (\<lambda>_.
     storage_key_validate (storage_key a))))"

definition validate_region :: "string \<Rightarrow> unit result" where
  "validate_region region =
     ensure (region \<noteq> [] \<and> length region \<le> 64 \<and>
             list_all (\<lambda>c. let n = (of_char c :: nat) in
               97 \<le> n \<and> n \<le> 122 \<or> 48 \<le> n \<and> n \<le> 57 \<or> c \<in> {CHR ''.'', CHR ''_'', CHR ''-''}) region)
       ''sandbox region is invalid'' (Inr ())"

section \<open>Object names\<close>

definition ROOT :: string where "ROOT = ''durable-actors/v3/''"

definition b64_component :: "crypto \<Rightarrow> string \<Rightarrow> string" where
  "b64_component C v = b64url_encode C (str_bytes v)"

definition path_decode :: "crypto \<Rightarrow> string \<Rightarrow> string result" where
  "path_decode C v = rbind (b64url_decode C v) from_utf8"

definition actor_path :: "crypto \<Rightarrow> ActorKey \<Rightarrow> string" where
  "actor_path C a =
     pad_zero 2 (show_radix 16 (unat (sha256 C (str_bytes (as_str (storage_key a))) ! 0))) @ ''/'' @
     b64_component C (project_id a) @ ''/'' @ b64_component C (actor_name a) @ ''/'' @
     b64_component C (actor_id a)"

definition snapshots :: "crypto \<Rightarrow> ActorKey \<Rightarrow> string result" where
  "snapshots C a =
     rbind (actor_validate a) (\<lambda>_. Inr (ROOT @ ''snapshots/'' @ actor_path C a @ ''/''))"

definition actor_from_key :: "ActorStorageKey \<Rightarrow> ActorKey result" where
  "actor_from_key k =
     rbind (context_opt ''invalid actor key'' (strip_prefix ''object.v4.'' (as_str k))) (\<lambda>rest.
     let parts = split_on (CHR '':'') rest in
     ensure (length parts = 3) ''invalid actor identity'' (
     let a = \<lparr>project_id = parts ! 0, actor_name = parts ! 1, actor_id = parts ! 2\<rparr> in
     rbind (actor_validate a) (\<lambda>_. Inr a)))"

definition owner :: "crypto \<Rightarrow> ActorStorageKey \<Rightarrow> string result" where
  "owner C k =
     rbind (actor_from_key k) (\<lambda>a. Inr (ROOT @ ''owners/'' @ actor_path C a @ ''.json''))"

definition owner_in_project :: "crypto \<Rightarrow> string \<Rightarrow> string \<Rightarrow> bool" where
  "owner_in_project C key project =
     (case strip_prefix (ROOT @ ''owners/'') key of
        None \<Rightarrow> False
      | Some path \<Rightarrow>
          (let parts = split_on (CHR ''/'') path in
           1 < length parts \<and> parts ! 1 = b64_component C project))"

definition host_path :: "crypto \<Rightarrow> string \<Rightarrow> string" where
  "host_path C h = ROOT @ ''hosts/'' @ b64_component C h @ ''/''"

definition session_path :: "crypto \<Rightarrow> string \<Rightarrow> string \<Rightarrow> string" where
  "session_path C h s = host_path C h @ ''sessions/'' @ b64_component C s"

definition actor_from_snapshot :: "crypto \<Rightarrow> string \<Rightarrow> ActorKey result" where
  "actor_from_snapshot C obj =
     rbind (context_opt ''invalid snapshot root'' (strip_prefix ROOT obj)) (\<lambda>rest.
     let parts = split_on (CHR ''/'') rest in
     ensure (length parts = 7 \<and> parts ! 0 = ''snapshots'') ''invalid snapshot path'' (
     rbind (path_decode C (parts ! 2)) (\<lambda>p.
     rbind (path_decode C (parts ! 3)) (\<lambda>n.
     rbind (path_decode C (parts ! 4)) (\<lambda>i.
     let a = \<lparr>project_id = p, actor_name = n, actor_id = i\<rparr> in
     rbind (actor_validate a) (\<lambda>_.
     rbind (snapshots C a) (\<lambda>pre.
     ensure (starts_with pre obj) ''snapshot shard mismatch'' (Inr a))))))))"

definition is_ascii_hexdigit :: "char \<Rightarrow> bool" where
  "is_ascii_hexdigit c \<longleftrightarrow>
     (let n = (of_char c :: nat) in 48 \<le> n \<and> n \<le> 57 \<or> 65 \<le> n \<and> n \<le> 70 \<or> 97 \<le> n \<and> n \<le> 102)"

definition nonce_ok :: "string \<Rightarrow> bool" where
  "nonce_ok nonce \<longleftrightarrow> length nonce = 32 \<and> list_all is_ascii_hexdigit nonce"

definition snapshot_object_name :: "crypto \<Rightarrow> ActorKey \<Rightarrow> u64 \<Rightarrow> string \<Rightarrow> string result" where
  "snapshot_object_name C a v nonce =
     rbind (actor_validate a) (\<lambda>_.
     ensure (v > 0) ''actor state version must be positive'' (
     ensure (nonce_ok nonce) ''actor state object nonce is invalid'' (
     rbind (snapshots C a) (\<lambda>pre.
     Inr (pre @ nonce @ ''/'' @ show_u64 v @ ''.json'')))))"

definition validate_object_name :: "string \<Rightarrow> unit result" where
  "validate_object_name n =
     ensure (starts_with ROOT n \<and> length n \<le> 1024 \<and> \<not> has_control n)
       ''actor state object name is invalid'' (Inr ())"

definition validate_snapshot_object_name :: "crypto \<Rightarrow> ActorKey \<Rightarrow> u64 \<Rightarrow> string \<Rightarrow> unit result" where
  "validate_snapshot_object_name C a v n =
     rbind (validate_object_name n) (\<lambda>_.
     rbind (snapshots C a) (\<lambda>pre.
     let parts = split_on (CHR ''/'') (case strip_prefix pre n of None \<Rightarrow> [] | Some r \<Rightarrow> r) in
     ensure (nonce_ok (parts ! 0) \<and> length parts = 2 \<and> parts ! 1 = show_u64 v @ ''.json'')
       ''actor state object name does not match its commit'' (Inr ())))"

text \<open>\<open>str::trim\<close> strips the code points with the Unicode property
  \<open>White_Space\<close>; a string is its own trim when it neither starts nor ends with one.\<close>

definition white_space :: "string list" where
  "white_space = map (map char_of)
     ([[9], [10], [11], [12], [13], [32], [0xC2, 0x85], [0xC2, 0xA0], [0xE1, 0x9A, 0x80],
       [0xE2, 0x80, 0xA8], [0xE2, 0x80, 0xA9], [0xE2, 0x80, 0xAF], [0xE2, 0x81, 0x9F],
       [0xE3, 0x80, 0x80]] @ map (\<lambda>i. [0xE2, 0x80, 0x80 + i]) [0 ..< 11] :: nat list list)"

definition is_trimmed :: "string \<Rightarrow> bool" where
  "is_trimmed s \<longleftrightarrow> list_all (\<lambda>w. \<not> starts_with w s \<and> \<not> ends_with w s) white_space"

definition validate_bucket :: "string \<Rightarrow> unit result" where
  "validate_bucket b =
     ensure (b \<noteq> [] \<and> is_trimmed b \<and> length b \<le> 222 \<and> CHR ''/'' \<notin> set b)
       ''invalid storage bucket'' (Inr ())"

section \<open>What a valid key looks like\<close>

definition component_ok :: "nat \<Rightarrow> string \<Rightarrow> bool" where
  "component_ok m v \<longleftrightarrow> v \<noteq> [] \<and> length v \<le> m \<and> list_all component_char v"

lemma validate_component_Inr_iff [result_simps]:
  "validate_component name v m = Inr u \<longleftrightarrow> component_ok m v"
  by (auto simp: validate_component_def component_ok_def result_simps)

lemma component_char_range:
  "component_char c \<Longrightarrow> 32 < (of_char c :: nat) \<and> (of_char c :: nat) < 127"
  by (auto simp: component_char_def is_ascii_alphanumeric_def Let_def)

lemma component_char_not: "component_char c \<Longrightarrow>
   c \<noteq> CHR '':'' \<and> c \<noteq> CHR ''/'' \<and> c \<noteq> CHR 0x5C"
  by (auto simp: component_char_def is_ascii_alphanumeric_def Let_def)

lemma component_ok_set:
  "component_ok m v \<Longrightarrow> CHR '':'' \<notin> set v \<and> CHR ''/'' \<notin> set v \<and> CHR 0x5C \<notin> set v"
  by (auto simp: component_ok_def list_all_iff dest: component_char_not)

lemma component_ok_utf8: "component_ok m v \<Longrightarrow> utf8_valid (str_bytes v)"
  by (rule utf8_valid_ascii)
     (fastforce simp: component_ok_def list_all_iff dest: component_char_range)

lemma has_control_printable:
  "\<forall>c \<in> set s. 32 \<le> (of_char c :: nat) \<and> (of_char c :: nat) < 127 \<Longrightarrow> \<not> has_control s"
  by (induction s) auto

definition key_char :: "char \<Rightarrow> bool" where
  "key_char c \<longleftrightarrow> 32 \<le> (of_char c :: nat) \<and> (of_char c :: nat) < 127 \<and> c \<noteq> CHR ''/'' \<and> c \<noteq> CHR 0x5C"

lemma component_key_char: "component_char c \<Longrightarrow> key_char c"
  using component_char_range [of c] component_char_not [of c] by (simp add: key_char_def)

lemma component_ok_key_char: "component_ok m v \<Longrightarrow> list_all key_char v"
  by (simp add: component_ok_def list_all_iff component_key_char)

lemma storage_key_ok:
  assumes "component_ok 64 (project_id a)" "component_ok 48 (actor_name a)" "component_ok 128 (actor_id a)"
  shows "storage_key_validate (storage_key a) = Inr ()"
proof -
  let ?k = "as_str (storage_key a)"
  have "list_all key_char ''object.v4.''" "list_all key_char '':''"
    by (simp_all add: key_char_def)
  with assms [THEN component_ok_key_char] have chars: "list_all key_char ?k"
    by (simp add: storage_key_def)
  then have "\<not> has_control ?k"
    by (intro has_control_printable) (simp add: list_all_iff key_char_def)
  moreover have "length ?k \<le> 255"
    using assms by (simp add: storage_key_def component_ok_def)
  moreover have "?k \<noteq> []" "?k \<noteq> ''.''" "?k \<noteq> ''..''" by (simp_all add: storage_key_def)
  moreover have "CHR ''/'' \<notin> set ?k" "CHR 0x5C \<notin> set ?k"
    using chars by (auto simp: list_all_iff key_char_def)
  ultimately show ?thesis by (simp add: storage_key_validate_def)
qed

lemma actor_validate_Inr_iff [result_simps]:
  "actor_validate a = Inr u \<longleftrightarrow>
     component_ok 64 (project_id a) \<and> component_ok 48 (actor_name a) \<and> component_ok 128 (actor_id a)"
  by (auto simp: actor_validate_def result_simps MAX_ACTOR_NAME_BYTES_def MAX_ACTOR_ID_BYTES_def
      storage_key_ok)

lemma snapshots_Inr_iff [result_simps]:
  "snapshots C a = Inr p \<longleftrightarrow>
     actor_validate a = Inr () \<and> p = ROOT @ ''snapshots/'' @ actor_path C a @ ''/''"
  by (auto simp: snapshots_def result_simps)

lemma b64_component_no_slash: "crypto_ok C \<Longrightarrow> CHR ''/'' \<notin> set (b64_component C v)"
  unfolding crypto_ok_def b64_component_def by (blast dest: url_safe_no_slash)

lemma b64_component_inj:
  "crypto_ok C \<Longrightarrow> b64_component C v = b64_component C w \<longleftrightarrow> v = w"
  unfolding crypto_ok_def b64_component_def
  by (metis Inr_inject bytes_str_str_bytes)

lemma path_decode_component:
  assumes "crypto_ok C" "component_ok m v"
  shows "path_decode C (b64_component C v) = Inr v"
  using assms component_ok_utf8 [OF assms(2)]
  by (simp add: path_decode_def b64_component_def crypto_ok_def from_utf8_def)

lemma shard_no_slash [simp]: "CHR ''/'' \<notin> set (pad_zero 2 (show_radix 16 n))"
  using pad_zero_chars [of "CHR ''/''" 2 "show_radix 16 n"] show_radix_chars [of 16 _ n] by fastforce

text \<open>The four components of an actor path, read back by splitting at the slashes.\<close>

lemma split_actor_path:
  assumes "crypto_ok C"
  shows "split_on (CHR ''/'') (actor_path C a @ r) =
     pad_zero 2 (show_radix 16 (unat (sha256 C (str_bytes (as_str (storage_key a))) ! 0))) #
     b64_component C (project_id a) # b64_component C (actor_name a) #
     split_on (CHR ''/'') (b64_component C (actor_id a) @ r)"
  using b64_component_no_slash [OF assms] by (simp add: actor_path_def split_on_append)

section \<open>Round trips\<close>

lemma actor_eta [simp]:
  "\<lparr>project_id = project_id a, actor_name = actor_name a, actor_id = actor_id a\<rparr> = (a :: ActorKey)"
  by simp

lemma actor_from_key_storage_key_iff:
  "actor_from_key (storage_key a) = Inr a \<longleftrightarrow> actor_validate a = Inr ()"
proof
  assume "actor_validate a = Inr ()"
  then have ok: "CHR '':'' \<notin> set (project_id a)" "CHR '':'' \<notin> set (actor_name a)" "CHR '':'' \<notin> set (actor_id a)"
    by (auto simp: result_simps dest: component_ok_set)
  then have "split_on (CHR '':'') (project_id a @ '':'' @ actor_name a @ '':'' @ actor_id a) =
     [project_id a, actor_name a, actor_id a]"
    by (simp add: split_on_append split_on_no_sep)
  with \<open>actor_validate a = Inr ()\<close> show "actor_from_key (storage_key a) = Inr a"
    by (simp add: actor_from_key_def storage_key_def strip_prefix_def Let_def)
qed (auto simp: actor_from_key_def result_simps Let_def)

lemma actor_from_key_storage_key:
  "actor_validate a = Inr () \<Longrightarrow> actor_from_key (storage_key a) = Inr a"
  by (simp add: actor_from_key_storage_key_iff)

lemma owner_storage_key:
  "actor_validate a = Inr () \<Longrightarrow>
     owner C (storage_key a) = Inr (ROOT @ ''owners/'' @ actor_path C a @ ''.json'')"
  by (simp add: owner_def actor_from_key_storage_key)

lemma nonce_no_slash: "nonce_ok n \<Longrightarrow> CHR ''/'' \<notin> set n"
  by (auto simp: nonce_ok_def list_all_iff is_ascii_hexdigit_def Let_def)

lemma actor_from_snapshot_under_prefix:
  assumes C: "crypto_ok C" and a: "snapshots C a = Inr pre"
    and n: "CHR ''/'' \<notin> set n" and f: "CHR ''/'' \<notin> set f"
  shows "actor_from_snapshot C (pre @ n @ ''/'' @ f) = Inr a"
proof -
  have v: "actor_validate a = Inr ()" and pre: "pre = ROOT @ ''snapshots/'' @ actor_path C a @ ''/''"
    using a by (auto simp: snapshots_Inr_iff)
  let ?rest = "''snapshots'' @ CHR ''/'' # (actor_path C a @ ''/'' @ n @ ''/'' @ f)"
  have strip: "strip_prefix ROOT (pre @ n @ ''/'' @ f) = Some ?rest"
    by (simp add: strip_prefix_Some_iff pre)
  have "split_on (CHR ''/'') ?rest =
     [''snapshots'', pad_zero 2 (show_radix 16 (unat (sha256 C (str_bytes (as_str (storage_key a))) ! 0))),
      b64_component C (project_id a), b64_component C (actor_name a), b64_component C (actor_id a), n, f]"
    using n f b64_component_no_slash [OF C]
    by (subst split_on_append) (simp_all add: split_actor_path [OF C] split_on_append split_on_no_sep)
  with strip v show ?thesis
    using C pre
    by (auto simp: actor_from_snapshot_def Let_def path_decode_component [OF C] result_simps
        starts_with_iff a)
qed

lemma snapshot_object_name_Inr_iff [result_simps]:
  "snapshot_object_name C a v n = Inr obj \<longleftrightarrow>
     actor_validate a = Inr () \<and> v > 0 \<and> nonce_ok n \<and>
     obj = ROOT @ ''snapshots/'' @ actor_path C a @ ''/'' @ n @ ''/'' @ show_u64 v @ ''.json''"
  by (auto simp: snapshot_object_name_def snapshots_def result_simps)

lemma actor_from_snapshot_object_name:
  assumes "crypto_ok C" "snapshot_object_name C a v n = Inr obj"
  shows "actor_from_snapshot C obj = Inr a"
proof -
  have "snapshots C a = Inr (ROOT @ ''snapshots/'' @ actor_path C a @ ''/'')"
    "obj = (ROOT @ ''snapshots/'' @ actor_path C a @ ''/'') @ n @ ''/'' @ (show_u64 v @ ''.json'')"
    "nonce_ok n"
    using assms(2) by (auto simp: result_simps)
  then show ?thesis
    using actor_from_snapshot_under_prefix [OF assms(1), of a _ n "show_u64 v @ ''.json''"]
    by (simp add: nonce_no_slash)
qed

lemma url_safe_key_char: "url_safe c \<Longrightarrow> key_char c"
  by (auto simp: url_safe_def key_char_def is_ascii_alphanumeric_def Let_def)

lemma show_radix16_key_char: "c \<in> set (show_radix 16 n) \<Longrightarrow> 32 \<le> (of_char c :: nat) \<and> (of_char c :: nat) < 127"
  using digits_of_less [of 16 _ n] by (fastforce simp: show_radix_def digit_char_def)

lemma show_radix10_key_char: "c \<in> set (show_radix 10 n) \<Longrightarrow> 32 \<le> (of_char c :: nat) \<and> (of_char c :: nat) < 127"
  using digits_of_less [of 10 _ n] by (fastforce simp: show_radix_def digit_char_def)

definition printable :: "string \<Rightarrow> bool" where
  "printable s \<longleftrightarrow> list_all (\<lambda>c. 32 \<le> (of_char c :: nat) \<and> (of_char c :: nat) < 127) s"

lemma printable_append [simp]: "printable (a @ b) \<longleftrightarrow> printable a \<and> printable b"
  by (simp add: printable_def)

lemma printable_Cons [simp]:
  "printable (c # s) \<longleftrightarrow> 32 \<le> (of_char c :: nat) \<and> (of_char c :: nat) < 127 \<and> printable s"
  by (auto simp: printable_def)

lemma printable_Nil [simp]: "printable []"
  by (simp add: printable_def)

lemma printable_no_control: "printable s \<Longrightarrow> \<not> has_control s"
  by (rule has_control_printable) (simp add: printable_def list_all_iff)

lemma printable_component: "crypto_ok C \<Longrightarrow> printable (b64_component C v)"
  unfolding crypto_ok_def b64_component_def printable_def list_all_iff
  by (metis key_char_def url_safe_key_char)

lemma printable_show:
  "printable (show_u64 v)" "printable (pad_zero k (show_radix 16 n))"
  using show_radix10_key_char show_radix16_key_char
  by (auto simp: printable_def list_all_iff show_u64_def pad_zero_def)

lemma printable_nonce: "nonce_ok n \<Longrightarrow> printable n"
  by (auto simp: nonce_ok_def printable_def list_all_iff is_ascii_hexdigit_def Let_def)

lemma printable_actor_path: "crypto_ok C \<Longrightarrow> printable (actor_path C a)"
  by (simp add: actor_path_def printable_component printable_show)

lemma validate_snapshot_object_name_of:
  assumes C: "crypto_ok C" and n: "snapshot_object_name C a v n = Inr obj" and len: "length obj \<le> 1024"
  shows "validate_snapshot_object_name C a v obj = Inr ()"
proof -
  have obj: "obj = ROOT @ ''snapshots/'' @ actor_path C a @ ''/'' @ n @ ''/'' @ show_u64 v @ ''.json''"
    and a: "actor_validate a = Inr ()" and ok: "nonce_ok n"
    using n by (auto simp: result_simps)
  have "printable obj"
    using C ok by (simp add: obj ROOT_def printable_actor_path printable_nonce printable_show)
  then have "validate_object_name obj = Inr ()"
    using len by (simp add: validate_object_name_def printable_no_control obj starts_with_def)
  moreover have "split_on (CHR ''/'') (n @ ''/'' @ show_u64 v @ ''.json'') = [n, show_u64 v @ ''.json'']"
    using nonce_no_slash [OF ok] by (simp add: split_on_append split_on_no_sep)
  moreover have "strip_prefix (ROOT @ ''snapshots/'' @ actor_path C a @ ''/'') obj =
      Some (n @ ''/'' @ show_u64 v @ ''.json'')"
    by (simp add: strip_prefix_Some_iff obj)
  ultimately show ?thesis
    using a ok by (simp add: validate_snapshot_object_name_def snapshots_def Let_def)
qed

lemma validate_snapshot_object_name_shape:
  assumes "validate_snapshot_object_name C b w obj = Inr ()"
  obtains m where "nonce_ok m" "snapshots C b = Inr (ROOT @ ''snapshots/'' @ actor_path C b @ ''/'')"
    "obj = (ROOT @ ''snapshots/'' @ actor_path C b @ ''/'') @ m @ ''/'' @ (show_u64 w @ ''.json'')"
proof -
  let ?pre = "ROOT @ ''snapshots/'' @ actor_path C b @ ''/''"
  from assms have pre: "snapshots C b = Inr ?pre"
    by (auto simp: validate_snapshot_object_name_def result_simps Let_def)
  let ?r = "case strip_prefix ?pre obj of None \<Rightarrow> [] | Some r \<Rightarrow> r"
  let ?parts = "split_on (CHR ''/'') ?r"
  from assms pre have ok: "nonce_ok (?parts ! 0)" "length ?parts = 2" "?parts ! 1 = show_u64 w @ ''.json''"
    by (auto simp: validate_snapshot_object_name_def result_simps Let_def)
  then obtain m where m: "?parts = [m, show_u64 w @ ''.json'']"
    by (cases ?parts; cases "tl ?parts") auto
  then have r: "?r = m @ ''/'' @ show_u64 w @ ''.json''"
    using join_split_on [of "CHR ''/''" ?r] by simp
  obtain x where x: "strip_prefix ?pre obj = Some x"
    using r by (cases "strip_prefix ?pre obj") simp_all
  then have "obj = ?pre @ x" by (simp only: strip_prefix_Some_iff)
  moreover from x r have "x = m @ ''/'' @ show_u64 w @ ''.json''" by (simp only: option.case)
  ultimately show thesis
    using m ok pre by (intro that [of m]) simp_all
qed

section \<open>A concrete codec\<close>

text \<open>Hexadecimal satisfies the laws asked of the encoder, so they are satisfiable.\<close>

definition hex_byte :: "byte \<Rightarrow> string" where
  "hex_byte b = [digit_char (unat b div 16), digit_char (unat b mod 16)]"

fun unhex :: "string \<Rightarrow> bytes result" where
  "unhex [] = Inr []"
| "unhex [c] = Inl ''odd length''"
| "unhex (c # d # s) =
     (case (char_digit 16 c, char_digit 16 d) of
        (Some x, Some y) \<Rightarrow> rbind (unhex s) (\<lambda>r. Inr (of_nat (16 * x + y) # r))
      | _ \<Rightarrow> Inl ''invalid digit'')"

definition hex_crypto :: crypto where
  "hex_crypto = \<lparr>b64url_encode = (\<lambda>bs. concat (map hex_byte bs)), b64url_decode = unhex,
     sha256 = (\<lambda>bs. replicate 32 (of_nat (length bs)))\<rparr>"

lemma unhex_hex: "unhex (concat (map hex_byte bs)) = Inr bs"
proof (induction bs)
  case Nil
  then show ?case by simp
next
  case (Cons b bs)
  have "unat b div 16 < 16" using byte_bound [of b] by simp
  with Cons show ?case by (simp add: hex_byte_def)
qed

lemma digit_char_url_safe: "d < 16 \<Longrightarrow> url_safe (digit_char d)"
  by (auto simp: url_safe_def is_ascii_alphanumeric_def digit_char_def Let_def)

lemma crypto_ok_hex: "crypto_ok hex_crypto"
proof -
  have "url_safe (digit_char (unat b div 16))" for b :: byte
    using byte_bound [of b] by (intro digit_char_url_safe) simp
  then show ?thesis
    by (auto simp: crypto_ok_def hex_crypto_def unhex_hex hex_byte_def digit_char_url_safe)
qed

lemma actor_from_key_Inr:
  assumes "actor_from_key k = Inr a"
  shows "k = storage_key a \<and> actor_validate a = Inr ()"
proof -
  from assms obtain rest where rest: "as_str k = ''object.v4.'' @ rest"
    and parts: "length (split_on (CHR '':'') rest) = 3"
    and a: "a = \<lparr>project_id = split_on (CHR '':'') rest ! 0, actor_name = split_on (CHR '':'') rest ! 1,
      actor_id = split_on (CHR '':'') rest ! 2\<rparr>"
    and v: "actor_validate a = Inr ()"
    by (auto simp: actor_from_key_def result_simps Let_def strip_prefix_Some_iff)
  from parts obtain x y z where xyz: "split_on (CHR '':'') rest = [x, y, z]"
    by (auto simp: numeral_3_eq_3 length_Suc_conv)
  then have "rest = x @ '':'' @ y @ '':'' @ z"
    using join_split_on [of "CHR '':''" rest] by simp
  with rest xyz a v show ?thesis by (cases k) (simp add: storage_key_def)
qed

lemma owner_key_facts:
  assumes "crypto_ok C" "owner C k = Inr p"
  shows "\<exists>a. actor_from_key k = Inr a \<and> k = storage_key a \<and>
     p = ROOT @ ''owners/'' @ actor_path C a @ ''.json'' \<and>
     (\<forall>pr. owner_in_project C p pr \<longleftrightarrow> project_id a = pr)"
proof -
  from assms(2) obtain a where a: "actor_from_key k = Inr a"
    and p: "p = ROOT @ ''owners/'' @ actor_path C a @ ''.json''"
    by (auto simp: owner_def result_simps)
  have "strip_prefix (ROOT @ ''owners/'') p = Some (actor_path C a @ ''.json'')"
    by (simp add: strip_prefix_Some_iff p)
  then have "owner_in_project C p pr \<longleftrightarrow> project_id a = pr" for pr
    using assms(1) by (simp add: owner_in_project_def split_actor_path b64_component_inj)
  with a p show ?thesis by (blast dest: actor_from_key_Inr)
qed

lemma owner_path_inj:
  assumes C: "crypto_ok C"
    and eq: "ROOT @ ''owners/'' @ actor_path C a @ ''.json'' = ROOT @ ''owners/'' @ actor_path C b @ ''.json''"
  shows "a = b"
proof -
  from eq have "split_on (CHR ''/'') (actor_path C a) = split_on (CHR ''/'') (actor_path C b)"
    by simp
  then show ?thesis
    using split_actor_path [OF C, of _ "[]"]
    by (simp add: split_on_no_sep b64_component_no_slash [OF C] b64_component_inj [OF C])
qed

section \<open>Correctness of the names\<close>


definition sample_actor :: ActorKey where
  "sample_actor = \<lparr>project_id = ''p1'', actor_name = ''Chat'', actor_id = ''room-7''\<rparr>"

lemma sample_actor_valid [simp]: "actor_validate sample_actor = Inr ()"
  by (simp add: result_simps component_ok_def sample_actor_def component_char_def
      is_ascii_alphanumeric_def)


text \<open>C27. Distinct actors never share an ownership record: the authority key determines
  the actor, and the project filter of the inventory selects it exactly for its project.\<close>

theorem owner_key_identifies_actor:
  assumes "crypto_ok C" and "owner C k1 = Inr p" and "owner C k2 = Inr p"
  shows "k1 = k2 \<and> (\<exists>a. actor_from_key k1 = Inr a \<and>
     (\<forall>pr. owner_in_project C p pr \<longleftrightarrow> project_id a = pr))"
  using owner_key_facts [OF assms(1,2)] owner_key_facts [OF assms(1,3)]
  by (metis owner_path_inj [OF assms(1)])

theorem owner_key_identifies_actor_witness:
  "\<exists>p. owner hex_crypto (storage_key sample_actor) = Inr p \<and> owner_in_project hex_crypto p ''p1'' \<and>
     \<not> owner_in_project hex_crypto p ''p2''"
proof -
  let ?p = "ROOT @ ''owners/'' @ actor_path hex_crypto sample_actor @ ''.json''"
  have p: "owner hex_crypto (storage_key sample_actor) = Inr ?p"
    by (simp add: owner_storage_key)
  have "actor_from_key (storage_key sample_actor) = Inr sample_actor"
    by (simp add: actor_from_key_storage_key)
  with owner_key_identifies_actor [OF crypto_ok_hex p p] p show ?thesis
    by (auto simp: sample_actor_def)
qed

end
