(* ===== verification/State_Snapshots.thy ===== *)
theory State_Snapshots
  imports Storage_Paths
begin

text \<open>
  The durable commit of an actor: a SQLite transaction range as LTX files, wrapped in a
  \<open>StateSnapshot\<close> and written as a DAS2 object (\<open>state_log.rs\<close>,
  \<open>state_log/binary.rs\<close>, \<open>state_log/legacy.rs\<close>, \<open>storage/stream.rs\<close>,
  and the LTX header check of \<open>litestream/storage.rs\<close>). JSON is a third-party codec and
  a parameter; the type variable \<open>'v\<close> stands for its value type.
\<close>

section \<open>LTX files\<close>

record LtxFile =
  ltx_level :: byte
  ltx_first :: u64
  ltx_last :: u64
  ltx_data :: bytes

definition ltx_validate :: "LtxFile \<Rightarrow> unit result" where
  "ltx_validate f =
     ensure (ltx_level f = 0 \<or> ltx_level f = 9) ''invalid LTX level'' (
     ensure (ltx_first f > 0 \<and> ltx_first f \<le> ltx_last f) ''invalid LTX transaction range'' (
     ensure (ltx_level f \<noteq> 9 \<or> ltx_first f = 1) ''invalid LTX snapshot'' (
     ensure (starts_with (str_bytes ''LTX1'') (ltx_data f)) ''malformed LTX file'' (
     Inr ()))))"

section \<open>Snapshots and references to them\<close>

record SnapshotRef =
  sr_object :: string
  sr_state_version :: u64
  sr_request_id :: string
  sr_digest :: string

record SqliteSnapshot =
  txid :: u64
  parent :: "SnapshotRef option"
  files :: "LtxFile list"

record StateAttribution =
  operation :: string
  connection_id :: "string option"
  committed_at_ms :: u64
  interleaved :: bool

record 'v StateSnapshot =
  attribution :: "StateAttribution option"
  state_version :: u64
  owner_epoch :: u64
  request_id :: string
  sqlite :: SqliteSnapshot
  completion :: "'v option"

text \<open>The loop of \<open>SqliteSnapshot::validate\<close>; its result is the \<open>next\<close> counter.\<close>

fun sqlite_chain :: "u64 \<Rightarrow> LtxFile list \<Rightarrow> u64 result" where
  "sqlite_chain nxt [] = Inr nxt"
| "sqlite_chain nxt (f # fs) =
     rbind (ltx_validate f) (\<lambda>_.
     ensure (ltx_first f = nxt) ''SQLite transaction gap'' (
     rbind (context_opt ''SQLite transaction overflow'' (checked_add (ltx_last f) 1)) (\<lambda>n.
     sqlite_chain n fs)))"

definition sqlite_validate :: "SqliteSnapshot \<Rightarrow> u64 \<Rightarrow> unit result" where
  "sqlite_validate s version =
     ensure (txid s > 0) ''SQLite transaction must be positive'' (
     rbind (context_opt ''SQLite commit has no replication files''
              (case files s of [] \<Rightarrow> None | f # _ \<Rightarrow> Some f)) (\<lambda>first.
     ensure ((ltx_first first = 1) = (parent s = None)) ''SQLite dependency mismatch'' (
     ensure (case parent s of None \<Rightarrow> True | Some p \<Rightarrow> sr_state_version p < version)
       ''SQLite dependency must precede its commit'' (
     rbind (sqlite_chain (ltx_first first) (files s)) (\<lambda>nxt.
     ensure (checked_sub nxt 1 = Some (txid s)) ''SQLite transaction mismatch'' (
     Inr ()))))))"

definition snapshot_validate :: "'v StateSnapshot \<Rightarrow> unit result" where
  "snapshot_validate s =
     ensure (state_version s > 0) ''actor state version must be positive'' (
     ensure (owner_epoch s > 0) ''owner epoch must be positive'' (
     ensure (request_id s \<noteq> [] \<and> length (request_id s) \<le> 255) ''actor state request ID is invalid'' (
     sqlite_validate (sqlite s) (state_version s))))"

definition snapshot_new ::
    "u64 \<Rightarrow> u64 \<Rightarrow> string \<Rightarrow> SqliteSnapshot \<Rightarrow> 'v \<Rightarrow> 'v StateSnapshot result" where
  "snapshot_new version epoch request sq result =
     (let s = \<lparr>attribution = None, state_version = version, owner_epoch = epoch,
               request_id = request, sqlite = sq, completion = Some result\<rparr>
      in rbind (snapshot_validate s) (\<lambda>_. Inr s))"

definition validate_object :: "crypto \<Rightarrow> 'v StateSnapshot \<Rightarrow> string \<Rightarrow> unit result" where
  "validate_object C s obj =
     (case parent (sqlite s) of
        None \<Rightarrow> Inr ()
      | Some p \<Rightarrow>
          rbind (actor_from_snapshot C obj) (\<lambda>a.
          rbind (actor_from_snapshot C (sr_object p)) (\<lambda>b.
          ensure (a = b) ''SQLite dependency belongs to another actor'' (Inr ()))))"

section \<open>DAS2: a JSON header, then the raw LTX bytes\<close>

definition MAGIC :: bytes where "MAGIC = str_bytes ''DAS2''"
definition PREFIX :: nat where "PREFIX = length MAGIC + 4"

record FileHeader =
  fh_level :: byte
  fh_first :: u64
  fh_last :: u64
  fh_bytes :: u64

record 't Envelope =
  env_value :: 't
  env_files :: "FileHeader list"

text \<open>\<open>serde_json\<close> at one envelope type: \<open>to_vec\<close> and \<open>from_slice\<close>.\<close>

record 't envelope_json =
  to_vec :: "'t Envelope \<Rightarrow> bytes result"
  from_slice :: "bytes \<Rightarrow> 't Envelope result"

definition envelope_json_ok :: "'t envelope_json \<Rightarrow> bool" where
  "envelope_json_ok J \<longleftrightarrow> (\<forall>e b. to_vec J e = Inr b \<longrightarrow> from_slice J b = Inr e)"

definition file_header :: "LtxFile \<Rightarrow> FileHeader" where
  "file_header f = \<lparr>fh_level = ltx_level f, fh_first = ltx_first f, fh_last = ltx_last f,
     fh_bytes = of_nat (length (ltx_data f))\<rparr>"

definition is_binary :: "bytes \<Rightarrow> bool" where
  "is_binary b \<longleftrightarrow> starts_with MAGIC b"

definition binary_encode :: "'t envelope_json \<Rightarrow> 't \<Rightarrow> LtxFile list \<Rightarrow> bytes result" where
  "binary_encode J v fs =
     rbind (to_vec J \<lparr>env_value = v, env_files = map file_header fs\<rparr>) (\<lambda>header.
     ensure (length header < 2 ^ 32) ''state header too large'' (
     Inr (MAGIC @ u32_to_le_bytes (of_nat (length header)) @ header @ concat (map ltx_data fs))))"

fun decode_files :: "bytes \<Rightarrow> nat \<Rightarrow> FileHeader list \<Rightarrow> (nat \<times> LtxFile list) result" where
  "decode_files payload offset [] = Inr (offset, [])"
| "decode_files payload offset (h # hs) =
     (let end = offset + unat (fh_bytes h) in
      ensure (end < 2 ^ 64 \<and> end \<le> length payload) ''truncated LTX data'' (
      rbind (decode_files payload end hs) (\<lambda>(off, fs).
      Inr (off, \<lparr>ltx_level = fh_level h, ltx_first = fh_first h, ltx_last = fh_last h,
                 ltx_data = take (end - offset) (drop offset payload)\<rparr> # fs))))"

definition binary_decode :: "'t envelope_json \<Rightarrow> bytes \<Rightarrow> ('t \<times> LtxFile list) result" where
  "binary_decode J b =
     ensure (is_binary b \<and> PREFIX \<le> length b) ''not a binary state object'' (
     let len = unat (u32_from_le_bytes (take (PREFIX - length MAGIC) (drop (length MAGIC) b)));
         start = PREFIX + len in
     ensure (start \<le> length b) ''truncated state header'' (
     rbind (from_slice J (take (start - PREFIX) (drop PREFIX b))) (\<lambda>env.
     let payload = drop start b in
     rbind (decode_files payload 0 (env_files env)) (\<lambda>(offset, fs).
     ensure (offset = length payload) ''unexpected bytes after LTX data'' (
     Inr (env_value env, fs))))))"

section \<open>Encoding and decoding a snapshot\<close>

record 'v LegacySnapshot =
  lg_attribution :: "StateAttribution option"
  lg_state_version :: u64
  lg_owner_epoch :: u64
  lg_request_id :: string
  lg_sqlite :: SqliteSnapshot
  lg_result :: 'v

record 'v snapshot_json =
  js_envelope :: "'v StateSnapshot envelope_json"
  js_plain :: "bytes \<Rightarrow> 'v StateSnapshot result"
  js_legacy :: "bytes \<Rightarrow> 'v LegacySnapshot result"

definition legacy_decode :: "'v snapshot_json \<Rightarrow> bytes \<Rightarrow> 'v StateSnapshot result" where
  "legacy_decode J b =
     rbind (js_legacy J b) (\<lambda>l.
     Inr \<lparr>attribution = lg_attribution l, state_version = lg_state_version l,
          owner_epoch = lg_owner_epoch l, request_id = lg_request_id l,
          sqlite = lg_sqlite l, completion = Some (lg_result l)\<rparr>)"

definition with_files :: "LtxFile list \<Rightarrow> 'v StateSnapshot \<Rightarrow> 'v StateSnapshot" where
  "with_files fs s = s\<lparr>sqlite := (sqlite s)\<lparr>files := fs\<rparr>\<rparr>"

definition snapshot_encode :: "'v snapshot_json \<Rightarrow> 'v StateSnapshot \<Rightarrow> bytes result" where
  "snapshot_encode J s =
     rbind (snapshot_validate s) (\<lambda>_.
     binary_encode (js_envelope J) (with_files [] s) (files (sqlite s)))"

definition snapshot_decode :: "'v snapshot_json \<Rightarrow> bytes \<Rightarrow> 'v StateSnapshot result" where
  "snapshot_decode J b =
     rbind (if is_binary b then
              rbind (binary_decode (js_envelope J) b) (\<lambda>(s, fs).
              ensure (files (sqlite s) = []) ''duplicate LTX files'' (Inr (with_files fs s)))
            else (case js_plain J b of Inr s \<Rightarrow> Inr s | Inl _ \<Rightarrow> legacy_decode J b)) (\<lambda>s.
     rbind (with_context ''decode actor SQLite commit'' (snapshot_validate s)) (\<lambda>_. Inr s))"

section \<open>References and streams\<close>

definition checksum :: "crypto \<Rightarrow> bytes \<Rightarrow> string" where
  "checksum C b = b64url_encode C (sha256 C b)"

definition snapshot_ref_new :: "crypto \<Rightarrow> string \<Rightarrow> 'v StateSnapshot \<Rightarrow> bytes \<Rightarrow> SnapshotRef" where
  "snapshot_ref_new C obj s b =
     \<lparr>sr_object = obj, sr_state_version = state_version s, sr_request_id = request_id s,
      sr_digest = checksum C b\<rparr>"

definition ref_verify :: "crypto \<Rightarrow> SnapshotRef \<Rightarrow> bytes \<Rightarrow> unit result" where
  "ref_verify C r b = ensure (checksum C b = sr_digest r) ''snapshot checksum mismatch'' (Inr ())"

record StateStream =
  ss_session :: string
  ss_prefix :: string
  ss_owner_epoch :: u64
  ss_base_version :: u64

definition stream_object :: "StateStream \<Rightarrow> u64 \<Rightarrow> string" where
  "stream_object st v = ss_prefix st @ show_u64 v @ ''.json''"

definition stream_snapshot ::
    "crypto \<Rightarrow> 'v snapshot_json \<Rightarrow> StateStream \<Rightarrow> bytes \<Rightarrow> SnapshotRef result" where
  "stream_snapshot C J st b =
     rbind (snapshot_decode J b) (\<lambda>s.
     rbind (validate_object C s (stream_object st (state_version s))) (\<lambda>_.
     ensure (owner_epoch s = ss_owner_epoch st \<and> state_version s > ss_base_version st)
       ''snapshot belongs to another stream'' (
     Inr (snapshot_ref_new C (stream_object st (state_version s)) s b))))"

record WritePlan =
  wp_stream :: StateStream
  wp_state_version :: u64
  wp_object_name :: string

section \<open>A valid commit covers its transactions exactly once\<close>

definition ltx_txids :: "LtxFile \<Rightarrow> nat list" where
  "ltx_txids f = [unat (ltx_first f) ..< Suc (unat (ltx_last f))]"

lemma ltx_validate_Inr_iff [result_simps]:
  "ltx_validate f = Inr u \<longleftrightarrow>
     (ltx_level f = 0 \<or> ltx_level f = 9) \<and> ltx_first f > 0 \<and> ltx_first f \<le> ltx_last f \<and>
     (ltx_level f \<noteq> 9 \<or> ltx_first f = 1) \<and> starts_with (str_bytes ''LTX1'') (ltx_data f)"
  by (auto simp: ltx_validate_def result_simps)

lemma sqlite_chain_covers:
  "sqlite_chain n fs = Inr m \<Longrightarrow>
     unat n \<le> unat m \<and> concat (map ltx_txids fs) = [unat n ..< unat m]"
proof (induction fs arbitrary: n)
  case Nil
  then show ?case by simp
next
  case (Cons f fs)
  from Cons.prems obtain k where v: "ltx_validate f = Inr ()" and n: "ltx_first f = n"
    and k: "unat k = unat (ltx_last f) + 1" and rest: "sqlite_chain k fs = Inr m"
    by (auto simp: result_simps checked_add_Some_iff)
  from v n have le: "unat n \<le> unat (ltx_last f)"
    by (auto simp: result_simps word_le_nat_alt)
  from Cons.IH [OF rest] k have km: "unat (ltx_last f) + 1 \<le> unat m"
    and cov: "concat (map ltx_txids fs) = [unat (ltx_last f) + 1 ..< unat m]" by auto
  have "[unat n ..< unat m] = [unat n ..< unat (ltx_last f) + 1] @ [unat (ltx_last f) + 1 ..< unat m]"
    using le km by (metis le_trans le_add1 le_add_diff_inverse upt_add_eq_append)
  moreover have "ltx_txids f = [unat n ..< unat (ltx_last f) + 1]" by (simp add: ltx_txids_def n)
  ultimately show ?case using cov km le by simp
qed

lemma sqlite_validate_Inr_D:
  assumes "sqlite_validate s v = Inr u"
  obtains f fs nxt where "files s = f # fs" "txid s > 0" "(ltx_first f = 1) = (parent s = None)"
    "\<And>p. parent s = Some p \<Longrightarrow> sr_state_version p < v"
    "sqlite_chain (ltx_first f) (f # fs) = Inr nxt" "unat nxt = unat (txid s) + 1"
  using assms
  by (auto simp: sqlite_validate_def result_simps checked_sub_Some_iff
      split: list.splits option.splits)

lemma sqlite_validate_covers:
  assumes "sqlite_validate s v = Inr u"
  shows "files s \<noteq> [] \<and>
     concat (map ltx_txids (files s)) = [unat (ltx_first (hd (files s))) ..< Suc (unat (txid s))]"
  using assms
proof (rule sqlite_validate_Inr_D)
  fix f fs nxt
  assume *: "files s = f # fs" "sqlite_chain (ltx_first f) (f # fs) = Inr nxt"
    "unat nxt = unat (txid s) + 1"
  from sqlite_chain_covers [OF *(2)] *(1,3) show ?thesis by simp
qed

section \<open>The binary format\<close>

abbreviation files_bytes :: "LtxFile list \<Rightarrow> nat" where
  "files_bytes fs \<equiv> length (concat (map ltx_data fs))"

lemma length_MAGIC [simp]: "length MAGIC = 4"
  by (simp add: MAGIC_def str_bytes_def)

lemma PREFIX_eq [simp]: "PREFIX = 8"
  by (simp add: PREFIX_def)

lemma file_header_sel [simp]:
  "fh_level (file_header f) = ltx_level f" "fh_first (file_header f) = ltx_first f"
  "fh_last (file_header f) = ltx_last f" "fh_bytes (file_header f) = of_nat (length (ltx_data f))"
  by (simp_all add: file_header_def)

lemma decode_files_encoded:
  assumes "length pre + files_bytes fs < 2 ^ 64"
  shows "decode_files (pre @ concat (map ltx_data fs) @ post) (length pre) (map file_header fs) =
     Inr (length pre + files_bytes fs, fs)"
  using assms
proof (induction fs arbitrary: pre)
  case Nil
  then show ?case by simp
next
  case (Cons f fs)
  from Cons.prems have len: "unat (fh_bytes (file_header f)) = length (ltx_data f)"
    by (simp add: unat_of_nat_u64)
  from Cons.IH [of "pre @ ltx_data f"] Cons.prems
  have "decode_files (pre @ ltx_data f @ concat (map ltx_data fs) @ post) (length pre + length (ltx_data f))
      (map file_header fs) = Inr (length pre + length (ltx_data f) + files_bytes fs, fs)"
    by simp
  with Cons.prems len show ?case by (simp add: add.assoc)
qed

lemma decode_files_offset:
  "decode_files payload off hs = Inr (off', fs) \<Longrightarrow>
     off' = off + sum_list (map (\<lambda>h. unat (fh_bytes h)) hs)"
proof (induction hs arbitrary: off fs)
  case Nil
  then show ?case by simp
next
  case (Cons h hs)
  then show ?case by (fastforce simp: Let_def result_simps)
qed

lemma binary_encode_Inr:
  assumes "binary_encode J v fs = Inr b"
  obtains header where "to_vec J \<lparr>env_value = v, env_files = map file_header fs\<rparr> = Inr header"
    "length header < 2 ^ 32"
    "b = MAGIC @ u32_to_le_bytes (of_nat (length header)) @ header @ concat (map ltx_data fs)"
  using assms by (auto simp: binary_encode_def result_simps)

lemma is_binary_encoded: "binary_encode J v fs = Inr b \<Longrightarrow> is_binary b"
  by (erule binary_encode_Inr) (simp add: is_binary_def starts_with_def)

text \<open>Decoding any byte string that starts with an encoder's header.\<close>

lemma binary_decode_header:
  assumes J: "envelope_json_ok J"
    and h: "to_vec J \<lparr>env_value = v, env_files = map file_header fs\<rparr> = Inr header" "length header < 2 ^ 32"
  shows "binary_decode J (MAGIC @ u32_to_le_bytes (of_nat (length header)) @ header @ payload) =
     rbind (decode_files payload 0 (map file_header fs)) (\<lambda>(off, fs').
     ensure (off = length payload) ''unexpected bytes after LTX data'' (Inr (v, fs')))"
proof -
  have "from_slice J header = Inr \<lparr>env_value = v, env_files = map file_header fs\<rparr>"
    using J h(1) by (simp add: envelope_json_ok_def)
  moreover have "unat (of_nat (length header) :: u32) = length header"
    using h(2) by (rule unat_of_nat_u32)
  ultimately show ?thesis
    by (simp add: binary_decode_def is_binary_def starts_with_def Let_def)
qed

lemma binary_roundtrip:
  assumes "envelope_json_ok J" "binary_encode J v fs = Inr b" "length b < 2 ^ 64"
  shows "binary_decode J b = Inr (v, fs)"
  using assms(2)
proof (rule binary_encode_Inr)
  fix header
  assume h: "to_vec J \<lparr>env_value = v, env_files = map file_header fs\<rparr> = Inr header" "length header < 2 ^ 32"
    and b: "b = MAGIC @ u32_to_le_bytes (of_nat (length header)) @ header @ concat (map ltx_data fs)"
  have "decode_files (concat (map ltx_data fs)) 0 (map file_header fs) = Inr (files_bytes fs, fs)"
    using decode_files_encoded [of "[]" fs "[]"] assms(3) b by simp
  then show ?thesis
    unfolding b binary_decode_header [OF assms(1) h] by simp
qed

lemma sum_file_headers:
  assumes "files_bytes fs < 2 ^ 64"
  shows "sum_list (map (\<lambda>h. unat (fh_bytes h)) (map file_header fs)) = files_bytes fs"
  using assms
  by (induction fs) (simp_all add: file_header_def unat_of_nat_u64)

lemma binary_decode_other_payload:
  assumes J: "envelope_json_ok J"
    and h: "to_vec J \<lparr>env_value = v, env_files = map file_header fs\<rparr> = Inr header" "length header < 2 ^ 32"
    and len: "files_bytes fs < 2 ^ 64" "length payload \<noteq> files_bytes fs"
  shows "\<not> is_ok (binary_decode J (MAGIC @ u32_to_le_bytes (of_nat (length header)) @ header @ payload))"
proof
  assume "is_ok (binary_decode J (MAGIC @ u32_to_le_bytes (of_nat (length header)) @ header @ payload))"
  then obtain off fs' where "decode_files payload 0 (map file_header fs) = Inr (off, fs')" "off = length payload"
    unfolding binary_decode_header [OF J h] by (auto simp: result_simps)
  with decode_files_offset [of payload 0 "map file_header fs"] sum_file_headers [OF len(1)] len(2)
  show False by simp
qed

lemma binary_decode_truncated:
  assumes J: "envelope_json_ok J" and b: "binary_encode J v fs = Inr b" "length b < 2 ^ 64" and k: "k < length b"
  shows "\<not> is_ok (binary_decode J (take k b))"
  using b(1)
proof (rule binary_encode_Inr)
  fix header
  assume h: "to_vec J \<lparr>env_value = v, env_files = map file_header fs\<rparr> = Inr header" "length header < 2 ^ 32"
    and beq: "b = MAGIC @ u32_to_le_bytes (of_nat (length header)) @ header @ concat (map ltx_data fs)"
  have hl: "unat (of_nat (length header) :: u32) = length header"
    using h(2) by (rule unat_of_nat_u32)
  consider "k < 8" | "8 \<le> k" "k < 8 + length header" | "8 + length header \<le> k" by linarith
  then show ?thesis
  proof cases
    case 1
    then show ?thesis by (simp add: binary_decode_def ensure_def)
  next
    case 2
    have "take 4 (drop 4 (take k b)) = u32_to_le_bytes (of_nat (length header))"
      using 2 by (simp add: beq take_drop)
    then show ?thesis
      using 2 k hl by (simp add: binary_decode_def ensure_def Let_def)
  next
    case 3
    let ?p = "take (k - 8 - length header) (concat (map ltx_data fs))"
    have "take k b = MAGIC @ u32_to_le_bytes (of_nat (length header)) @ header @ ?p"
      using 3 by (simp add: beq)
    moreover have "length ?p \<noteq> files_bytes fs"
      using k 3 by (simp add: beq)
    moreover have "files_bytes fs < 2 ^ 64" using b(2) by (simp add: beq)
    ultimately show ?thesis
      using binary_decode_other_payload [OF J h, of ?p] by (simp only: simp_thms)
  qed
qed

lemma binary_decode_padded:
  assumes J: "envelope_json_ok J" and b: "binary_encode J v fs = Inr b" "length b < 2 ^ 64" and r: "r \<noteq> []"
  shows "\<not> is_ok (binary_decode J (b @ r))"
  using b(1)
proof (rule binary_encode_Inr)
  fix header
  assume h: "to_vec J \<lparr>env_value = v, env_files = map file_header fs\<rparr> = Inr header" "length header < 2 ^ 32"
    and beq: "b = MAGIC @ u32_to_le_bytes (of_nat (length header)) @ header @ concat (map ltx_data fs)"
  then show ?thesis
    using binary_decode_other_payload [OF J h, of "concat (map ltx_data fs) @ r"] b(2) r by simp
qed

section \<open>Snapshot encoding\<close>

lemma with_files_inverse [simp]: "with_files (files (sqlite s)) (with_files [] s) = s"
  by (simp add: with_files_def)

lemma files_with_files [simp]: "files (sqlite (with_files fs s)) = fs"
  by (simp add: with_files_def)

lemma snapshot_decode_validated: "snapshot_decode J b = Inr s \<Longrightarrow> snapshot_validate s = Inr ()"
  by (auto simp: snapshot_decode_def result_simps)

lemma snapshot_validate_Inr_D:
  assumes "snapshot_validate s = Inr u"
  shows "state_version s > 0" "owner_epoch s > 0" "request_id s \<noteq> []"
    "sqlite_validate (sqlite s) (state_version s) = Inr ()"
  using assms by (auto simp: snapshot_validate_def result_simps)

lemma snapshot_decode_encode:
  assumes J: "envelope_json_ok (js_envelope J)" and e: "snapshot_encode J s = Inr b" and len: "length b < 2 ^ 64"
  shows "snapshot_decode J b = Inr s"
proof -
  from e have v: "snapshot_validate s = Inr ()"
    and b: "binary_encode (js_envelope J) (with_files [] s) (files (sqlite s)) = Inr b"
    by (auto simp: snapshot_encode_def result_simps)
  from binary_roundtrip [OF J b len] is_binary_encoded [OF b] v show ?thesis
    by (simp add: snapshot_decode_def)
qed

lemma snapshot_decode_not_ok:
  assumes "is_binary c" "\<not> is_ok (binary_decode (js_envelope J) c)"
  shows "\<not> is_ok (snapshot_decode J c)"
  using assms by (auto simp: snapshot_decode_def result_simps)

lemma is_binary_take: "is_binary b \<Longrightarrow> 4 \<le> k \<Longrightarrow> is_binary (take k b)"
  by (simp add: is_binary_def starts_with_def min_def)

lemma is_binary_append: "is_binary b \<Longrightarrow> is_binary (b @ r)"
  by (auto simp: is_binary_def starts_with_iff)

section \<open>Correctness of the state format\<close>



text \<open>C24. A commit that decodes is well formed: its LTX files list every transaction from the
  first one of the commit to its \<open>txid\<close> exactly once and in order; it starts at transaction
  1 exactly when it depends on no earlier commit, and a commit it depends on has a smaller
  state version.\<close>

theorem decoded_commit_covers_transactions:
  assumes "snapshot_decode J b = Inr s"
  shows "files (sqlite s) \<noteq> [] \<and>
     concat (map ltx_txids (files (sqlite s))) =
       [unat (ltx_first (hd (files (sqlite s)))) ..< Suc (unat (txid (sqlite s)))] \<and>
     (ltx_first (hd (files (sqlite s))) = 1) = (parent (sqlite s) = None) \<and>
     (case parent (sqlite s) of None \<Rightarrow> True | Some p \<Rightarrow> sr_state_version p < state_version s)"
proof -
  have v: "sqlite_validate (sqlite s) (state_version s) = Inr ()"
    using snapshot_decode_validated [OF assms] by (rule snapshot_validate_Inr_D)
  from v show ?thesis
    using sqlite_validate_covers [OF v] by (auto elim!: sqlite_validate_Inr_D split: option.splits)
qed

section \<open>A concrete commit\<close>

definition sample_ltx :: LtxFile where
  "sample_ltx = \<lparr>ltx_level = 9, ltx_first = 1, ltx_last = 2, ltx_data = str_bytes ''LTX1 pages''\<rparr>"

definition sample_snapshot :: "string StateSnapshot" where
  "sample_snapshot = \<lparr>attribution = Some \<lparr>operation = ''run'', connection_id = None, committed_at_ms = 5, interleaved = False\<rparr>,
     state_version = 1, owner_epoch = 1, request_id = ''r1'',
     sqlite = \<lparr>txid = 2, parent = None, files = [sample_ltx]\<rparr>, completion = Some ''null''\<rparr>"

text \<open>A JSON library restricted to the one header the sample needs.\<close>

definition sample_json :: "string snapshot_json" where
  "sample_json =
     (let env = \<lparr>env_value = with_files [] sample_snapshot, env_files = [file_header sample_ltx]\<rparr>
      in \<lparr>js_envelope = \<lparr>to_vec = (\<lambda>e. if e = env then Inr (str_bytes ''{}'') else Inl ''unsupported''),
                         from_slice = (\<lambda>b. if b = str_bytes ''{}'' then Inr env else Inl ''malformed'')\<rparr>,
          js_plain = (\<lambda>_. Inl ''malformed''), js_legacy = (\<lambda>_. Inl ''malformed'')\<rparr>)"

definition sample_bytes :: bytes where
  "sample_bytes = str_bytes ''DAS2'' @ [2, 0, 0, 0] @ str_bytes ''{}'' @ str_bytes ''LTX1 pages''"

lemma sample_json_ok: "envelope_json_ok (js_envelope sample_json)"
  by (auto simp: envelope_json_ok_def sample_json_def Let_def split: if_splits)

lemma sample_ltx_valid: "ltx_validate sample_ltx = Inr ()"
  by (simp add: ltx_validate_def sample_ltx_def starts_with_def str_bytes_def)

lemma sample_snapshot_valid: "snapshot_validate sample_snapshot = Inr ()"
proof -
  have "checked_add (ltx_last sample_ltx) 1 = Some 3" "checked_sub 3 1 = Some 2"
    by (simp_all add: checked_add_def checked_sub_def sample_ltx_def)
  moreover have "ltx_first sample_ltx = 1" by (simp add: sample_ltx_def)
  ultimately show ?thesis
    by (simp add: snapshot_validate_def sqlite_validate_def sample_snapshot_def sample_ltx_valid)
qed

lemma sample_header_length: "u32_to_le_bytes (of_nat (length (str_bytes ''{}''))) = [2, 0, 0, 0]"
proof -
  have "unat (of_nat (length (str_bytes ''{}'')) :: u32) = 2" by (simp add: str_bytes_def)
  moreover have "(4 :: nat) = Suc (Suc (Suc (Suc 0)))" by simp
  moreover have "le_enc (Suc (Suc (Suc (Suc 0)))) 2 = [2, 0, 0, 0]" by simp
  ultimately show ?thesis by (simp only: u32_to_le_bytes_def)
qed

lemma sample_to_vec:
  "to_vec (js_envelope sample_json)
     \<lparr>env_value = with_files [] sample_snapshot, env_files = map file_header [sample_ltx]\<rparr> =
   Inr (str_bytes ''{}'')"
  by (simp add: sample_json_def Let_def)

lemma sample_encode: "snapshot_encode sample_json sample_snapshot = Inr sample_bytes"
proof -
  have files: "files (sqlite sample_snapshot) = [sample_ltx]" by (simp add: sample_snapshot_def)
  have "length (str_bytes ''{}'') < 2 ^ 32" by (simp add: str_bytes_def)
  then have "binary_encode (js_envelope sample_json) (with_files [] sample_snapshot) [sample_ltx] =
      Inr (MAGIC @ [2, 0, 0, 0] @ str_bytes ''{}'' @ ltx_data sample_ltx)"
    by (simp only: binary_encode_def sample_to_vec sample_header_length rbind_simps ensure_simps)
       simp
  also have "\<dots> = Inr sample_bytes" by (simp add: MAGIC_def sample_bytes_def sample_ltx_def)
  finally show ?thesis by (simp add: snapshot_encode_def sample_snapshot_valid files)
qed

lemma sample_bytes_length: "length sample_bytes < 2 ^ 64"
  by (simp add: sample_bytes_def str_bytes_def)



theorem decoded_commit_covers_transactions_witness:
  "concat (map ltx_txids (files (sqlite sample_snapshot))) = [1, 2]"
  using decoded_commit_covers_transactions
    [OF snapshot_decode_encode [OF sample_json_ok sample_encode sample_bytes_length]]
  by (simp add: sample_snapshot_def sample_ltx_def upt_rec)

end
