(* ===== verification/Payload.thy ===== *)
theory Payload
  imports Storage_Paths
begin

text \<open>
  Buffers for large objects (\<open>payload.rs\<close>): the \<open>Spool\<close> that collects bytes in memory
  and moves them to a temporary file past 64 KiB, the \<open>Upload\<close> source that streams an
  object in pieces of at most 256 KiB, and the \<open>Download\<close> sink that gathers a streamed
  object. The temporary file is its contents; the disk is assumed not to fail. Lengths are
  machine integers, and a byte slice is shorter than \<open>2 ^ 63\<close> bytes, as Rust guarantees.
\<close>

section \<open>The spool\<close>

definition BUFFER_BYTES :: nat where "BUFFER_BYTES = 64 * 1024"
definition IO_BUFFER_BYTES :: nat where "IO_BUFFER_BYTES = 256 * 1024"
definition MAX_FILE_BYTES :: u64 where "MAX_FILE_BYTES = 2 * 1024 * 1024 * 1024"

record Spool =
  sp_memory :: bytes
  sp_file :: "bytes option"
  sp_length :: u64

definition spool_new :: Spool where
  "spool_new = \<lparr>sp_memory = [], sp_file = None, sp_length = 0\<rparr>"

definition spool_finish :: "Spool \<Rightarrow> bytes result" where
  "spool_finish sp = (case sp_file sp of None \<Rightarrow> Inr (sp_memory sp) | Some f \<Rightarrow> Inr f)"

definition spool_write :: "bytes \<Rightarrow> Spool \<Rightarrow> nat result \<times> Spool" where
  "spool_write bs sp =
     (case Option.bind (checked_add (sp_length sp) (of_nat (length bs)))
             (\<lambda>n. if n \<le> MAX_FILE_BYTES then Some n else None) of
        None \<Rightarrow> (Inl ''temporary storage object exceeds 2 GiB'', sp)
      | Some len \<Rightarrow>
          (let sp = (if sp_file sp = None \<and> BUFFER_BYTES < unat len
                     then sp\<lparr>sp_memory := [], sp_file := Some (sp_memory sp)\<rparr> else sp);
               sp = (case sp_file sp of
                       Some f \<Rightarrow> sp\<lparr>sp_file := Some (f @ bs)\<rparr>
                     | None \<Rightarrow> sp\<lparr>sp_memory := sp_memory sp @ bs\<rparr>)
           in (Inr (length bs), sp\<lparr>sp_length := len\<rparr>)))"

text \<open>\<open>Write::write_all\<close>: the spool takes a whole slice at once, and the standard loop
  makes no call for an empty one.\<close>

definition spool_write_all :: "bytes \<Rightarrow> Spool \<Rightarrow> unit result \<times> Spool" where
  "spool_write_all bs sp =
     (if bs = [] then (Inr (), sp)
      else case spool_write bs sp of (Inl e, sp') \<Rightarrow> (Inl e, sp') | (Inr _, sp') \<Rightarrow> (Inr (), sp'))"

text \<open>\<open>encode\<close> and \<open>copy\<close>: the serializer and \<open>io::copy\<close> hand the spool the pieces
  of the object one after the other and stop at the first failure.\<close>

fun spool_pieces :: "bytes list \<Rightarrow> Spool \<Rightarrow> Spool result" where
  "spool_pieces [] sp = Inr sp"
| "spool_pieces (c # cs) sp =
     (case spool_write_all c sp of (Inl e, _) \<Rightarrow> Inl e | (Inr _, sp') \<Rightarrow> spool_pieces cs sp')"

definition payload_copy :: "bytes list \<Rightarrow> bytes result" where
  "payload_copy pieces = rbind (spool_pieces pieces spool_new) spool_finish"

section \<open>Streaming out\<close>

record Upload =
  up_bytes :: bytes
  up_offset :: nat

definition upload_new :: "bytes \<Rightarrow> Upload" where
  "upload_new bs = \<lparr>up_bytes = bs, up_offset = 0\<rparr>"

definition upload_next :: "Upload \<Rightarrow> bytes option result \<times> Upload" where
  "upload_next u =
     (if up_offset u = length (up_bytes u) then (Inr None, u)
      else
        let end = min (length (up_bytes u)) (up_offset u + IO_BUFFER_BYTES) in
        if end < up_offset u then (Inl ''panic: range start must not be greater than end'', u)
        else (Inr (Some (take (end - up_offset u) (drop (up_offset u) (up_bytes u)))),
              u\<lparr>up_offset := end\<rparr>))"

definition upload_seek :: "u64 \<Rightarrow> Upload \<Rightarrow> unit result \<times> Upload" where
  "upload_seek offset u =
     (let u = u\<lparr>up_offset := unat offset\<rparr> in
      if length (up_bytes u) < up_offset u then (Inl ''upload seek exceeds object'', u)
      else (Inr (), u))"

definition upload_size_hint :: "Upload \<Rightarrow> nat" where
  "upload_size_hint u = length (up_bytes u)"

section \<open>Streaming in\<close>

record Download =
  dl_spool :: Spool
  dl_buffer :: bytes

definition download_new :: Download where
  "download_new = \<lparr>dl_spool = spool_new, dl_buffer = []\<rparr>"

definition download_flush :: "Download \<Rightarrow> Download result" where
  "download_flush d =
     (case spool_write_all (dl_buffer d) (dl_spool d) of
        (Inl e, _) \<Rightarrow> Inl e
      | (Inr _, sp) \<Rightarrow> Inr \<lparr>dl_spool = sp, dl_buffer = []\<rparr>)"

text \<open>The loop of \<open>append\<close>; the subtraction panics when the buffer is over-full.\<close>

function download_append :: "bytes \<Rightarrow> Download \<Rightarrow> Download result" where
  "download_append remaining d =
     (if remaining = [] then Inr d
      else if IO_BUFFER_BYTES < length (dl_buffer d) then Inl ''panic: subtract with overflow''
      else
        let len = min (length remaining) (IO_BUFFER_BYTES - length (dl_buffer d));
            d' = d\<lparr>dl_buffer := dl_buffer d @ take len remaining\<rparr>
        in if length (dl_buffer d') = IO_BUFFER_BYTES
           then (case download_flush d' of
                   Inl e \<Rightarrow> Inl e
                 | Inr d'' \<Rightarrow> download_append (drop len remaining) d'')
           else download_append (drop len remaining) d')"
  by pat_completeness auto

lemma download_flush_buffer: "download_flush d = Inr d' \<Longrightarrow> dl_buffer d' = []"
  by (auto simp: download_flush_def split: prod.splits sum.splits)

lemma IO_BUFFER_BYTES_pos: "0 < IO_BUFFER_BYTES"
  by (simp add: IO_BUFFER_BYTES_def)

termination download_append
proof (relation "measures [\<lambda>(r, d). length r, \<lambda>(r, d). length (dl_buffer d)]", goal_cases)
  case 1
  then show ?case by simp
next
  case (2 remaining d len d' d'')
  then show ?case
    using IO_BUFFER_BYTES_pos
    by (cases "length (dl_buffer d) = IO_BUFFER_BYTES") (auto simp: download_flush_buffer)
next
  case (3 remaining d len d')
  then show ?case
    by (cases "length (dl_buffer d) = IO_BUFFER_BYTES") auto
qed

declare download_append.simps [simp del]

definition download_finish :: "Download \<Rightarrow> bytes result" where
  "download_finish d = rbind (download_flush d) (\<lambda>d. spool_finish (dl_spool d))"

section \<open>The bytes a spool holds\<close>

definition spool_bytes :: "Spool \<Rightarrow> bytes" where
  "spool_bytes sp = (case sp_file sp of None \<Rightarrow> sp_memory sp | Some f \<Rightarrow> f)"

text \<open>The length field counts the bytes, the limit holds, and a temporary file exists exactly
  when the bytes do not fit the buffer; nothing stays in memory then.\<close>

definition spool_inv :: "Spool \<Rightarrow> bool" where
  "spool_inv sp \<longleftrightarrow> unat (sp_length sp) = length (spool_bytes sp) \<and> sp_length sp \<le> MAX_FILE_BYTES \<and>
     (sp_file sp \<noteq> None \<longleftrightarrow> BUFFER_BYTES < length (spool_bytes sp)) \<and>
     (sp_file sp \<noteq> None \<longrightarrow> sp_memory sp = [])"

lemma spool_new_inv [simp]: "spool_inv spool_new" "spool_bytes spool_new = []"
  by (simp_all add: spool_inv_def spool_new_def spool_bytes_def)

lemma spool_finish_bytes [simp]: "spool_finish sp = Inr (spool_bytes sp)"
  by (simp add: spool_finish_def spool_bytes_def split: option.splits)

definition fits :: "bytes \<Rightarrow> bool" where
  "fits bs \<longleftrightarrow> length bs \<le> unat MAX_FILE_BYTES"

lemma spool_write_ok:
  assumes "spool_inv sp" "length bs < 2 ^ 63" "fits (spool_bytes sp @ bs)"
  obtains sp' where "spool_write bs sp = (Inr (length bs), sp')" "spool_inv sp'"
    "spool_bytes sp' = spool_bytes sp @ bs"
proof -
  have m: "unat MAX_FILE_BYTES < 2 ^ 63" by (simp add: MAX_FILE_BYTES_def)
  have l: "unat (of_nat (length bs) :: u64) = length bs"
    using assms(2) by (simp add: unat_of_nat_u64)
  from assms m have "unat (sp_length sp) + length bs < 2 ^ 64"
    by (simp add: spool_inv_def fits_def)
  then obtain n where n: "checked_add (sp_length sp) (of_nat (length bs)) = Some n"
    by (simp add: checked_add_def l)
  then have n': "unat n = length (spool_bytes sp) + length bs"
    using assms(1) by (simp add: checked_add_Some_iff l spool_inv_def)
  with assms(3) have "n \<le> MAX_FILE_BYTES" by (simp add: fits_def word_le_nat_alt)
  then show thesis
    using assms(1) n n' that
    by (cases "sp_file sp"; cases "BUFFER_BYTES < unat n")
       (auto simp: spool_write_def spool_inv_def spool_bytes_def Let_def)
qed

lemma spool_write_full:
  assumes "spool_inv sp" "length bs < 2 ^ 63" "\<not> fits (spool_bytes sp @ bs)"
  shows "spool_write bs sp = (Inl ''temporary storage object exceeds 2 GiB'', sp)"
proof -
  have l: "unat (of_nat (length bs) :: u64) = length bs"
    using assms(2) by (simp add: unat_of_nat_u64)
  have "\<not> n \<le> MAX_FILE_BYTES" if "checked_add (sp_length sp) (of_nat (length bs)) = Some n" for n
    using that assms by (simp add: checked_add_Some_iff l spool_inv_def fits_def word_le_nat_alt)
  then show ?thesis
    by (cases "checked_add (sp_length sp) (of_nat (length bs))") (auto simp: spool_write_def)
qed

lemma spool_inv_fits: "spool_inv sp \<Longrightarrow> fits (spool_bytes sp)"
  by (simp add: spool_inv_def fits_def word_le_nat_alt)

lemma spool_write_all_ok:
  assumes "spool_inv sp" "length bs < 2 ^ 63" "fits (spool_bytes sp @ bs)"
  obtains sp' where "spool_write_all bs sp = (Inr (), sp')" "spool_inv sp'"
    "spool_bytes sp' = spool_bytes sp @ bs"
proof (cases "bs = []")
  case True
  then show thesis using assms(1) that [of sp] by (simp add: spool_write_all_def)
next
  case False
  obtain sp' where "spool_write bs sp = (Inr (length bs), sp')" "spool_inv sp'"
    "spool_bytes sp' = spool_bytes sp @ bs"
    using spool_write_ok [OF assms] .
  then show thesis using False that [of sp'] by (simp add: spool_write_all_def)
qed

lemma spool_write_all_full:
  assumes "spool_inv sp" "length bs < 2 ^ 63" "\<not> fits (spool_bytes sp @ bs)"
  shows "spool_write_all bs sp = (Inl ''temporary storage object exceeds 2 GiB'', sp)"
proof -
  have "bs \<noteq> []" using spool_inv_fits [OF assms(1)] assms(3) by (intro notI) simp
  with spool_write_full [OF assms] show ?thesis by (simp add: spool_write_all_def)
qed

lemma fits_mono: "fits (xs @ ys) \<Longrightarrow> fits xs"
  by (simp add: fits_def)

lemma spool_pieces_result:
  "spool_inv sp \<Longrightarrow> \<forall>c \<in> set cs. length c < 2 ^ 63 \<Longrightarrow>
   (if fits (spool_bytes sp @ concat cs)
    then \<exists>sp'. spool_pieces cs sp = Inr sp' \<and> spool_inv sp' \<and> spool_bytes sp' = spool_bytes sp @ concat cs
    else spool_pieces cs sp = Inl ''temporary storage object exceeds 2 GiB'')"
proof (induction cs arbitrary: sp)
  case Nil
  then show ?case by (simp add: spool_inv_fits)
next
  case (Cons c cs)
  then have c: "length c < 2 ^ 63" by simp
  show ?case
  proof (cases "fits (spool_bytes sp @ c)")
    case True
    obtain sp' where "spool_write_all c sp = (Inr (), sp')" "spool_inv sp'"
      "spool_bytes sp' = spool_bytes sp @ c"
      using spool_write_all_ok [OF Cons.prems(1) c True] .
    with Cons.IH [of sp'] Cons.prems(2) show ?thesis
      by (cases "fits (spool_bytes sp @ concat (c # cs))") auto
  next
    case False
    then have "\<not> fits (spool_bytes sp @ concat (c # cs))"
      using fits_mono [of "spool_bytes sp @ c" "concat cs"] by auto
    with spool_write_all_full [OF Cons.prems(1) c False] show ?thesis by simp
  qed
qed

lemma payload_copy_result:
  assumes "\<forall>c \<in> set cs. length c < 2 ^ 63"
  shows "payload_copy cs =
    (if fits (concat cs) then Inr (concat cs) else Inl ''temporary storage object exceeds 2 GiB'')"
  using spool_pieces_result [of spool_new cs] assms
  by (auto simp: payload_copy_def split: if_splits)

section \<open>Downloads\<close>

definition dl_bytes :: "Download \<Rightarrow> bytes" where
  "dl_bytes d = spool_bytes (dl_spool d) @ dl_buffer d"

definition dl_inv :: "Download \<Rightarrow> bool" where
  "dl_inv d \<longleftrightarrow> spool_inv (dl_spool d) \<and> length (dl_buffer d) < IO_BUFFER_BYTES"

lemma download_new_inv [simp]: "dl_inv download_new" "dl_bytes download_new = []"
  by (simp_all add: dl_inv_def download_new_def dl_bytes_def IO_BUFFER_BYTES_pos)

lemma download_flush_result:
  assumes "spool_inv (dl_spool d)" "length (dl_buffer d) \<le> IO_BUFFER_BYTES"
  shows "if fits (dl_bytes d)
         then \<exists>d'. download_flush d = Inr d' \<and> dl_inv d' \<and> dl_bytes d' = dl_bytes d \<and> dl_buffer d' = []
         else download_flush d = Inl ''temporary storage object exceeds 2 GiB''"
proof -
  have len: "length (dl_buffer d) < 2 ^ 63"
    using assms(2) by (simp add: IO_BUFFER_BYTES_def)
  show ?thesis
  proof (cases "fits (dl_bytes d)")
    case True
    then obtain sp where "spool_write_all (dl_buffer d) (dl_spool d) = (Inr (), sp)" "spool_inv sp"
      "spool_bytes sp = spool_bytes (dl_spool d) @ dl_buffer d"
      using spool_write_all_ok [OF assms(1) len] by (metis dl_bytes_def)
    with True show ?thesis
      by (simp add: download_flush_def dl_inv_def dl_bytes_def IO_BUFFER_BYTES_pos)
  next
    case False
    with spool_write_all_full [OF assms(1) len] show ?thesis
      by (simp add: download_flush_def dl_bytes_def)
  qed
qed

text \<open>Appending either keeps every byte in order or stops because the limit is exceeded.\<close>

definition collects :: "bytes \<Rightarrow> Download result \<Rightarrow> bool" where
  "collects bs r \<longleftrightarrow>
     (case r of Inr d \<Rightarrow> dl_inv d \<and> dl_bytes d = bs
      | Inl e \<Rightarrow> e = ''temporary storage object exceeds 2 GiB'' \<and> \<not> fits bs)"

lemma download_append_collects:
  "dl_inv d \<or> (spool_inv (dl_spool d) \<and> length (dl_buffer d) = IO_BUFFER_BYTES \<and> remaining \<noteq> []) \<Longrightarrow>
   collects (dl_bytes d @ remaining) (download_append remaining d)"
proof (induction remaining d rule: download_append.induct)
  case (1 remaining d)
  show ?case
  proof (cases "remaining = []")
    case True
    with "1.prems" show ?thesis by (simp add: download_append.simps collects_def)
  next
    case False
    define len where "len = min (length remaining) (IO_BUFFER_BYTES - length (dl_buffer d))"
    define d' where "d' = d\<lparr>dl_buffer := dl_buffer d @ take len remaining\<rparr>"
    have small: "\<not> IO_BUFFER_BYTES < length (dl_buffer d)" and sp: "spool_inv (dl_spool d')"
      using "1.prems" by (auto simp: dl_inv_def d'_def)
    have len': "length (dl_buffer d') \<le> IO_BUFFER_BYTES"
      using small by (simp add: d'_def len_def)
    have bytes: "dl_bytes d' @ drop len remaining = dl_bytes d @ remaining"
      by (simp add: d'_def dl_bytes_def)
    have app: "download_append remaining d =
        (if length (dl_buffer d') = IO_BUFFER_BYTES
         then (case download_flush d' of Inl e \<Rightarrow> Inl e
               | Inr d'' \<Rightarrow> download_append (drop len remaining) d'')
         else download_append (drop len remaining) d')"
      using False small unfolding len_def d'_def
      by (subst download_append.simps) (simp only: Let_def if_False)
    show ?thesis
    proof (cases "length (dl_buffer d') = IO_BUFFER_BYTES")
      case full: True
      show ?thesis
      proof (cases "fits (dl_bytes d')")
        case True
        then obtain d'' where d'': "download_flush d' = Inr d''" "dl_inv d''" "dl_bytes d'' = dl_bytes d'"
          using download_flush_result [OF sp len'] by auto
        have "collects (dl_bytes d'' @ drop len remaining) (download_append (drop len remaining) d'')"
          using "1.IH"(1) [OF False small len_def d'_def full d''(1)] d''(2) by simp
        with app full d'' bytes show ?thesis by simp
      next
        case nofit: False
        then have "download_flush d' = Inl ''temporary storage object exceeds 2 GiB''"
          using download_flush_result [OF sp len'] by simp
        moreover have "\<not> fits (dl_bytes d @ remaining)"
          using nofit fits_mono bytes by metis
        ultimately show ?thesis using app full by (simp add: collects_def)
      qed
    next
      case notfull: False
      with sp len' have "dl_inv d'" by (simp add: dl_inv_def)
      then have "collects (dl_bytes d' @ drop len remaining) (download_append (drop len remaining) d')"
        using "1.IH"(2) [OF False small len_def d'_def notfull] by simp
      with app notfull bytes show ?thesis by simp
    qed
  qed
qed

text \<open>The reading loop of the storage clients: append every received piece, then finish.\<close>

fun download_pieces :: "bytes list \<Rightarrow> Download \<Rightarrow> bytes result" where
  "download_pieces [] d = download_finish d"
| "download_pieces (c # cs) d = rbind (download_append c d) (download_pieces cs)"

lemma download_finish_result:
  assumes "dl_inv d"
  shows "download_finish d =
    (if fits (dl_bytes d) then Inr (dl_bytes d) else Inl ''temporary storage object exceeds 2 GiB'')"
proof (cases "fits (dl_bytes d)")
  case True
  then obtain d' where "download_flush d = Inr d'" "dl_bytes d' = dl_bytes d" "dl_buffer d' = []"
    using download_flush_result [of d] assms by (auto simp: dl_inv_def)
  with True show ?thesis by (simp add: download_finish_def dl_bytes_def)
next
  case False
  then show ?thesis
    using download_flush_result [of d] assms by (simp add: dl_inv_def download_finish_def)
qed

lemma download_pieces_result:
  "dl_inv d \<Longrightarrow> download_pieces cs d =
    (if fits (dl_bytes d @ concat cs) then Inr (dl_bytes d @ concat cs)
     else Inl ''temporary storage object exceeds 2 GiB'')"
proof (induction cs arbitrary: d)
  case Nil
  then show ?case by (simp add: download_finish_result)
next
  case (Cons c cs)
  then have col: "collects (dl_bytes d @ c) (download_append c d)"
    by (simp add: download_append_collects)
  show ?case
  proof (cases "download_append c d")
    case (Inl e)
    with col have e: "e = ''temporary storage object exceeds 2 GiB''" "\<not> fits (dl_bytes d @ c)"
      by (auto simp: collects_def)
    have "\<not> fits (dl_bytes d @ concat (c # cs))"
      using e(2) fits_mono [of "dl_bytes d @ c" "concat cs"] by auto
    with Inl e(1) show ?thesis by simp
  next
    case (Inr d')
    with col have "dl_inv d'" "dl_bytes d' = dl_bytes d @ c" by (simp_all add: collects_def)
    with Inr Cons.IH show ?thesis by simp
  qed
qed

section \<open>Uploads\<close>

text \<open>The client library pulls pieces until the source is exhausted; \<open>None\<close> here means the
  fuel ran out or the source failed.\<close>

fun upload_drain :: "nat \<Rightarrow> Upload \<Rightarrow> bytes list option" where
  "upload_drain 0 u = None"
| "upload_drain (Suc n) u =
     (case upload_next u of
        (Inr None, _) \<Rightarrow> Some []
      | (Inr (Some c), u') \<Rightarrow> map_option ((#) c) (upload_drain n u')
      | (Inl e, _) \<Rightarrow> None)"

lemma upload_drain_result:
  assumes "up_offset u \<le> length (up_bytes u)" "length (up_bytes u) - up_offset u < n"
  shows "\<exists>cs. upload_drain n u = Some cs \<and> concat cs = drop (up_offset u) (up_bytes u) \<and>
     (\<forall>c \<in> set cs. 0 < length c \<and> length c \<le> IO_BUFFER_BYTES)"
  using assms
proof (induction n arbitrary: u)
  case 0
  then show ?case by simp
next
  case (Suc n)
  define e where "e = min (length (up_bytes u)) (up_offset u + IO_BUFFER_BYTES)"
  define c where "c = take (e - up_offset u) (drop (up_offset u) (up_bytes u))"
  show ?case
  proof (cases "up_offset u = length (up_bytes u)")
    case True
    then show ?thesis by (simp add: upload_next_def)
  next
    case False
    with Suc.prems IO_BUFFER_BYTES_pos have e: "up_offset u < e" "e \<le> length (up_bytes u)"
      by (auto simp: e_def)
    then have step: "upload_next u = (Inr (Some c), u\<lparr>up_offset := e\<rparr>)"
      using False by (simp add: upload_next_def flip: e_def) (simp add: c_def)
    have "length (up_bytes u) - e < n" using Suc.prems e by linarith
    then obtain cs where cs: "upload_drain n (u\<lparr>up_offset := e\<rparr>) = Some cs"
      "concat cs = drop e (up_bytes u)" "\<forall>c \<in> set cs. 0 < length c \<and> length c \<le> IO_BUFFER_BYTES"
      using Suc.IH [of "u\<lparr>up_offset := e\<rparr>"] e by auto
    have "c @ drop e (up_bytes u) = drop (up_offset u) (up_bytes u)"
      using e(1) append_take_drop_id [of "e - up_offset u" "drop (up_offset u) (up_bytes u)"]
      by (simp add: c_def)
    moreover have "0 < length c \<and> length c \<le> IO_BUFFER_BYTES"
      using e by (simp add: c_def e_def)
    ultimately show ?thesis using step cs by auto
  qed
qed

section \<open>Correctness of the buffers\<close>

text \<open>A spool returns exactly the bytes written to it, however they were cut into pieces
  and whether or not they were moved to a file on the way, and fails exactly when they
  exceed 2 GiB. A slice has less than \<open>2 ^ 63\<close> bytes.\<close>

lemma payload_copy_collects:
  assumes "\<forall>c \<in> set cs. length c < 2 ^ 63"
  shows "payload_copy cs =
    (if length (concat cs) \<le> 2 ^ 31 then Inr (concat cs)
     else Inl ''temporary storage object exceeds 2 GiB'')"
proof -
  have "unat MAX_FILE_BYTES = 2 ^ 31" by (simp add: MAX_FILE_BYTES_def)
  with payload_copy_result [OF assms] show ?thesis by (simp only: fits_def)
qed

text \<open>A download returns the concatenation of the pieces it received, through its 256 KiB
  buffer and the spool, and fails exactly when they exceed 2 GiB; the buffering loop
  terminates and never over-fills.\<close>

lemma download_collects:
  "download_pieces cs download_new =
    (if length (concat cs) \<le> 2 ^ 31 then Inr (concat cs)
     else Inl ''temporary storage object exceeds 2 GiB'')"
proof -
  have "unat MAX_FILE_BYTES = 2 ^ 31" by (simp add: MAX_FILE_BYTES_def)
  with download_pieces_result [of download_new cs] show ?thesis
    by (simp only: fits_def download_new_inv append_Nil)
qed

text \<open>After a successful seek an upload streams exactly the bytes from that offset on, in
  non-empty pieces of at most 256 KiB, and ends.\<close>

lemma upload_streams_from_seek:
  assumes "upload_seek offset u = (Inr (), u')"
  shows "\<exists>cs. upload_drain (Suc (length (up_bytes u))) u' = Some cs \<and>
     concat cs = drop (unat offset) (up_bytes u) \<and>
     (\<forall>c \<in> set cs. 0 < length c \<and> length c \<le> 256 * 1024)"
proof -
  from assms have u': "up_bytes u' = up_bytes u" "up_offset u' = unat offset"
    "unat offset \<le> length (up_bytes u)"
    by (auto simp: upload_seek_def Let_def split: if_splits)
  then have "up_offset u' \<le> length (up_bytes u')"
    "length (up_bytes u') - up_offset u' < Suc (length (up_bytes u))" by simp_all
  from upload_drain_result [OF this] u' show ?thesis by (simp add: IO_BUFFER_BYTES_def)
qed

end
