(* ===== verification/Bucket_Store.thy ===== *)
theory Bucket_Store
  imports Payload "HOL-Library.AList" "HOL-Library.Char_ord" "HOL-Library.List_Lexorder"
begin

text \<open>
  Object storage (\<open>bucket.rs\<close>, \<open>bucket/file.rs\<close>, \<open>bucket/snapshots.rs\<close>). A
  bucket maps keys to versioned objects and replaces an object only under a generation
  precondition. The trait \<open>Bucket\<close> is the record \<open>bucket\<close> of its operations over a
  state type and the locale \<open>bucket_laws\<close> of what they promise; \<open>FileBucket\<close> is
  the implementation on a directory, and interprets the locale. \<open>BucketSnapshots\<close>
  stores immutable snapshot objects on any bucket; what it promises is the locale
  \<open>snapshot_objects\<close>, which every bucket provides.

  A directory is the contents of its object files and the directories that writers created.
  Lock and temporary files start with a dot: no key reaches them and no listing shows them.
  A lock is held over one whole compare-and-swap, so that operation is one step.
\<close>

section \<open>The bucket interface\<close>

record BucketObject =
  generation :: int
  obj_bytes :: bytes

record 's bucket =
  bk_get :: "string \<Rightarrow> 's \<Rightarrow> BucketObject option result"
  bk_range :: "string \<Rightarrow> u64 \<Rightarrow> u64 \<Rightarrow> 's \<Rightarrow> BucketObject option result"
  bk_cas :: "string \<Rightarrow> int option \<Rightarrow> bytes \<Rightarrow> 's \<Rightarrow> bool result \<times> 's"
  bk_list :: "string \<Rightarrow> 's \<Rightarrow> string list result"

text \<open>\<open>replace\<close>: when the swap does not report success, the object is read back, and if
  it holds the very bytes that were to be written the swap did happen.\<close>

definition replace_after :: "bool result \<Rightarrow> bytes \<Rightarrow> BucketObject option result \<Rightarrow> bool result" where
  "replace_after r b got =
     (if r = Inr True then Inr True
      else rbind got (\<lambda>found.
        case found of Some x \<Rightarrow> if obj_bytes x = b then Inr True else r | None \<Rightarrow> r))"

definition replace :: "'s bucket \<Rightarrow> string \<Rightarrow> int option \<Rightarrow> bytes \<Rightarrow> 's \<Rightarrow> bool result \<times> 's" where
  "replace B key expected b s =
     (case bk_cas B key expected b s of (r, s') \<Rightarrow> (replace_after r b (bk_get B key s'), s'))"

section \<open>The file bucket\<close>

record FileBucket =
  fb_files :: "(string \<times> bytes) list"
  fb_dirs :: "string list"

definition valid_key :: "string \<Rightarrow> bool" where
  "valid_key key \<longleftrightarrow> key \<noteq> [] \<and>
     list_all (\<lambda>part. part \<noteq> [] \<and> \<not> starts_with ''.'' part \<and> CHR 0x5C \<notin> set part)
       (split_on (CHR ''/'') key)"

definition object_path :: "string \<Rightarrow> string result" where
  "object_path key = ensure (valid_key key) ''invalid bucket object path'' (Inr key)"

text \<open>The proper ancestors of a path, outermost first.\<close>

definition ancestors :: "string \<Rightarrow> string list" where
  "ancestors path =
     (let parts = split_on (CHR ''/'') path
      in map (\<lambda>i. join_with (CHR ''/'') (take i parts)) [1 ..< length parts])"

datatype File = Directory | Regular bytes

definition open_file :: "FileBucket \<Rightarrow> string \<Rightarrow> File option result" where
  "open_file d path =
     (if list_ex (\<lambda>p. map_of (fb_files d) p \<noteq> None) (ancestors path) then Inl ''not a directory''
      else case map_of (fb_files d) path of
        Some bs \<Rightarrow> Inr (Some (Regular bs))
      | None \<Rightarrow> if path \<in> set (fb_dirs d) then Inr (Some Directory) else Inr None)"

text \<open>The first 8 bytes of a file are the generation, most significant byte first.\<close>

definition i64_from_be_bytes :: "bytes \<Rightarrow> int" where
  "i64_from_be_bytes bs = sint (u64_from_be_bytes bs)"

definition i64_to_be_bytes :: "int \<Rightarrow> bytes" where
  "i64_to_be_bytes n = u64_to_be_bytes (word_of_int n)"

definition i64_checked_add :: "int \<Rightarrow> int \<Rightarrow> int option" where
  "i64_checked_add a b = (if - (2 ^ 63) \<le> a + b \<and> a + b < 2 ^ 63 then Some (a + b) else None)"

fun read_generation :: "File \<Rightarrow> int result" where
  "read_generation Directory = Inl ''incomplete bucket object''"
| "read_generation (Regular bs) =
     ensure (8 \<le> length bs) ''incomplete bucket object'' (Inr (i64_from_be_bytes (take 8 bs)))"

fun file_rest :: "nat \<Rightarrow> File \<Rightarrow> bytes" where
  "file_rest n Directory = []"
| "file_rest n (Regular bs) = drop n bs"

definition read_object :: "FileBucket \<Rightarrow> string \<Rightarrow> BucketObject option result" where
  "read_object d path =
     rbind (open_file d path) (\<lambda>opened.
     case opened of
       None \<Rightarrow> Inr None
     | Some f \<Rightarrow>
         rbind (read_generation f) (\<lambda>g.
         rbind (payload_copy [file_rest 8 f]) (\<lambda>bs.
         Inr (Some \<lparr>generation = g, obj_bytes = bs\<rparr>))))"

definition fb_get :: "string \<Rightarrow> FileBucket \<Rightarrow> BucketObject option result" where
  "fb_get key d = rbind (object_path key) (read_object d)"

text \<open>Seeking past the largest file offset is refused by the system call.\<close>

definition fb_range :: "string \<Rightarrow> u64 \<Rightarrow> u64 \<Rightarrow> FileBucket \<Rightarrow> BucketObject option result" where
  "fb_range key start len d =
     rbind (object_path key) (\<lambda>path.
     rbind (open_file d path) (\<lambda>opened.
     case opened of
       None \<Rightarrow> Inr None
     | Some f \<Rightarrow>
         rbind (read_generation f) (\<lambda>g.
         rbind (context_opt ''range overflow'' (checked_add start 8)) (\<lambda>offset.
         ensure (unat offset < 2 ^ 63) ''invalid argument'' (
         rbind (payload_copy [take (unat len) (file_rest (unat offset) f)]) (\<lambda>bs.
         ensure (length bs = unat len) ''incomplete object range'' (
         Inr (Some \<lparr>generation = g, obj_bytes = bs\<rparr>))))))))"

text \<open>\<open>lock_object\<close> creates the missing ancestors.\<close>

definition lock_object :: "string \<Rightarrow> FileBucket \<Rightarrow> unit result \<times> FileBucket" where
  "lock_object path d =
     (if list_ex (\<lambda>p. map_of (fb_files d) p \<noteq> None) (ancestors path)
      then (Inl ''not a directory'', d)
      else (Inr (), d\<lparr>fb_dirs := fb_dirs d @ filter (\<lambda>p. p \<notin> set (fb_dirs d)) (ancestors path)\<rparr>))"

definition fb_compare_and_swap ::
    "string \<Rightarrow> int option \<Rightarrow> bytes \<Rightarrow> FileBucket \<Rightarrow> bool result \<times> FileBucket" where
  "fb_compare_and_swap key expected bs d =
     (case object_path key of
        Inl e \<Rightarrow> (Inl e, d)
      | Inr path \<Rightarrow>
         (case lock_object path d of
            (Inl e, d) \<Rightarrow> (Inl e, d)
          | (Inr _, d) \<Rightarrow>
             (case rbind (open_file d path) (\<lambda>opened. transpose_opt (map_option read_generation opened)) of
                Inl e \<Rightarrow> (Inl e, d)
              | Inr gen \<Rightarrow>
                  if gen \<noteq> expected then (Inr False, d)
                  else case i64_checked_add (case gen of None \<Rightarrow> 0 | Some g \<Rightarrow> g) 1 of
                    None \<Rightarrow> (Inl ''bucket generation overflow'', d)
                  | Some next \<Rightarrow>
                      (Inr True, d\<lparr>fb_files := AList.update path (i64_to_be_bytes next @ bs) (fb_files d)\<rparr>))))"

definition fb_list :: "string \<Rightarrow> FileBucket \<Rightarrow> string list result" where
  "fb_list pre d =
     Inr (sort (filter (\<lambda>k. list_all (\<lambda>part. \<not> starts_with ''.'' part) (split_on (CHR ''/'') k) \<and>
                            starts_with pre k)
                 (map fst (fb_files d))))"

definition file_bucket :: "FileBucket bucket" where
  "file_bucket = \<lparr>bk_get = fb_get, bk_range = fb_range, bk_cas = fb_compare_and_swap, bk_list = fb_list\<rparr>"

section \<open>Snapshot objects on a bucket\<close>

definition version :: "string \<Rightarrow> u64 option" where
  "version obj =
     Option.bind (strip_suffix ''.json'' (hd (rsplit_on (CHR ''/'') obj))) parse_u64"

definition snap_get :: "'s bucket \<Rightarrow> string \<Rightarrow> 's \<Rightarrow> bytes option result" where
  "snap_get B obj s = rbind (bk_get B obj s) (\<lambda>found. Inr (map_option obj_bytes found))"

text \<open>\<open>Iterator::max_by_key\<close> keeps the last of several maximal elements.\<close>

fun max_by_key :: "('a \<Rightarrow> 'k :: linorder) \<Rightarrow> 'a list \<Rightarrow> 'a option" where
  "max_by_key f [] = None"
| "max_by_key f (x # xs) =
     (case max_by_key f xs of None \<Rightarrow> Some x | Some y \<Rightarrow> if f x \<le> f y then Some y else Some x)"

definition snap_latest :: "'s bucket \<Rightarrow> string \<Rightarrow> 's \<Rightarrow> (string \<times> bytes) option result" where
  "snap_latest B pre s =
     rbind (bk_list B pre s) (\<lambda>keys.
     case max_by_key fst (List.map_filter (\<lambda>key. map_option (\<lambda>v. (v, key)) (version key)) keys) of
       Some (_, key) \<Rightarrow> rbind (snap_get B key s) (\<lambda>bs. Inr (map_option (\<lambda>b. (key, b)) bs))
     | None \<Rightarrow> Inr None)"

definition snap_put :: "'s bucket \<Rightarrow> string \<Rightarrow> bytes \<Rightarrow> 's \<Rightarrow> unit result \<times> 's" where
  "snap_put B obj bs s =
     (case replace B obj None bs s of
        (r, s') \<Rightarrow> (rbind r (\<lambda>ok. ensure ok ''conflicting immutable snapshot'' (Inr ())), s'))"

definition snap_recover :: "'s bucket \<Rightarrow> string \<Rightarrow> 's \<Rightarrow> (string \<times> bytes) option result \<times> 's" where
  "snap_recover B pre s =
     (case snap_latest B pre s of
        Inl e \<Rightarrow> (Inl e, s)
      | Inr None \<Rightarrow> (Inr None, s)
      | Inr (Some (obj, bs)) \<Rightarrow>
          (case snap_put B obj bs s of
             (Inl e, s') \<Rightarrow> (Inl e, s')
           | (Inr _, s') \<Rightarrow> (Inr (Some (obj, bs)), s')))"

section \<open>What a bucket promises\<close>

text \<open>\<open>view\<close> is the abstract contents. A swap that reports success replaced the object
  under its generation precondition by one of a larger generation; one that reports anything
  else may also have done so, when a retried request hides the first answer, or nothing.\<close>

definition swapped :: "string \<Rightarrow> int option \<Rightarrow> bytes \<Rightarrow>
    (string \<rightharpoonup> BucketObject) \<Rightarrow> (string \<rightharpoonup> BucketObject) \<Rightarrow> bool" where
  "swapped key expected b v v' \<longleftrightarrow>
     map_option generation (v key) = expected \<and>
     (\<exists>g. (case expected of None \<Rightarrow> 0 | Some g0 \<Rightarrow> g0) < g \<and>
          v' = v(key \<mapsto> \<lparr>generation = g, obj_bytes = b\<rparr>))"

text \<open>A sequence of swaps, whatever they report.\<close>

definition run_cas :: "'s bucket \<Rightarrow> (string \<times> int option \<times> bytes) list \<Rightarrow> 's \<Rightarrow> 's" where
  "run_cas B ops s = fold (\<lambda>(k, e, b) s. snd (bk_cas B k e b s)) ops s"

locale bucket_laws =
  fixes B :: "'s bucket"
    and inv :: "'s \<Rightarrow> bool"
    and view :: "'s \<Rightarrow> string \<rightharpoonup> BucketObject"
  assumes get_view: "inv s \<Longrightarrow> bk_get B k s = Inr x \<Longrightarrow> view s k = x"
    and range_view: "inv s \<Longrightarrow> bk_range B k start len s = Inr x \<Longrightarrow>
      x = map_option (\<lambda>obj. obj\<lparr>obj_bytes := take (unat len) (drop (unat start) (obj_bytes obj))\<rparr>) (view s k) \<and>
      (\<forall>obj. x = Some obj \<longrightarrow> length (obj_bytes obj) = unat len)"
    and list_view: "inv s \<Longrightarrow> bk_list B p s = Inr ks \<Longrightarrow> set ks = {k \<in> dom (view s). starts_with p k}"
    and cas_inv: "inv s \<Longrightarrow> bk_cas B k e b s = (r, s') \<Longrightarrow> inv s'"
    and cas_view: "inv s \<Longrightarrow> bk_cas B k e b s = (r, s') \<Longrightarrow>
      swapped k e b (view s) (view s') \<or> (view s' = view s \<and> r \<noteq> Inr True)"
begin

lemma replace_inv: "inv s \<Longrightarrow> replace B k e b s = (r, s') \<Longrightarrow> inv s'"
  by (auto simp: replace_def split: prod.splits dest: cas_inv)

lemma replace_view:
  assumes "inv s" "replace B k e b s = (r, s')"
  shows "swapped k e b (view s) (view s') \<or>
    (view s' = view s \<and> (r = Inr True \<longrightarrow> (\<exists>x. view s k = Some x \<and> obj_bytes x = b)))"
proof -
  obtain c where c: "bk_cas B k e b s = (c, s')" and r: "r = replace_after c b (bk_get B k s')"
    using assms(2) by (auto simp: replace_def split: prod.splits)
  have inv': "inv s'" using cas_inv [OF assms(1) c] .
  from cas_view [OF assms(1) c] show ?thesis
  proof
    assume same: "view s' = view s \<and> c \<noteq> Inr True"
    have "\<exists>x. view s k = Some x \<and> obj_bytes x = b" if "r = Inr True"
      using that r same get_view [OF inv'] by (auto simp: replace_after_def result_simps split: option.splits if_splits)
    with same show ?thesis by blast
  qed simp
qed

text \<open>A success means the object now holds the bytes; if it did not hold them before, the
  precondition held and this very call wrote them.\<close>

lemma replace_True:
  assumes "inv s" "replace B k e b s = (Inr True, s')"
  shows "\<exists>x. view s' k = Some x \<and> obj_bytes x = b"
    and "(\<forall>x. view s k = Some x \<longrightarrow> obj_bytes x \<noteq> b) \<Longrightarrow> swapped k e b (view s) (view s')"
  using replace_view [OF assms] by (auto simp: swapped_def)

text \<open>Generations of a key only grow, so a generation is consumed by at most one swap.\<close>

lemma run_cas_inv: "inv s \<Longrightarrow> inv (run_cas B ops s)"
proof (induction ops arbitrary: s)
  case (Cons op ops)
  obtain k e b where op: "op = (k, e, b)" by (cases op)
  have "inv (snd (bk_cas B k e b s))" using cas_inv [OF Cons.prems] by (metis prod.collapse)
  with Cons.IH op show ?case by (simp add: run_cas_def)
qed (simp add: run_cas_def)

lemma cas_generation_mono:
  assumes "inv s" "bk_cas B k e b s = (r, s')" "view s j = Some x"
  shows "\<exists>y. view s' j = Some y \<and> generation x \<le> generation y"
  using cas_view [OF assms(1,2)] assms(3) by (fastforce simp: swapped_def)

lemma run_cas_generation_mono:
  "inv s \<Longrightarrow> view s j = Some x \<Longrightarrow> \<exists>y. view (run_cas B ops s) j = Some y \<and> generation x \<le> generation y"
proof (induction ops arbitrary: s x)
  case (Cons op ops)
  obtain k e b where op: "op = (k, e, b)" by (cases op)
  obtain r s' where c: "bk_cas B k e b s = (r, s')" by (cases "bk_cas B k e b s")
  obtain y where "view s' j = Some y" "generation x \<le> generation y"
    using cas_generation_mono [OF Cons.prems(1) c Cons.prems(2)] by blast
  with Cons.IH [OF cas_inv [OF Cons.prems(1) c]] show ?case
    by (fastforce simp: run_cas_def op c)
qed (simp add: run_cas_def)

lemma generation_consumed_once:
  assumes "inv s" "bk_cas B k e b s = (Inr True, s')"
  shows "fst (bk_cas B k e b' (run_cas B ops s')) \<noteq> Inr True"
proof
  let ?t = "run_cas B ops s'"
  assume "fst (bk_cas B k e b' ?t) = Inr True"
  then obtain t' where t': "bk_cas B k e b' ?t = (Inr True, t')" by (metis prod.collapse)
  have inv': "inv s'" using cas_inv [OF assms] .
  obtain g where g: "(case e of None \<Rightarrow> 0 | Some g0 \<Rightarrow> g0) < g"
    "view s' k = Some \<lparr>generation = g, obj_bytes = b\<rparr>"
    using cas_view [OF assms] by (auto simp: swapped_def)
  obtain y where y: "view ?t k = Some y" "g \<le> generation y"
    using run_cas_generation_mono [OF inv' g(2)] by auto
  have "map_option generation (view ?t k) = e"
    using cas_view [OF run_cas_inv [OF inv'] t'] by (auto simp: swapped_def)
  with y g(1) show False by auto
qed

end

section \<open>What snapshot storage promises\<close>

text \<open>Objects are immutable: a write adds an object that was absent or changes nothing, and
  a write that succeeds leaves the object with the bytes given.\<close>

definition puts :: "(string \<Rightarrow> bytes \<Rightarrow> 's \<Rightarrow> unit result \<times> 's) \<Rightarrow> (string \<times> bytes) list \<Rightarrow> 's \<Rightarrow> 's" where
  "puts sput ops s = fold (\<lambda>(k, b) s. snd (sput k b s)) ops s"

locale snapshot_objects =
  fixes sget :: "string \<Rightarrow> 's \<Rightarrow> bytes option result"
    and sput :: "string \<Rightarrow> bytes \<Rightarrow> 's \<Rightarrow> unit result \<times> 's"
    and slatest :: "string \<Rightarrow> 's \<Rightarrow> (string \<times> bytes) option result"
    and sinv :: "'s \<Rightarrow> bool"
    and objects :: "'s \<Rightarrow> string \<rightharpoonup> bytes"
  assumes sget_objects: "sinv s \<Longrightarrow> sget k s = Inr x \<Longrightarrow> objects s k = x"
    and sput_inv: "sinv s \<Longrightarrow> sput k b s = (r, s') \<Longrightarrow> sinv s'"
    and sput_objects: "sinv s \<Longrightarrow> sput k b s = (r, s') \<Longrightarrow>
      objects s' = objects s \<or> (objects s k = None \<and> objects s' = (objects s)(k \<mapsto> b))"
    and sput_ok: "sinv s \<Longrightarrow> sput k b s = (Inr (), s') \<Longrightarrow> objects s' k = Some b"
    and slatest_objects: "sinv s \<Longrightarrow> slatest p s = Inr (Some (k, b)) \<Longrightarrow>
      objects s k = Some b \<and> starts_with p k \<and>
      (\<exists>v. version k = Some v \<and>
        (\<forall>j w. j \<in> dom (objects s) \<longrightarrow> starts_with p j \<longrightarrow> version j = Some w \<longrightarrow> w \<le> v))"
    and slatest_None: "sinv s \<Longrightarrow> slatest p s = Inr None \<Longrightarrow>
      j \<in> dom (objects s) \<Longrightarrow> starts_with p j \<Longrightarrow> version j = None"
begin

lemma sput_extends: "sinv s \<Longrightarrow> sput k b s = (r, s') \<Longrightarrow> objects s \<subseteq>\<^sub>m objects s'"
  using sput_objects [of s k b r s'] by (auto simp: map_le_def)

lemma puts_inv_extends: "sinv s \<Longrightarrow> sinv (puts sput ops s) \<and> objects s \<subseteq>\<^sub>m objects (puts sput ops s)"
proof (induction ops arbitrary: s)
  case (Cons op ops)
  obtain k b where op: "op = (k, b)" by (cases op)
  obtain r s' where p: "sput k b s = (r, s')" by (cases "sput k b s")
  have "sinv (puts sput ops s') \<and> objects s' \<subseteq>\<^sub>m objects (puts sput ops s')"
    using Cons.IH sput_inv [OF Cons.prems p] .
  with sput_extends [OF Cons.prems p] show ?case
    by (auto simp: puts_def op p intro: map_le_trans)
qed (simp add: puts_def)

lemma puts_keep: "sinv s \<Longrightarrow> objects s k = Some b \<Longrightarrow> objects (puts sput ops s) k = Some b"
  using puts_inv_extends [of s ops] by (metis domI map_le_def)

lemma put_then_read:
  assumes "sinv s" "sput k b s = (Inr (), s')" "sget k (puts sput ops s') = Inr x"
  shows "x = Some b"
proof -
  have inv': "sinv s'" using sput_inv [OF assms(1,2)] .
  have "objects (puts sput ops s') k = Some b"
    using sput_ok [OF assms(1,2)] puts_inv_extends [OF inv', of ops] by (auto simp: map_le_def dom_def)
  with sget_objects [OF _ assms(3)] puts_inv_extends [OF inv', of ops] show ?thesis by auto
qed

end

lemma max_by_key_None [simp]: "max_by_key f xs = None \<longleftrightarrow> xs = []"
  by (cases xs) (auto split: option.splits if_splits)

lemma max_by_key_Some: "max_by_key f xs = Some x \<Longrightarrow> x \<in> set xs \<and> (\<forall>y \<in> set xs. f y \<le> f x)"
proof (induction xs arbitrary: x)
  case (Cons a xs)
  show ?case
  proof (cases "max_by_key f xs")
    case None
    with Cons.prems show ?thesis by simp
  next
    case (Some y)
    with Cons.IH [of y] Cons.prems show ?thesis by (auto split: if_splits)
  qed
qed simp

lemma set_map_filter_Some: "y \<in> set (List.map_filter f xs) \<longleftrightarrow> (\<exists>x \<in> set xs. f x = Some y)"
  by (force simp: List.map_filter_def)

definition versioned :: "string list \<Rightarrow> (u64 \<times> string) list" where
  "versioned keys = List.map_filter (\<lambda>key. map_option (\<lambda>v. (v, key)) (version key)) keys"

lemma set_versioned: "(v, k) \<in> set (versioned ks) \<longleftrightarrow> k \<in> set ks \<and> version k = Some v"
  by (auto simp: versioned_def set_map_filter_Some)

lemma snap_latest_Some:
  assumes "snap_latest B p s = Inr (Some (k, b))"
  obtains ks v where "bk_list B p s = Inr ks" "max_by_key fst (versioned ks) = Some (v, k)"
    "snap_get B k s = Inr (Some b)"
proof -
  from assms obtain ks where ks: "bk_list B p s = Inr ks"
    by (auto simp: snap_latest_def result_simps)
  with assms have a: "(case max_by_key fst (versioned ks) of
      Some (_, key) \<Rightarrow> rbind (snap_get B key s) (\<lambda>bs. Inr (map_option (\<lambda>b. (key, b)) bs))
    | None \<Rightarrow> Inr None) = Inr (Some (k, b))"
    by (simp add: snap_latest_def versioned_def)
  then obtain v key where m: "max_by_key fst (versioned ks) = Some (v, key)"
    by (cases "max_by_key fst (versioned ks)") auto
  with a have "key = k" "snap_get B k s = Inr (Some b)" by (auto simp: result_simps)
  with that [OF ks] m show thesis by simp
qed

sublocale bucket_laws \<subseteq> snaps: snapshot_objects "snap_get B" "snap_put B" "snap_latest B" inv
  "\<lambda>s k. map_option obj_bytes (view s k)"
proof (unfold_locales, goal_cases)
  case (1 s k x)
  then show ?case by (auto simp: snap_get_def result_simps dest: get_view)
next
  case (2 s k b r s')
  then show ?case by (auto simp: snap_put_def split: prod.splits dest: replace_inv)
next
  case (3 s k b r s')
  then obtain c where "replace B k None b s = (c, s')"
    by (auto simp: snap_put_def split: prod.splits)
  from replace_view [OF 3(1) this] show ?case
    by (auto simp: swapped_def fun_eq_iff)
next
  case (4 s k b s')
  then have "replace B k None b s = (Inr True, s')"
    by (auto simp: snap_put_def result_simps split: prod.splits)
  from replace_True(1) [OF 4(1) this] show ?case by auto
next
  case (5 s p k b)
  from snap_latest_Some [OF 5(2)] obtain ks v where ks: "bk_list B p s = Inr ks"
    and m: "max_by_key fst (versioned ks) = Some (v, k)"
    and g: "snap_get B k s = Inr (Some b)"
    .
  note ks' = list_view [OF 5(1) ks]
  have v: "version k = Some v" and k: "k \<in> set ks"
    using max_by_key_Some [OF m] by (auto simp: set_versioned)
  have "w \<le> v" if "j \<in> set ks" "version j = Some w" for j w
  proof -
    have "(w, j) \<in> set (versioned ks)" using that by (simp add: set_versioned)
    with max_by_key_Some [OF m] show ?thesis by fastforce
  qed
  moreover have "map_option obj_bytes (view s k) = Some b"
    using g 5(1) by (auto simp: snap_get_def result_simps dest: get_view)
  ultimately show ?case using v k ks' by (auto simp: dom_def)
next
  case (6 s p j)
  then obtain ks where ks: "bk_list B p s = Inr ks" by (auto simp: snap_latest_def result_simps)
  note ks' = list_view [OF 6(1) ks]
  show ?case
  proof (rule ccontr)
    assume "version j \<noteq> None"
    then obtain w where w: "version j = Some w" by auto
    with 6(3,4) ks' have "(w, j) \<in> set (versioned ks)" by (auto simp: set_versioned)
    then obtain v k where m: "max_by_key fst (versioned ks) = Some (v, k)"
      by (cases "max_by_key fst (versioned ks)") auto
    with max_by_key_Some [OF m] have "k \<in> set ks" by (auto simp: set_versioned)
    with ks' have "view s k \<noteq> None" by auto
    moreover have "view s k = None"
      using 6(1,2) ks m by (auto simp: snap_latest_def snap_get_def result_simps versioned_def dest: get_view)
    ultimately show False by simp
  qed
qed

section \<open>The file bucket keeps the promises\<close>

definition fb_view :: "FileBucket \<Rightarrow> string \<rightharpoonup> BucketObject" where
  "fb_view d k = map_option (\<lambda>f. \<lparr>generation = i64_from_be_bytes (take 8 f), obj_bytes = drop 8 f\<rparr>)
     (map_of (fb_files d) k)"

text \<open>Every object file has a key that addresses it, a complete generation, and its ancestors
  among the created directories; no path is both a file and a directory.\<close>

definition fb_inv :: "FileBucket \<Rightarrow> bool" where
  "fb_inv d \<longleftrightarrow> distinct (map fst (fb_files d)) \<and>
     (\<forall>k f. (k, f) \<in> set (fb_files d) \<longrightarrow> valid_key k \<and> 8 \<le> length f \<and>
        set (ancestors k) \<subseteq> set (fb_dirs d) \<and> k \<notin> set (fb_dirs d))"

lemma length_join_take:
  "1 \<le> i \<Longrightarrow> i < length ps \<Longrightarrow> length (join_with c (take i ps)) < length (join_with c ps)"
proof (induction c ps arbitrary: i rule: join_with.induct)
  case (3 c p q ps)
  then obtain j where i: "i = Suc j" by (cases i) auto
  show ?case
  proof (cases j)
    case 0
    then show ?thesis by (simp add: i)
  next
    case (Suc j')
    with 3 i have "length (join_with c (take j (q # ps))) < length (join_with c (q # ps))"
      by (intro "3.IH") auto
    then show ?thesis by (simp add: i Suc)
  qed
qed auto

lemma not_own_ancestor: "k \<notin> set (ancestors k)"
proof
  assume "k \<in> set (ancestors k)"
  then obtain i where i: "1 \<le> i" "i < length (split_on (CHR ''/'') k)"
    "k = join_with (CHR ''/'') (take i (split_on (CHR ''/'') k))"
    by (auto simp: ancestors_def Let_def)
  have "length k < length (join_with (CHR ''/'') (split_on (CHR ''/'') k))"
    using length_join_take [OF i(1,2), of "CHR ''/''"] i(3) by simp
  then show False by (simp add: join_split_on)
qed

lemma length_i64_to_be_bytes [simp]: "length (i64_to_be_bytes n) = 8"
  by (simp add: i64_to_be_bytes_def)

lemma i64_be_roundtrip:
  "- (2 ^ 63) \<le> n \<Longrightarrow> n < 2 ^ 63 \<Longrightarrow> i64_from_be_bytes (i64_to_be_bytes n) = n"
  by (simp add: i64_from_be_bytes_def i64_to_be_bytes_def signed_of_int signed_take_bit_int_eq_self)

lemma object_path_Inr [result_simps]: "object_path k = Inr p \<longleftrightarrow> p = k \<and> valid_key k"
  by (auto simp: object_path_def ensure_def)

lemma payload_copy_Inr: "payload_copy [bs] = Inr x \<Longrightarrow> x = bs"
  by (auto simp: payload_copy_def spool_write_all_def spool_write_def spool_new_def spool_bytes_def Let_def
      split: if_splits option.splits)

lemma open_file_Inr:
  "open_file d p = Inr x \<Longrightarrow>
    map_of (fb_files d) p = (case x of Some (Regular f) \<Rightarrow> Some f | _ \<Rightarrow> None)"
  by (auto simp: open_file_def split: if_splits option.splits)

lemma read_generation_Inr [result_simps]:
  "read_generation f = Inr g \<longleftrightarrow>
    (\<exists>bs. f = Regular bs \<and> 8 \<le> length bs \<and> g = i64_from_be_bytes (take 8 bs))"
  by (cases f) (auto simp: result_simps)

lemma read_object_view: "read_object d k = Inr x \<Longrightarrow> fb_view d k = x"
  by (cases "open_file d k")
     (auto simp: read_object_def fb_view_def result_simps dest!: open_file_Inr payload_copy_Inr
        split: option.splits)

lemma fb_range_view:
  assumes "fb_range k start len d = Inr x"
  shows "x = map_option (\<lambda>obj. obj\<lparr>obj_bytes := take (unat len) (drop (unat start) (obj_bytes obj))\<rparr>) (fb_view d k) \<and>
      (\<forall>obj. x = Some obj \<longrightarrow> length (obj_bytes obj) = unat len)"
proof -
  from assms obtain op where op: "open_file d k = Inr op"
    by (auto simp: fb_range_def result_simps)
  note m = open_file_Inr [OF op]
  show ?thesis
  proof (cases op)
    case None
    with assms op m show ?thesis by (auto simp: fb_range_def fb_view_def result_simps)
  next
    case (Some f)
    show ?thesis
    proof (cases f)
      case Directory
      with assms op Some show ?thesis by (auto simp: fb_range_def result_simps)
    next
      case (Regular bs)
      from assms op Some Regular obtain g off y where
        y: "read_generation (Regular bs) = Inr g" "checked_add start 8 = Some off"
        "payload_copy [take (unat len) (drop (unat off) bs)] = Inr y" "length y = unat len"
        "x = Some \<lparr>generation = g, obj_bytes = y\<rparr>"
        by (auto simp: fb_range_def result_simps)
      have "unat (8 :: u64) = 8" by simp
      with y(2) have "unat off = unat start + 8" by (simp only: checked_add_Some_iff)
      moreover have "y = take (unat len) (drop (unat off) bs)" using payload_copy_Inr [OF y(3)] .
      ultimately have "y = take (unat len) (drop (unat start) (drop 8 bs))" by simp
      moreover from y(1) have "g = i64_from_be_bytes (take 8 bs)" by (simp add: result_simps)
      ultimately show ?thesis using m Some Regular y(4,5) by (simp add: fb_view_def)
    qed
  qed
qed

definition locked :: "string \<Rightarrow> FileBucket \<Rightarrow> FileBucket \<Rightarrow> bool" where
  "locked p d d' \<longleftrightarrow> fb_files d' = fb_files d \<and>
     (d' = d \<or> set (fb_dirs d') = set (fb_dirs d) \<union> set (ancestors p) \<and>
        (\<forall>k f. (k, f) \<in> set (fb_files d) \<longrightarrow> k \<notin> set (ancestors p)))"

lemma lock_object_locked: "lock_object p d = (r, d') \<Longrightarrow> locked p d d'"
  by (force simp: lock_object_def locked_def list_ex_iff map_of_eq_None_iff split: if_splits)

lemma lock_object_Inr:
  "lock_object p d = (Inr u, d') \<Longrightarrow> set (ancestors p) \<subseteq> set (fb_dirs d')"
  by (auto simp: lock_object_def split: if_splits)

lemma open_file_not_dir: "open_file d p = Inr x \<Longrightarrow> x \<noteq> Some Directory \<Longrightarrow>
    p \<in> set (fb_dirs d) \<Longrightarrow> p \<in> fst ` set (fb_files d)"
  by (force simp: open_file_def split: if_splits option.splits dest: map_of_SomeD)

lemma locked_inv: "fb_inv d \<Longrightarrow> locked p d d' \<Longrightarrow> fb_inv d'"
  unfolding fb_inv_def locked_def by (elim conjE disjE) auto

lemma i64_checked_add_Some:
  "i64_checked_add a b = Some c \<longleftrightarrow> c = a + b \<and> - (2 ^ 63) \<le> c \<and> c < 2 ^ 63"
  by (auto simp: i64_checked_add_def)

text \<open>A swap leaves the files alone, or it found the expected generation and installed the next.\<close>

definition installs :: "string \<Rightarrow> int option \<Rightarrow> bytes \<Rightarrow> FileBucket \<Rightarrow> FileBucket \<Rightarrow> bool" where
  "installs k e b d d' \<longleftrightarrow> valid_key k \<and> map_option generation (fb_view d k) = e \<and>
     (\<exists>n. n = (case e of None \<Rightarrow> 0 | Some g \<Rightarrow> g) + 1 \<and> - (2 ^ 63) \<le> n \<and> n < 2 ^ 63 \<and>
       fb_files d' = AList.update k (i64_to_be_bytes n @ b) (fb_files d)) \<and>
     set (ancestors k) \<subseteq> set (fb_dirs d') \<and>
     (k \<in> set (fb_dirs d') \<longrightarrow> k \<in> fst ` set (fb_files d))"

lemma fb_cas_cases:
  assumes "fb_compare_and_swap k e b d = (r, d')"
  obtains (kept) "locked k d d'" "r \<noteq> Inr True"
  | (swap) d1 where "r = Inr True" "locked k d d1" "installs k e b d1 d'" "fb_dirs d' = fb_dirs d1"
proof (cases "object_path k")
  case (Inl m)
  with assms kept show thesis by (auto simp: fb_compare_and_swap_def locked_def)
next
  case (Inr p)
  then have p: "object_path k = Inr k" "valid_key k" by (auto simp: object_path_Inr)
  obtain lr d1 where l: "lock_object k d = (lr, d1)" by (cases "lock_object k d")
  note lk = lock_object_locked [OF l]
  show thesis
  proof (cases lr)
    case (Inl m)
    with assms p l lk kept show thesis by (auto simp: fb_compare_and_swap_def)
  next
    case (Inr u)
    show thesis
    proof (cases "rbind (open_file d1 k) (\<lambda>opened. transpose_opt (map_option read_generation opened))")
      case (Inl m)
      with assms p l Inr lk kept show thesis by (auto simp: fb_compare_and_swap_def)
    next
      case gen: (Inr gen)
      then obtain op where op: "open_file d1 k = Inr op"
        "transpose_opt (map_option read_generation op) = Inr gen" by (auto simp: result_simps)
      have v: "map_option generation (fb_view d1 k) = gen" and nd: "op \<noteq> Some Directory"
        using op(2) open_file_Inr [OF op(1)]
        by (auto simp: fb_view_def result_simps split: option.splits)
      let ?n = "i64_checked_add (case gen of None \<Rightarrow> 0 | Some g \<Rightarrow> g) 1"
      have c: "(r, d') = (if gen \<noteq> e then (Inr False, d1)
           else case ?n of
             None \<Rightarrow> (Inl ''bucket generation overflow'', d1)
           | Some next \<Rightarrow> (Inr True, d1\<lparr>fb_files := AList.update k (i64_to_be_bytes next @ b) (fb_files d1)\<rparr>))"
        by (simp only: assms [symmetric] fb_compare_and_swap_def p l Inr gen sum.case prod.case)
      show thesis
      proof (cases "gen = e \<and> ?n \<noteq> None")
        case True
        then obtain n where n: "?n = Some n" "gen = e" by blast
        with c have r: "r = Inr True" "fb_dirs d' = fb_dirs d1"
          "fb_files d' = AList.update k (i64_to_be_bytes n @ b) (fb_files d1)" by simp_all
        moreover from n have "n = (case e of None \<Rightarrow> 0 | Some g \<Rightarrow> g) + 1 \<and> - (2 ^ 63) \<le> n \<and> n < 2 ^ 63"
          by (simp add: i64_checked_add_Some)
        ultimately have "installs k e b d1 d'"
          using p v n(2) lock_object_Inr [OF l [unfolded Inr]] open_file_not_dir [OF op(1) nd]
          unfolding installs_def by metis
        with swap [OF r(1) lk _ r(2)] show thesis by blast
      next
        case False
        with c have "d' = d1 \<and> r \<noteq> Inr True" by (auto split: if_splits)
        with lk kept show thesis by simp
      qed
    qed
  qed
qed

lemma set_update_subset: "set (AList.update k v al) \<subseteq> insert (k, v) (set al)"
  by (induction al) auto

lemma installs_inv:
  assumes "fb_inv d" "installs k e b d d'" "fb_dirs d' = fb_dirs d"
  shows "fb_inv d'"
proof -
  from assms(2) obtain n where n: "fb_files d' = AList.update k (i64_to_be_bytes n @ b) (fb_files d)"
    by (auto simp: installs_def)
  have k: "valid_key k" "set (ancestors k) \<subseteq> set (fb_dirs d)" "k \<notin> set (fb_dirs d)"
    using assms unfolding installs_def fb_inv_def by auto
  have "valid_key j \<and> 8 \<le> length f \<and> set (ancestors j) \<subseteq> set (fb_dirs d) \<and> j \<notin> set (fb_dirs d)"
    if "(j, f) \<in> set (fb_files d')" for j f
  proof -
    from that have "(j, f) = (k, i64_to_be_bytes n @ b) \<or> (j, f) \<in> set (fb_files d)"
      unfolding n using set_update_subset by fastforce
    then show ?thesis using assms(1) k unfolding fb_inv_def by fastforce
  qed
  moreover have "distinct (map fst (fb_files d'))"
    using assms(1) by (simp add: n distinct_update fb_inv_def)
  ultimately show ?thesis unfolding fb_inv_def assms(3) by blast
qed

lemma fb_cas_inv:
  assumes "fb_inv d" "fb_compare_and_swap k e b d = (r, d')"
  shows "fb_inv d'"
  using assms(2) by (cases rule: fb_cas_cases) (use assms(1) locked_inv installs_inv in blast)+

lemma locked_view: "locked k d d' \<Longrightarrow> fb_view d' = fb_view d"
  by (auto simp: locked_def fb_view_def fun_eq_iff)

lemma installs_view:
  assumes "installs k e b d d'"
  shows "swapped k e b (fb_view d) (fb_view d')"
proof -
  from assms obtain n where n: "map_option generation (fb_view d k) = e"
    "n = (case e of None \<Rightarrow> 0 | Some g \<Rightarrow> g) + 1" "- (2 ^ 63) \<le> n" "n < 2 ^ 63"
    "fb_files d' = AList.update k (i64_to_be_bytes n @ b) (fb_files d)"
    unfolding installs_def by blast
  have "fb_view d' = (fb_view d)(k \<mapsto> \<lparr>generation = n, obj_bytes = b\<rparr>)"
    using n(5) i64_be_roundtrip [OF n(3,4)]
    by (simp add: fb_view_def fun_eq_iff update_conv')
  with n(1,2) show ?thesis by (simp add: swapped_def) (metis less_add_one)
qed

lemma fb_cas_view:
  assumes "fb_compare_and_swap k e b d = (r, d')"
  shows "swapped k e b (fb_view d) (fb_view d') \<or> (fb_view d' = fb_view d \<and> r \<noteq> Inr True)"
  using assms by (cases rule: fb_cas_cases) (use locked_view installs_view in metis)+

definition visible :: "string \<Rightarrow> bool" where
  "visible k \<longleftrightarrow> list_all (\<lambda>part. \<not> starts_with ''.'' part) (split_on (CHR ''/'') k)"

lemma valid_key_visible: "valid_key k \<Longrightarrow> visible k"
  unfolding valid_key_def visible_def by (auto simp only: list_all_iff)

lemma set_fb_list:
  assumes "fb_list p d = Inr ks"
  shows "set ks = {k \<in> fst ` set (fb_files d). visible k \<and> starts_with p k}"
proof -
  have "ks = sort (filter (\<lambda>k. visible k \<and> starts_with p k) (map fst (fb_files d)))"
    using assms unfolding fb_list_def visible_def by (rule sum.inject(2) [THEN iffD1, symmetric])
  then show ?thesis by (simp only: set_sort set_filter set_map)
qed

lemma dom_fb_view: "dom (fb_view d) = fst ` set (fb_files d)"
proof -
  have "dom (fb_view d) = dom (map_of (fb_files d))" by (simp add: fb_view_def dom_def)
  then show ?thesis by (simp only: dom_map_of_conv_image_fst)
qed

lemma fb_list_view:
  assumes "fb_inv d" "fb_list p d = Inr ks"
  shows "set ks = {k \<in> dom (fb_view d). starts_with p k}"
proof -
  have "visible k" if "k \<in> fst ` set (fb_files d)" for k
    using that assms(1) by (intro valid_key_visible) (auto simp: fb_inv_def)
  then show ?thesis by (auto simp only: set_fb_list [OF assms(2)] dom_fb_view)
qed

interpretation fb: bucket_laws file_bucket fb_inv fb_view
proof (unfold_locales, goal_cases)
  case (1 s k x)
  then show ?case by (auto simp: file_bucket_def fb_get_def result_simps dest: read_object_view)
next
  case (2 s k start len x)
  then show ?case using fb_range_view by (simp add: file_bucket_def)
next
  case (3 s p ks)
  then show ?case using fb_list_view by (simp add: file_bucket_def)
next
  case (4 s k e b r s')
  then show ?case using fb_cas_inv by (simp add: file_bucket_def)
next
  case (5 s k e b r s')
  then show ?case using fb_cas_view by (simp add: file_bucket_def)
qed

text \<open>An object that is there and no larger than a spool can be read.\<close>

lemma fb_get_present:
  assumes "fb_inv d" "fb_view d k = Some x" "length (obj_bytes x) \<le> 2 ^ 31"
  shows "fb_get k d = Inr (Some x)"
proof -
  from assms(2) obtain f where f: "map_of (fb_files d) k = Some f"
    "x = \<lparr>generation = i64_from_be_bytes (take 8 f), obj_bytes = drop 8 f\<rparr>"
    by (auto simp: fb_view_def)
  have kf: "(k, f) \<in> set (fb_files d)" using f(1) by (rule map_of_SomeD)
  have "map_of (fb_files d) p = None" if "p \<in> set (ancestors k)" for p
  proof (cases "map_of (fb_files d) p")
    case (Some f')
    from map_of_SomeD [OF this] that kf assms(1) show ?thesis unfolding fb_inv_def by blast
  qed simp
  then have "open_file d k = Inr (Some (Regular f))"
    using f(1) by (auto simp: open_file_def list_ex_iff)
  moreover have "payload_copy [drop 8 f] = Inr (drop 8 f)"
  proof -
    have "fits (concat [drop 8 f])" using assms(3) f(2) by (simp add: fits_def MAX_FILE_BYTES_def)
    moreover have "length (drop 8 f) < 2 ^ 63" using assms(3) f(2) by simp
    ultimately show ?thesis using payload_copy_result [of "[drop 8 f]"] by simp
  qed
  moreover have "valid_key k" "8 \<le> length f" using kf assms(1) unfolding fb_inv_def by blast+
  ultimately show ?thesis
    by (simp add: fb_get_def object_path_def read_object_def f(2))
qed

section \<open>Correctness of the file bucket\<close>

text \<open>C29. A generation is consumed at most once: after a compare-and-swap succeeded against a
  generation, no later one against the same generation of that key succeeds, whatever swaps
  happen in between. This is what lets one writer fence another.\<close>

theorem generation_swapped_at_most_once:
  assumes "fb_inv d" and "fb_compare_and_swap key expected b d = (Inr True, d')"
  shows "fst (fb_compare_and_swap key expected b' (run_cas file_bucket ops d')) \<noteq> Inr True"
  using fb.generation_consumed_once [OF assms(1), of key expected b d' b' ops] assms(2)
  by (simp add: file_bucket_def)

text \<open>C30. \<open>replace\<close> that reports success for bytes the object did not hold before did
  replace the object itself: the expected generation matched, the object now has those bytes
  under a larger generation, and no other key changed. The read-back after an unclear answer
  never claims somebody else's write.\<close>

theorem replace_reports_own_write:
  assumes "fb_inv d" and "replace file_bucket key expected b d = (Inr True, d')"
    and "map_option obj_bytes (fb_view d key) \<noteq> Some b"
  shows "map_option generation (fb_view d key) = expected \<and>
    (\<exists>g. (case expected of None \<Rightarrow> 0 | Some g0 \<Rightarrow> g0) < g \<and>
       fb_view d' = (fb_view d)(key \<mapsto> \<lparr>generation = g, obj_bytes = b\<rparr>))"
  using fb.replace_True(2) [OF assms(1,2)] assms(3) by (auto simp: swapped_def)

text \<open>C31. A snapshot that was stored stays: after any further writes, to any keys and with any
  contents, reading it returns exactly the bytes stored (objects up to the 2 GiB a reader
  accepts).\<close>

theorem stored_snapshot_stays:
  assumes "fb_inv d" and "snap_put file_bucket key b d = (Inr (), d')" and "length b \<le> 2 ^ 31"
  shows "snap_get file_bucket key (puts (snap_put file_bucket) ops d') = Inr (Some b)"
proof -
  let ?d = "puts (snap_put file_bucket) ops d'"
  have inv': "fb_inv d'" using fb.snaps.sput_inv [OF assms(1,2)] .
  have inv: "fb_inv ?d" using fb.snaps.puts_inv_extends [OF inv'] by blast
  have "map_option obj_bytes (fb_view ?d key) = Some b"
    using fb.snaps.puts_keep [OF inv' fb.snaps.sput_ok [OF assms(1,2)]] .
  then obtain x where x: "fb_view ?d key = Some x" "obj_bytes x = b" by auto
  with fb_get_present [OF inv x(1)] assms(3) show ?thesis
    by (simp add: snap_get_def file_bucket_def)
qed

text \<open>C34. The latest snapshot under a prefix is an object of that prefix with its stored bytes,
  and no object under the prefix has a larger version.\<close>

theorem latest_snapshot_is_newest:
  assumes "fb_inv d" and "snap_latest file_bucket pre d = Inr (Some (key, b))"
  shows "map_option obj_bytes (fb_view d key) = Some b \<and> starts_with pre key \<and>
    (\<exists>v. version key = Some v \<and>
      (\<forall>j w. j \<in> dom (fb_view d) \<longrightarrow> starts_with pre j \<longrightarrow> version j = Some w \<longrightarrow> w \<le> v))"
  using fb.snaps.slatest_objects [OF assms] by auto

section \<open>A concrete directory\<close>

definition empty_bucket :: FileBucket where
  "empty_bucket = \<lparr>fb_files = [], fb_dirs = []\<rparr>"

definition sample_key :: string where "sample_key = ''s/7.json''"

definition sample_bucket :: FileBucket where
  "sample_bucket = \<lparr>fb_files = [(sample_key, i64_to_be_bytes 1 @ [5, 6])], fb_dirs = [''s'']\<rparr>"

lemma empty_bucket_inv [simp]: "fb_inv empty_bucket"
  by (simp add: fb_inv_def empty_bucket_def)

lemma sample_key_facts: "object_path sample_key = Inr sample_key" "ancestors sample_key = [''s'']"
  "sample_key \<noteq> ''s''"
  by (simp_all add: object_path_def valid_key_def sample_key_def ancestors_def starts_with_def)

lemma sample_cas: "fb_compare_and_swap sample_key None [5, 6] empty_bucket = (Inr True, sample_bucket)"
  by (simp add: fb_compare_and_swap_def sample_key_facts lock_object_def open_file_def empty_bucket_def
      i64_checked_add_def sample_bucket_def)

lemma sample_bucket_inv: "fb_inv sample_bucket"
  using fb_cas_inv [OF empty_bucket_inv sample_cas] .

lemma sample_view: "fb_view sample_bucket sample_key = Some \<lparr>generation = 1, obj_bytes = [5, 6]\<rparr>"
  by (simp add: fb_view_def sample_bucket_def i64_be_roundtrip)

lemma sample_replace: "replace file_bucket sample_key None [5, 6] empty_bucket = (Inr True, sample_bucket)"
  by (simp add: replace_def file_bucket_def sample_cas replace_after_def)

lemma sample_put: "snap_put file_bucket sample_key [5, 6] empty_bucket = (Inr (), sample_bucket)"
  by (simp add: snap_put_def sample_replace)

lemma sample_latest:
  "snap_latest file_bucket ''s/'' sample_bucket = Inr (Some (sample_key, [5, 6]))"
proof -
  have "fb_list ''s/'' sample_bucket = Inr [sample_key]"
    by (simp add: fb_list_def sample_bucket_def sample_key_def starts_with_def)
  moreover have "version sample_key = Some 7"
    by (simp add: version_def sample_key_def rsplit_on_def strip_suffix_def strip_prefix_def
        parse_u64_def from_str_radix_def char_digit_def)
  moreover have "fb_get sample_key sample_bucket = Inr (Some \<lparr>generation = 1, obj_bytes = [5, 6]\<rparr>)"
    by (rule fb_get_present [OF sample_bucket_inv sample_view]) simp
  ultimately show ?thesis
    by (simp add: snap_latest_def snap_get_def file_bucket_def map_filter_simps)
qed

theorem generation_swapped_at_most_once_witness:
  "fst (fb_compare_and_swap sample_key None [9]
     (run_cas file_bucket [(sample_key, Some 1, [8])] sample_bucket)) \<noteq> Inr True"
  by (rule generation_swapped_at_most_once [OF empty_bucket_inv sample_cas])

theorem replace_reports_own_write_witness:
  "\<exists>g > 0. fb_view sample_bucket sample_key = Some \<lparr>generation = g, obj_bytes = [5, 6]\<rparr>"
proof -
  have "map_option obj_bytes (fb_view empty_bucket sample_key) \<noteq> Some [5, 6]"
    by (simp add: fb_view_def empty_bucket_def)
  from replace_reports_own_write [OF empty_bucket_inv sample_replace this] show ?thesis by auto
qed

theorem stored_snapshot_stays_witness:
  "snap_get file_bucket sample_key (puts (snap_put file_bucket) [(sample_key, [1])] sample_bucket) =
   Inr (Some [5, 6])"
  by (rule stored_snapshot_stays [OF empty_bucket_inv sample_put]) simp

theorem latest_snapshot_is_newest_witness:
  "\<exists>v. version sample_key = Some v \<and> starts_with ''s/'' sample_key"
  using latest_snapshot_is_newest [OF sample_bucket_inv sample_latest] by blast

end
