(* ===== verification/Store_Config.thy ===== *)
theory Store_Config
  imports Storage_Paths
begin

text \<open>
  The configuration of the snapshot store (\<open>SnapshotStoreConfig\<close> in
  \<open>bucket/snapshots.rs\<close>): the local bucket, or an append log in one or two Rapid zones
  with a Standard bucket as its archive. The clock reading that \<open>Instant::now\<close> returns,
  in nanoseconds, is an argument.
\<close>

section \<open>Data\<close>

datatype RapidPlacement = All | Nearest

record ArchiveBatchConfig =
  batch_bytes :: u64
  interval_ms :: u64

record RapidBucket =
  rb_bucket :: string
  rb_zone :: string

datatype SnapshotStoreConfig =
    LocalStore
  | RapidStore (rapid_buckets: "RapidBucket list") (rapid_archive: string)
      (rapid_batch: ArchiveBatchConfig) (rapid_placement: RapidPlacement)

definition default_archive_batch :: ArchiveBatchConfig where
  "default_archive_batch = \<lparr>batch_bytes = 16 * 1024 * 1024, interval_ms = 10000\<rparr>"

section \<open>Operations\<close>

definition is_all :: "RapidPlacement \<Rightarrow> bool" where
  "is_all p \<longleftrightarrow> p = All"

text \<open>\<open>Instant::checked_add\<close>: seconds are a signed 64-bit number.\<close>

definition instant_checked_add_ms :: "nat \<Rightarrow> u64 \<Rightarrow> nat option" where
  "instant_checked_add_ms now ms =
     (let t = now + unat ms * 1000000 in if t div 1000000000 < 2 ^ 63 then Some t else None)"

definition archive_batch_validate :: "nat \<Rightarrow> ArchiveBatchConfig \<Rightarrow> unit result" where
  "archive_batch_validate now c =
     ensure (0 < batch_bytes c \<and> batch_bytes c \<le> - 1 - 8 * 1024 * 1024)
       ''archive batch bytes must be positive and leave room for one record'' (
     ensure (0 < interval_ms c \<and> instant_checked_add_ms now (interval_ms c) \<noteq> None)
       ''archive batch interval must be positive and representable'' (
     Inr ()))"

fun rapid_settings :: "SnapshotStoreConfig \<Rightarrow> (RapidBucket list \<times> string) option" where
  "rapid_settings LocalStore = None"
| "rapid_settings (RapidStore buckets archive _ _) = Some (buckets, archive)"

definition same_backend :: "SnapshotStoreConfig \<Rightarrow> SnapshotStoreConfig \<Rightarrow> bool" where
  "same_backend a b \<longleftrightarrow> rapid_settings a = rapid_settings b"

definition zone_ok :: "string \<Rightarrow> string \<Rightarrow> bool" where
  "zone_ok region suffix \<longleftrightarrow>
     length suffix = 1 \<and> (97 \<le> (of_char (suffix ! 0) :: nat) \<and> (of_char (suffix ! 0) :: nat) \<le> 122) \<and>
     (region \<noteq> [] \<and> 48 \<le> (of_char (last region) :: nat) \<and> (of_char (last region) :: nat) \<le> 57)"

text \<open>The loop over the placements, with the zones and names seen so far.\<close>

fun validate_placements :: "string \<Rightarrow> string list \<Rightarrow> string list \<Rightarrow> RapidBucket list \<Rightarrow> unit result" where
  "validate_placements archive zones names [] = Inr ()"
| "validate_placements archive zones names (p # ps) =
     rbind (validate_bucket (rb_bucket p)) (\<lambda>_.
     rbind (context_opt ''Rapid placement must name a Google Cloud zone''
              (rsplit_once (CHR ''-'') (rb_zone p))) (\<lambda>(region, suffix).
     ensure (zone_ok region suffix) ''invalid Rapid zone'' (
     ensure (rb_zone p \<notin> set zones) ''Rapid buckets must occupy distinct zones'' (
     ensure (rb_bucket p \<notin> set names \<and> rb_bucket p \<noteq> archive)
       ''Rapid and Standard buckets must be distinct'' (
     validate_placements archive (rb_zone p # zones) (rb_bucket p # names) ps)))))"

definition config_validate :: "nat \<Rightarrow> SnapshotStoreConfig \<Rightarrow> unit result" where
  "config_validate now c =
     (case c of
        LocalStore \<Rightarrow> Inr ()
      | RapidStore buckets archive batch placement \<Rightarrow>
          rbind (archive_batch_validate now batch) (\<lambda>_.
          ensure (is_all placement \<or> length buckets = 2) ''nearest Rapid placement requires two zones'' (
          ensure (1 \<le> length buckets \<and> length buckets \<le> 2) ''append logs require one or two Rapid zones'' (
          rbind (validate_bucket archive) (\<lambda>_.
          validate_placements archive [] [] buckets)))))"

section \<open>What is accepted\<close>

definition zone_name_ok :: "string \<Rightarrow> bool" where
  "zone_name_ok z \<longleftrightarrow> (\<exists>region suffix. z = region @ CHR ''-'' # suffix \<and> zone_ok region suffix)"

lemma zone_ok_no_dash: "zone_ok region suffix \<Longrightarrow> CHR ''-'' \<notin> set suffix"
  by (cases suffix) (auto simp: zone_ok_def)

lemma rsplit_zone:
  "(\<exists>region suffix. rsplit_once (CHR ''-'') z = Some (region, suffix) \<and> zone_ok region suffix) \<longleftrightarrow>
   zone_name_ok z"
  unfolding rsplit_once_Some_iff zone_name_ok_def using zone_ok_no_dash by blast

lemma validate_placements_iff:
  "validate_placements archive zones names ps = Inr () \<longleftrightarrow>
     (\<forall>p \<in> set ps. validate_bucket (rb_bucket p) = Inr () \<and> zone_name_ok (rb_zone p)) \<and>
     distinct (map rb_zone ps) \<and> distinct (map rb_bucket ps) \<and>
     set (map rb_zone ps) \<inter> set zones = {} \<and> set (map rb_bucket ps) \<inter> set names = {} \<and>
     archive \<notin> set (map rb_bucket ps)"
proof (induction archive zones names ps rule: validate_placements.induct)
  case (2 archive zones names p ps)
  show ?case
  proof (cases "zone_name_ok (rb_zone p)")
    case True
    then obtain region suffix where s: "rsplit_once (CHR ''-'') (rb_zone p) = Some (region, suffix)"
      "zone_ok region suffix" using rsplit_zone by blast
    with 2 show ?thesis by (auto simp: result_simps True)
  next
    case False
    then have "\<not> zone_ok region suffix"
      if "rsplit_once (CHR ''-'') (rb_zone p) = Some (region, suffix)" for region suffix
      using that rsplit_zone by blast
    with False show ?thesis by (auto simp: result_simps)
  qed
qed simp

text \<open>A bucket name of graphic ASCII characters has nothing to trim.\<close>

lemma white_space_not_graphic:
  "w \<in> set white_space \<Longrightarrow> w \<noteq> [] \<and>
     \<not> (32 < (of_char (hd w) :: nat) \<and> (of_char (hd w) :: nat) < 127) \<and>
     \<not> (32 < (of_char (last w) :: nat) \<and> (of_char (last w) :: nat) < 127)"
  by (auto simp: white_space_def)

lemma validate_bucket_graphic:
  assumes "b \<noteq> []" "length b \<le> 222" "list_all (\<lambda>c. 32 < (of_char c :: nat) \<and> (of_char c :: nat) < 127) b"
    "CHR ''/'' \<notin> set b"
  shows "validate_bucket b = Inr ()"
proof -
  have "\<not> starts_with w b \<and> \<not> ends_with w b" if "w \<in> set white_space" for w
  proof -
    note w = white_space_not_graphic [OF that]
    have "hd w \<in> set b" if "starts_with w b" using that w by (auto simp: starts_with_iff)
    moreover have "last w \<in> set b" if "ends_with w b" using that w by (auto simp: ends_with_iff)
    ultimately show ?thesis using assms(3) w unfolding list_all_iff by blast
  qed
  with assms show ?thesis by (simp add: validate_bucket_def is_trimmed_def list_all_iff)
qed


definition sample_rapid :: "RapidBucket list" where
  "sample_rapid = [\<lparr>rb_bucket = ''log-a'', rb_zone = ''us-east1-b''\<rparr>, \<lparr>rb_bucket = ''log-b'', rb_zone = ''us-east1-c''\<rparr>]"


end
