(* ===== verification/Recovery.thy ===== *)
theory Recovery
  imports State_Snapshots Bucket_Store
begin

text \<open>
  Rebuilding a database from its commits (\<open>bucket/recovery.rs\<close>). A commit carries the
  LTX files of its own transactions and names the commit it builds on; \<open>resolve\<close> walks
  these dependencies back to a full copy or to a compacted checkpoint. The history it reads
  is the trait \<open>SnapshotHistory\<close>: two operations on a state of their own. The walk is a
  loop over stored data, so it is a \<open>partial_function\<close>; that it always returns is a
  theorem, and rests on the validation of the commits it reads.
\<close>

section \<open>Data\<close>

record PrefetchedCheckpoint =
  pc_source :: SnapshotRef
  pc_bytes :: "bytes option"

record Checkpoint =
  cp_source :: SnapshotRef
  cp_sqlite :: SqliteSnapshot

record 'h snapshot_history =
  h_read :: "string \<Rightarrow> 'h \<Rightarrow> bytes result \<times> 'h"
  h_checkpoint :: "string \<Rightarrow> 'h \<Rightarrow> bytes option result \<times> 'h"

record ResolvedSqlite =
  rs_sqlite :: SqliteSnapshot
  rs_checkpoint_version :: u64
  rs_checkpoint :: bool
  rs_parents :: nat
  rs_base_bytes :: nat
  rs_log_bytes :: nat

record checkpoint_json =
  cj_envelope :: "Checkpoint envelope_json"
  cj_plain :: "bytes \<Rightarrow> Checkpoint result"

section \<open>Checkpoints\<close>

definition checkpoint_encode :: "checkpoint_json \<Rightarrow> Checkpoint \<Rightarrow> bytes result" where
  "checkpoint_encode CJ c =
     binary_encode (cj_envelope CJ) (c\<lparr>cp_sqlite := (cp_sqlite c)\<lparr>files := []\<rparr>\<rparr>) (files (cp_sqlite c))"

definition checkpoint_decode ::
    "checkpoint_json \<Rightarrow> bytes \<Rightarrow> SnapshotRef \<Rightarrow> u64 \<Rightarrow> SqliteSnapshot result" where
  "checkpoint_decode CJ b source tx =
     rbind (if is_binary b then
              rbind (binary_decode (cj_envelope CJ) b) (\<lambda>(c, fs).
              ensure (files (cp_sqlite c) = []) ''duplicate LTX files'' (
              Inr (c\<lparr>cp_sqlite := (cp_sqlite c)\<lparr>files := fs\<rparr>\<rparr>)))
            else cj_plain CJ b) (\<lambda>c.
     ensure (cp_source c = source) ''checkpoint source mismatch'' (
     rbind (sqlite_validate (cp_sqlite c) (sr_state_version source)) (\<lambda>_.
     ensure (parent (cp_sqlite c) = None \<and> txid (cp_sqlite c) = tx) ''checkpoint transaction mismatch'' (
     Inr (cp_sqlite c)))))"

section \<open>The dependency walk\<close>

text \<open>What the loop checks of a dependency before it becomes the current commit.\<close>

definition dependency :: "crypto \<Rightarrow> 'v snapshot_json \<Rightarrow> SnapshotRef \<Rightarrow> u64 \<Rightarrow> bytes \<Rightarrow> 'v StateSnapshot result" where
  "dependency C J p first b =
     rbind (with_context (''verify SQLite dependency '' @ sr_object p) (ref_verify C p b)) (\<lambda>_.
     rbind (snapshot_decode J b) (\<lambda>current.
     rbind (validate_object C current (sr_object p)) (\<lambda>_.
     ensure (state_version current = sr_state_version p \<and> request_id current = sr_request_id p)
       ''SQLite dependency identity mismatch'' (
     ensure (checked_add (txid (sqlite current)) 1 = Some first) ''SQLite dependency transaction gap'' (
     Inr current)))))"

definition ltx_size :: "LtxFile list \<Rightarrow> nat" where
  "ltx_size fs = sum_list (map (\<lambda>f. length (ltx_data f)) fs)"

text \<open>\<open>segments\<close> holds the pushed file lists, the last pushed first.\<close>

definition resolved :: "u64 \<Rightarrow> LtxFile list list \<Rightarrow> SnapshotRef \<Rightarrow> bool \<Rightarrow> nat \<Rightarrow> ResolvedSqlite" where
  "resolved tx segments reference cp parents =
     (let base = (case segments of [] \<Rightarrow> 0 | s # _ \<Rightarrow> ltx_size s) in
      \<lparr>rs_sqlite = \<lparr>txid = tx, parent = None, files = concat segments\<rparr>,
       rs_checkpoint_version = sr_state_version reference, rs_checkpoint = cp, rs_parents = parents,
       rs_base_bytes = base, rs_log_bytes = sum_list (map ltx_size segments) - base\<rparr>)"

definition checkpoint_bytes :: "'h snapshot_history \<Rightarrow> 'v StateSnapshot \<Rightarrow> SnapshotRef \<Rightarrow>
    PrefetchedCheckpoint option \<Rightarrow> 'h \<Rightarrow> bytes option result \<times> 'h" where
  "checkpoint_bytes H current reference prefetched h =
     (if parent (sqlite current) = None then (Inr None, h)
      else case prefetched of
        Some cp \<Rightarrow> (Inr (pc_bytes cp), h)
      | None \<Rightarrow> h_checkpoint H (sr_object reference) h)"

partial_function (option) resolve_loop ::
    "crypto \<Rightarrow> 'v snapshot_json \<Rightarrow> checkpoint_json \<Rightarrow> 'h snapshot_history \<Rightarrow> u64 \<Rightarrow> 'v StateSnapshot \<Rightarrow>
     SnapshotRef \<Rightarrow> PrefetchedCheckpoint option \<Rightarrow> LtxFile list list \<Rightarrow> nat \<Rightarrow> 'h \<Rightarrow>
     (ResolvedSqlite result \<times> 'h) option" where
  "resolve_loop C J CJ H tx current reference prefetched segments parents h =
     (case checkpoint_bytes H current reference prefetched h of
        (Inl e, h) \<Rightarrow> Some (Inl e, h)
      | (Inr (Some b), h) \<Rightarrow>
          Some (rbind (with_context (''validate checkpoint for '' @ sr_object reference)
                         (checkpoint_decode CJ b reference (txid (sqlite current)))) (\<lambda>sq.
                Inr (resolved tx (files sq # segments) reference True parents)), h)
      | (Inr None, h) \<Rightarrow>
          (case files (sqlite current) of
             [] \<Rightarrow> Some (Inl ''panic: index out of bounds'', h)
           | f # fs \<Rightarrow>
               (case parent (sqlite current) of
                  None \<Rightarrow> Some (Inr (resolved tx ((f # fs) # segments) reference False parents), h)
                | Some p \<Rightarrow>
                    (case h_read H (sr_object p) h of
                       (Inl e, h) \<Rightarrow> Some (Inl (''read SQLite dependency '' @ sr_object p), h)
                     | (Inr b, h) \<Rightarrow>
                         (case dependency C J p (ltx_first f) b of
                            Inl e \<Rightarrow> Some (Inl e, h)
                          | Inr next \<Rightarrow>
                              resolve_loop C J CJ H tx next p None ((f # fs) # segments) (Suc parents) h)))))"

definition resolve ::
    "crypto \<Rightarrow> 'v snapshot_json \<Rightarrow> checkpoint_json \<Rightarrow> 'h snapshot_history \<Rightarrow> string \<Rightarrow> bytes \<Rightarrow>
     PrefetchedCheckpoint option \<Rightarrow> 'h \<Rightarrow> (ResolvedSqlite result \<times> 'h) option" where
  "resolve C J CJ H obj b prefetched h =
     (case rbind (snapshot_decode J b) (\<lambda>current. rbind (validate_object C current obj) (\<lambda>_. Inr current)) of
        Inl e \<Rightarrow> Some (Inl e, h)
      | Inr current \<Rightarrow>
          (let reference = snapshot_ref_new C obj current b;
               prefetched = Option.bind prefetched (\<lambda>cp. if pc_source cp = reference then Some cp else None)
           in resolve_loop C J CJ H (txid (sqlite current)) current reference prefetched [] 0 h))"

text \<open>\<open>StoredHistory\<close>: a history read from a snapshot store.\<close>

definition stored_history :: "(string \<Rightarrow> 's \<Rightarrow> bytes option result) \<Rightarrow> 's snapshot_history" where
  "stored_history get =
     \<lparr>h_read = (\<lambda>obj s. (rbind (get obj s) (context_opt ''SQLite dependency missing''), s)),
      h_checkpoint = (\<lambda>obj s. (get (obj @ ''.checkpoint'') s, s))\<rparr>"

text \<open>\<open>SnapshotStore::restore_prefetched\<close>.\<close>

definition restore_prefetched ::
    "crypto \<Rightarrow> 'v snapshot_json \<Rightarrow> checkpoint_json \<Rightarrow> (string \<Rightarrow> 's \<Rightarrow> bytes option result) \<Rightarrow> string \<Rightarrow> bytes \<Rightarrow>
     PrefetchedCheckpoint option \<Rightarrow> 's \<Rightarrow> SqliteSnapshot result option" where
  "restore_prefetched C J CJ get obj b prefetched s =
     map_option (\<lambda>(r, _). rbind r (\<lambda>rs. Inr (rs_sqlite rs)))
       (resolve C J CJ (stored_history get) obj b prefetched s)"

section \<open>The walk returns and rebuilds every transaction\<close>

text \<open>The files gathered so far cover the transactions after the current commit.\<close>

definition gathered :: "u64 \<Rightarrow> 'v StateSnapshot \<Rightarrow> LtxFile list list \<Rightarrow> bool" where
  "gathered tx current segments \<longleftrightarrow> unat (txid (sqlite current)) \<le> unat tx \<and>
     concat (map ltx_txids (concat segments)) = [Suc (unat (txid (sqlite current))) ..< Suc (unat tx)]"

definition complete :: "u64 \<Rightarrow> SqliteSnapshot \<Rightarrow> bool" where
  "complete tx sq \<longleftrightarrow> txid sq = tx \<and> parent sq = None \<and>
     concat (map ltx_txids (files sq)) = [1 ..< Suc (unat tx)]"

lemma gathered_push:
  assumes "gathered tx current segments" "n \<le> Suc (unat (txid (sqlite current)))"
    and "concat (map ltx_txids fs) = [n ..< Suc (unat (txid (sqlite current)))]"
  shows "concat (map ltx_txids (concat (fs # segments))) = [n ..< Suc (unat tx)]"
proof -
  have "[n ..< Suc (unat tx)] =
      [n ..< Suc (unat (txid (sqlite current)))] @ [Suc (unat (txid (sqlite current))) ..< Suc (unat tx)]"
    using upt_add_eq_append [OF assms(2), of "unat tx - unat (txid (sqlite current))"] assms(1)
    by (simp add: gathered_def del: upt_Suc)
  with assms(1,3) show ?thesis by (simp add: gathered_def del: upt_Suc)
qed

lemma complete_resolved:
  assumes "gathered tx current segments"
    and "concat (map ltx_txids fs) = [1 ..< Suc (unat (txid (sqlite current)))]"
  shows "complete tx (rs_sqlite (resolved tx (fs # segments) reference cp parents))"
  using gathered_push [OF assms(1) _ assms(2)] by (simp add: complete_def resolved_def Let_def del: upt_Suc)

lemma checkpoint_decode_covers:
  assumes "checkpoint_decode CJ b source tx = Inr sq"
  shows "concat (map ltx_txids (files sq)) = [1 ..< Suc (unat tx)]"
proof -
  from assms have v: "sqlite_validate sq (sr_state_version source) = Inr ()" and p: "parent sq = None" "txid sq = tx"
    by (auto simp: checkpoint_decode_def result_simps)
  from sqlite_validate_covers [OF v] sqlite_validate_Inr_D [OF v] p show ?thesis
    by (metis list.sel(1) unsigned_1)
qed

lemma dependency_Inr:
  assumes "dependency C J p first b = Inr next"
  shows "snapshot_validate next = Inr ()" "state_version next = sr_state_version p"
    "unat first = Suc (unat (txid (sqlite next)))"
  using assms snapshot_decode_validated
  by (auto simp: dependency_def result_simps checked_add_Some_iff)

lemma sqlite_validate_first_le:
  assumes "sqlite_validate s v = Inr u"
  shows "unat (ltx_first (hd (files s))) \<le> Suc (unat (txid s))"
  using assms
proof (rule sqlite_validate_Inr_D)
  fix f fs nxt
  assume "files s = f # fs" "sqlite_chain (ltx_first f) (f # fs) = Inr nxt" "unat nxt = unat (txid s) + 1"
  with sqlite_chain_covers [of "ltx_first f" "f # fs" nxt] show ?thesis by simp
qed

text \<open>The measure is the version of the current commit: a dependency is older.\<close>

lemma resolve_loop_returns:
  assumes "snapshot_validate current = Inr ()" "gathered tx current segments"
  shows "\<exists>r h'. resolve_loop C J CJ H tx current reference prefetched segments parents h = Some (r, h') \<and>
     (\<forall>rs. r = Inr rs \<longrightarrow> complete tx (rs_sqlite rs))"
  using assms
proof (induction "unat (state_version current)" arbitrary: current reference prefetched segments parents h rule: less_induct)
  case less
  have v: "sqlite_validate (sqlite current) (state_version current) = Inr ()"
    using less.prems(1) by (rule snapshot_validate_Inr_D)
  obtain f fs where f: "files (sqlite current) = f # fs"
    "(ltx_first f = 1) = (parent (sqlite current) = None)"
    "\<And>p. parent (sqlite current) = Some p \<Longrightarrow> sr_state_version p < state_version current"
    using sqlite_validate_Inr_D [OF v] by metis
  note cov = sqlite_validate_covers [OF v]
  obtain cr h1 where cp: "checkpoint_bytes H current reference prefetched h = (cr, h1)"
    by (cases "checkpoint_bytes H current reference prefetched h")
  show ?case
  proof (cases cr)
    case (Inl e)
    then show ?thesis by (subst resolve_loop.simps) (simp add: cp)
  next
    case (Inr ob)
    show ?thesis
    proof (cases ob)
      case (Some b)
      show ?thesis
        unfolding resolve_loop.simps [of C J CJ H tx current]
        using less.prems(2) checkpoint_decode_covers [of CJ b reference]
        by (auto simp: cp Inr Some result_simps intro!: complete_resolved)
    next
      case None
      show ?thesis
      proof (cases "parent (sqlite current)")
        case np: None
        then have "concat (map ltx_txids (f # fs)) = [1 ..< Suc (unat (txid (sqlite current)))]"
          using cov f by (simp del: upt_Suc)
        from complete_resolved [OF less.prems(2) this] show ?thesis
          by (subst resolve_loop.simps) (simp add: cp Inr None f np)
      next
        case (Some p)
        obtain rr h2 where r: "h_read H (sr_object p) h1 = (rr, h2)" by (cases "h_read H (sr_object p) h1")
        show ?thesis
        proof (cases "rbind rr (dependency C J p (ltx_first f))")
          case (Inl e)
          then show ?thesis
            by (cases rr; subst resolve_loop.simps) (auto simp: cp Inr None f Some r)
        next
          case dep: (Inr nxt)
          then obtain b where b: "rr = Inr b" "dependency C J p (ltx_first f) b = Inr nxt"
            by (auto simp: result_simps)
          note d = dependency_Inr [OF b(2)]
          have "gathered tx nxt ((f # fs) # segments)"
          proof -
            have le: "unat (ltx_first f) \<le> Suc (unat (txid (sqlite current)))"
              using sqlite_validate_first_le [OF v] f(1) by simp
            have "concat (map ltx_txids (f # fs)) = [unat (ltx_first f) ..< Suc (unat (txid (sqlite current)))]"
              using cov f(1) by (simp del: upt_Suc)
            from gathered_push [OF less.prems(2) le this] d(3) le less.prems(2) show ?thesis
              by (simp add: gathered_def del: upt_Suc)
          qed
          moreover have "unat (state_version nxt) < unat (state_version current)"
            using f(3) [OF Some] d(2) by (simp add: word_less_nat_alt)
          ultimately show ?thesis
            using less.hyps [of nxt "(f # fs) # segments" p None "Suc parents" h2] d(1)
            by (subst resolve_loop.simps) (simp add: cp Inr None f Some r b)
        qed
      qed
    qed
  qed
qed

text \<open>C33. Recovery always returns: whatever the stored objects contain, the walk over the
  dependencies of a commit ends, with a database or with an error.\<close>

theorem resolve_returns:
  "\<exists>r h'. resolve C J CJ H obj b prefetched h = Some (r, h')"
proof (cases "rbind (snapshot_decode J b) (\<lambda>current. rbind (validate_object C current obj) (\<lambda>_. Inr current))")
  case (Inl e)
  then show ?thesis by (simp add: resolve_def)
next
  case (Inr current)
  then have "snapshot_validate current = Inr ()"
    using snapshot_decode_validated by (auto simp: result_simps)
  moreover have "gathered (txid (sqlite current)) current []" by (simp add: gathered_def)
  ultimately show ?thesis
    using resolve_loop_returns by (fastforce simp: resolve_def Inr Let_def)
qed

text \<open>C28. What recovery returns is a complete database: it depends on nothing, it ends at the
  transaction of the requested commit, and its LTX files list every transaction from 1 to
  that one exactly once, in order.\<close>

theorem resolve_rebuilds_every_transaction:
  assumes "resolve C J CJ H obj b prefetched h = Some (Inr rs, h')"
  shows "\<exists>s. snapshot_decode J b = Inr s \<and> txid (rs_sqlite rs) = txid (sqlite s) \<and>
     parent (rs_sqlite rs) = None \<and>
     concat (map ltx_txids (files (rs_sqlite rs))) = [1 ..< Suc (unat (txid (sqlite s)))]"
proof -
  from assms obtain current where dec: "snapshot_decode J b = Inr current"
    and loop: "resolve_loop C J CJ H (txid (sqlite current)) current (snapshot_ref_new C obj current b)
      (Option.bind prefetched (\<lambda>cp. if pc_source cp = snapshot_ref_new C obj current b then Some cp else None))
      [] 0 h = Some (Inr rs, h')"
    by (auto simp: resolve_def Let_def result_simps split: sum.splits)
  have "gathered (txid (sqlite current)) current []" by (simp add: gathered_def)
  from resolve_loop_returns [OF snapshot_decode_validated [OF dec] this, of C J CJ H
      "snapshot_ref_new C obj current b"
      "Option.bind prefetched (\<lambda>cp. if pc_source cp = snapshot_ref_new C obj current b then Some cp else None)" 0 h]
  have "complete (txid (sqlite current)) (rs_sqlite rs)" unfolding loop by simp
  with dec show ?thesis unfolding complete_def by blast
qed

text \<open>C36. A checkpoint that the compactor stores for a commit is accepted for exactly that
  commit and returns the database it was made from.\<close>

theorem checkpoint_roundtrip:
  assumes "envelope_json_ok (cj_envelope CJ)" and "checkpoint_encode CJ c = Inr b" and "length b < 2 ^ 64"
    and "sqlite_validate (cp_sqlite c) (sr_state_version (cp_source c)) = Inr ()"
    and "parent (cp_sqlite c) = None"
  shows "checkpoint_decode CJ b source tx = Inr sq \<longleftrightarrow>
    source = cp_source c \<and> tx = txid (cp_sqlite c) \<and> sq = cp_sqlite c"
proof -
  from assms(2) have enc: "binary_encode (cj_envelope CJ) (c\<lparr>cp_sqlite := (cp_sqlite c)\<lparr>files := []\<rparr>\<rparr>)
      (files (cp_sqlite c)) = Inr b" by (simp add: checkpoint_encode_def)
  note dec = binary_roundtrip [OF assms(1) enc assms(3)]
  show ?thesis
    using is_binary_encoded [OF enc] dec assms(4,5)
    by (auto simp: checkpoint_decode_def result_simps)
qed

section \<open>A concrete recovery\<close>

definition sample_history :: "unit snapshot_history" where
  "sample_history = stored_history (\<lambda>_ _. Inr None)"

definition sample_checkpoint_json :: checkpoint_json where
  "sample_checkpoint_json =
     (let env = \<lparr>env_value = \<lparr>cp_source = snapshot_ref_new hex_crypto ''o'' sample_snapshot sample_bytes,
                              cp_sqlite = (sqlite sample_snapshot)\<lparr>files := []\<rparr>\<rparr>,
                 env_files = [file_header sample_ltx]\<rparr>
      in \<lparr>cj_envelope = \<lparr>to_vec = (\<lambda>e. if e = env then Inr (str_bytes ''{}'') else Inl ''unsupported''),
                         from_slice = (\<lambda>b. if b = str_bytes ''{}'' then Inr env else Inl ''malformed'')\<rparr>,
          cj_plain = (\<lambda>_. Inl ''malformed'')\<rparr>)"

definition sample_checkpoint :: Checkpoint where
  "sample_checkpoint = \<lparr>cp_source = snapshot_ref_new hex_crypto ''o'' sample_snapshot sample_bytes,
     cp_sqlite = sqlite sample_snapshot\<rparr>"

lemma sample_files: "files (sqlite sample_snapshot) = [sample_ltx]" "parent (sqlite sample_snapshot) = None"
  "txid (sqlite sample_snapshot) = 2" "state_version sample_snapshot = 1"
  by (simp_all add: sample_snapshot_def)

lemma sample_decode: "snapshot_decode sample_json sample_bytes = Inr sample_snapshot"
  by (rule snapshot_decode_encode [OF sample_json_ok sample_encode sample_bytes_length])

lemma sample_resolve:
  "\<exists>rs. resolve hex_crypto sample_json sample_checkpoint_json sample_history ''o'' sample_bytes None () =
     Some (Inr rs, ()) \<and> rs_sqlite rs = sqlite sample_snapshot"
  by (simp add: resolve_def sample_decode validate_object_def sample_files Let_def)
     (subst resolve_loop.simps, simp add: checkpoint_bytes_def sample_files resolved_def sample_snapshot_def)

theorem resolve_rebuilds_every_transaction_witness:
  "\<exists>rs. resolve hex_crypto sample_json sample_checkpoint_json sample_history ''o'' sample_bytes None () =
     Some (Inr rs, ()) \<and> concat (map ltx_txids (files (rs_sqlite rs))) = [1, 2]"
proof -
  obtain rs where rs: "resolve hex_crypto sample_json sample_checkpoint_json sample_history ''o'' sample_bytes None () =
     Some (Inr rs, ())" using sample_resolve by blast
  from resolve_rebuilds_every_transaction [OF rs] show ?thesis
    using rs by (auto simp: sample_decode sample_files upt_rec)
qed

theorem checkpoint_roundtrip_witness:
  "\<exists>b. checkpoint_encode sample_checkpoint_json sample_checkpoint = Inr b \<and>
     checkpoint_decode sample_checkpoint_json b (cp_source sample_checkpoint) 2 = Inr (cp_sqlite sample_checkpoint)"
proof -
  let ?CJ = sample_checkpoint_json and ?c = sample_checkpoint
  have ok: "envelope_json_ok (cj_envelope ?CJ)"
    by (auto simp: envelope_json_ok_def sample_checkpoint_json_def Let_def split: if_splits)
  have "to_vec (cj_envelope ?CJ) \<lparr>env_value = ?c\<lparr>cp_sqlite := (cp_sqlite ?c)\<lparr>files := []\<rparr>\<rparr>,
      env_files = map file_header (files (cp_sqlite ?c))\<rparr> = Inr (str_bytes ''{}'')"
    by (simp add: sample_checkpoint_json_def sample_checkpoint_def sample_files Let_def)
  moreover have "length (str_bytes ''{}'') < 2 ^ 32" by (simp add: str_bytes_def)
  ultimately have enc: "checkpoint_encode ?CJ ?c =
      Inr (MAGIC @ [2, 0, 0, 0] @ str_bytes ''{}'' @ concat (map ltx_data (files (cp_sqlite ?c))))"
    by (simp only: checkpoint_encode_def binary_encode_def rbind_simps ensure_simps sample_header_length)
  have len: "length (MAGIC @ [2, 0, 0, 0] @ str_bytes ''{}'' @ concat (map ltx_data (files (cp_sqlite ?c)))) < 2 ^ 64"
    by (simp add: sample_checkpoint_def sample_files sample_ltx_def MAGIC_def str_bytes_def)
  have sq: "sqlite_validate (cp_sqlite ?c) (sr_state_version (cp_source ?c)) = Inr ()" "parent (cp_sqlite ?c) = None"
    "txid (cp_sqlite ?c) = 2"
    using snapshot_validate_Inr_D [OF sample_snapshot_valid]
    by (simp_all add: sample_checkpoint_def sample_files snapshot_ref_new_def)
  show ?thesis
    by (intro exI conjI, rule enc)
       (simp only: checkpoint_roundtrip [OF ok enc len sq(1,2)] sq(3) simp_thms)
qed

end
