(* ===== verification/Ownership.thy ===== *)
theory Ownership
  imports State_Snapshots Store_Config "HOL-Library.Option_ord" "HOL-Library.Product_Lexorder"
begin

text \<open>
  The ownership record of an actor and what the runtime computes from it
  (\<open>bucket/runtime.rs\<close>, \<open>bucket/runtime/activation.rs\<close>, \<open>host_leases.rs\<close>,
  \<open>placement.rs\<close>): leases and their requests, the epoch under which an owner writes, the
  stream of its snapshot objects, which snapshot is the newest, and the records that an
  activation, a renewal and a release install. These are the pure parts; the operations on
  storage are in \<open>Runtime_Storage\<close>, their interleavings in \<open>Lease_Protocol\<close>.
\<close>

section \<open>Leases\<close>

datatype HostId = HostId (host_str: string)

record HostLease =
  hl_id :: HostId
  hl_session_id :: string
  hl_route :: string
  hl_expires_at_ms :: u64

record HostLeaseRequest =
  hr_id :: HostId
  hr_session_id :: string
  hr_route :: string
  hr_duration_ms :: u64

definition MAX_HOST_LEASE_DURATION_MS :: u64 where "MAX_HOST_LEASE_DURATION_MS = 60000"

definition validate_duration :: "HostLeaseRequest \<Rightarrow> unit result" where
  "validate_duration r =
     ensure (hr_duration_ms r > 0) ''host lease duration must be positive'' (
     ensure (hr_duration_ms r \<le> MAX_HOST_LEASE_DURATION_MS)
       (''host lease duration must not exceed '' @ show_u64 MAX_HOST_LEASE_DURATION_MS @ ''ms'') (
     Inr ()))"

definition new_lease :: "u64 \<Rightarrow> HostLeaseRequest \<Rightarrow> HostLease result" where
  "new_lease now r =
     rbind (validate_duration r) (\<lambda>_.
     ensure (host_str (hr_id r) \<noteq> [] \<and> hr_session_id r \<noteq> []) ''activation identity missing'' (
     rbind (context_opt ''lease expiration overflow'' (checked_add now (hr_duration_ms r))) (\<lambda>expires.
     Inr \<lparr>hl_id = hr_id r, hl_session_id = hr_session_id r, hl_route = hr_route r,
          hl_expires_at_ms = expires\<rparr>)))"

section \<open>Ownership records\<close>

record Ownership =
  ow_persistence :: SnapshotStoreConfig
  ow_sealed :: bool
  ow_lease :: HostLease
  ow_mutation :: string
  ow_actor :: ActorKey
  ow_epoch :: u64
  ow_region :: string
  ow_base :: "SnapshotRef option"

record OwnershipHint =
  oh_generation :: int
  oh_record :: Ownership

record ObjectPlacement =
  op_lease :: HostLease
  op_object :: ActorStorageKey
  op_owner :: HostId
  op_owner_epoch :: u64
  op_home_region :: string
  op_state_version :: u64
  op_state_object :: "string option"
  op_last_request_id :: "string option"

definition apply_snapshot :: "ObjectPlacement \<Rightarrow> SnapshotRef option \<Rightarrow> ObjectPlacement" where
  "apply_snapshot p snapshot =
     (case snapshot of
        None \<Rightarrow> p
      | Some r \<Rightarrow> p\<lparr>op_state_version := sr_state_version r, op_state_object := Some (sr_object r),
                   op_last_request_id := Some (sr_request_id r)\<rparr>)"

definition placement :: "Ownership \<Rightarrow> ObjectPlacement" where
  "placement r =
     apply_snapshot
       \<lparr>op_lease = ow_lease r, op_object = storage_key (ow_actor r), op_owner = hl_id (ow_lease r),
        op_owner_epoch = ow_epoch r, op_home_region = ow_region r, op_state_version = 0,
        op_state_object = None, op_last_request_id = None\<rparr>
       (ow_base r)"

definition stream :: "crypto \<Rightarrow> Ownership \<Rightarrow> StateStream result" where
  "stream C r =
     rbind (snapshot_object_name C (ow_actor r) 1 (show_u64_032x (ow_epoch r))) (\<lambda>name.
     rbind (context_opt ''panic: unwrap on None'' (strip_suffix ''1.json'' name)) (\<lambda>pre.
     Inr \<lparr>ss_session = hl_session_id (ow_lease r), ss_prefix = pre, ss_owner_epoch = ow_epoch r,
          ss_base_version = (case ow_base r of None \<Rightarrow> 0 | Some b \<Rightarrow> sr_state_version b)\<rparr>))"

definition ownership_key :: "crypto \<Rightarrow> ActorStorageKey \<Rightarrow> string result" where
  "ownership_key C obj = owner C obj"

definition write_plan :: "crypto \<Rightarrow> Ownership \<Rightarrow> u64 \<Rightarrow> WritePlan result" where
  "write_plan C r version =
     ensure (version > 0) ''state version must be positive'' (
     rbind (stream C r) (\<lambda>st.
     Inr \<lparr>wp_stream = st, wp_state_version = version, wp_object_name = stream_object st version\<rparr>))"

section \<open>Which snapshot is newer\<close>

record LoadedSnapshot =
  ls_reference :: SnapshotRef
  ls_bytes :: bytes

definition snapshot_position :: "string \<Rightarrow> (u64 \<times> u64) option" where
  "snapshot_position obj =
     (case rsplit_on (CHR ''/'') obj of
        name # parts \<Rightarrow>
          Option.bind (strip_suffix ''.json'' name) (\<lambda>stem.
          Option.bind (parse_u64 stem) (\<lambda>v.
          case parts of [] \<Rightarrow> None
          | dir # _ \<Rightarrow> Option.bind (from_str_radix 16 dir) (\<lambda>epoch. Some (epoch, v))))
      | [] \<Rightarrow> None)"

definition advance :: "SnapshotRef option \<Rightarrow> SnapshotRef option \<Rightarrow> SnapshotRef option result" where
  "advance current candidate =
     (case candidate of
        None \<Rightarrow> Inr current
      | Some c \<Rightarrow>
          (case current of
             None \<Rightarrow> Inr (Some c)
           | Some r \<Rightarrow>
               ensure (snapshot_position (sr_object r) \<noteq> snapshot_position (sr_object c) \<or> r = c)
                 ''conflicting snapshot witnesses'' (
               Inr (if snapshot_position (sr_object r) < snapshot_position (sr_object c)
                    then Some c else current))))"

definition decode_snapshot :: "crypto \<Rightarrow> 'v snapshot_json \<Rightarrow> string \<Rightarrow> bytes \<Rightarrow> LoadedSnapshot result" where
  "decode_snapshot C J obj b =
     rbind (snapshot_decode J b) (\<lambda>s.
     ensure (snapshot_position obj = Some (owner_epoch s, state_version s))
       ''snapshot identity does not match its object'' (
     Inr \<lparr>ls_reference = snapshot_ref_new C obj s b, ls_bytes = b\<rparr>))"

section \<open>The records an activation, a renewal and a release install\<close>

definition validate_activation ::
    "SnapshotStoreConfig \<Rightarrow> u64 \<Rightarrow> ActorKey \<Rightarrow> HostLeaseRequest \<Rightarrow> string \<Rightarrow> Ownership option \<Rightarrow> unit result" where
  "validate_activation config now actor request region current =
     (case current of
        None \<Rightarrow> Inr ()
      | Some r \<Rightarrow>
          ensure (same_backend (ow_persistence r) config)
            ''actor persistence configuration changed; an explicit state migration is required'' (
          ensure (ow_actor r = actor \<and> ow_region r = region) ''ownership scope cannot change'' (
          ensure (hl_id (ow_lease r) \<noteq> hr_id request \<or> hl_session_id (ow_lease r) \<noteq> hr_session_id request)
            ''activation session cannot be reused'' (
          ensure (hl_expires_at_ms (ow_lease r) \<le> now) ''previous owner lease is still active'' (
          Inr ())))))"

definition activation_record ::
    "SnapshotStoreConfig \<Rightarrow> u64 \<Rightarrow> ActorKey \<Rightarrow> HostLeaseRequest \<Rightarrow> string \<Rightarrow> Ownership option \<Rightarrow> Ownership result" where
  "activation_record config now actor request region current =
     rbind (context_opt ''owner epoch overflow''
              (case current of None \<Rightarrow> Some 1 | Some r \<Rightarrow> checked_add (ow_epoch r) 1)) (\<lambda>epoch.
     rbind (new_lease now request) (\<lambda>lease.
     Inr \<lparr>ow_persistence = config, ow_sealed = False, ow_lease = lease, ow_mutation = [],
          ow_actor = actor, ow_epoch = epoch, ow_region = region,
          ow_base = Option.bind current ow_base\<rparr>))"

text \<open>A hint is used only for a sealed record whose lease has run out.\<close>

definition usable_hint :: "u64 \<Rightarrow> ActorKey \<Rightarrow> HostLeaseRequest \<Rightarrow> string \<Rightarrow> OwnershipHint \<Rightarrow> bool" where
  "usable_hint now actor request region hint \<longleftrightarrow>
     ow_sealed (oh_record hint) \<and> oh_generation hint > 0 \<and> ow_actor (oh_record hint) = actor \<and>
     ow_region (oh_record hint) = region \<and> hl_expires_at_ms (ow_lease (oh_record hint)) \<le> now \<and>
     (hl_id (ow_lease (oh_record hint)) \<noteq> hr_id request \<or>
      hl_session_id (ow_lease (oh_record hint)) \<noteq> hr_session_id request)"

definition renewal_check :: "u64 \<Rightarrow> ActorKey \<Rightarrow> HostLeaseRequest \<Rightarrow> Ownership \<Rightarrow> unit result" where
  "renewal_check now actor request r =
     ensure (ow_actor r = actor \<and> hl_id (ow_lease r) = hr_id request \<and>
             hl_session_id (ow_lease r) = hr_session_id request) ''actor ownership changed'' (
     ensure (now < hl_expires_at_ms (ow_lease r)) ''expired activation cannot renew'' (
     ensure (hl_route (ow_lease r) = hr_route request) ''activation route cannot change'' (
     Inr ())))"

record SessionCheckpoint =
  sc_snapshot :: "SnapshotRef option"

definition releasable :: "HostId \<Rightarrow> string \<Rightarrow> Ownership \<Rightarrow> bool" where
  "releasable host session r \<longleftrightarrow> hl_id (ow_lease r) = host \<and> hl_session_id (ow_lease r) = session \<and>
     hl_expires_at_ms (ow_lease r) \<noteq> 0"

definition released :: "SessionCheckpoint option \<Rightarrow> Ownership \<Rightarrow> Ownership" where
  "released checkpoint r =
     (let r = r\<lparr>ow_lease := (ow_lease r)\<lparr>hl_expires_at_ms := 0\<rparr>\<rparr> in
      case checkpoint of
        None \<Rightarrow> r
      | Some c \<Rightarrow> r\<lparr>ow_base := sc_snapshot c, ow_sealed := True\<rparr>)"

section \<open>Facts about streams and positions\<close>

lemma length_digits_of: "2 \<le> b \<Longrightarrow> n < b ^ Suc k \<Longrightarrow> length (digits_of b n) \<le> Suc k"
proof (induction k arbitrary: n)
  case 0
  then show ?case by (subst digits_of.simps) simp
next
  case (Suc k)
  show ?case
  proof (cases "n < b")
    case True
    then show ?thesis by (subst digits_of.simps) simp
  next
    case False
    have "n div b < b ^ Suc k"
      using Suc.prems by (simp add: div_less_iff_less_mult mult.commute)
    with Suc.IH [OF Suc.prems(1)] False Suc.prems(1) show ?thesis
      by (subst digits_of.simps) simp
  qed
qed

lemma digit_char_hex: "d < 16 \<Longrightarrow> is_ascii_hexdigit (digit_char d)"
  by (auto simp: is_ascii_hexdigit_def digit_char_def Let_def)

lemma nonce_ok_epoch: "nonce_ok (show_u64_032x e)"
proof -
  have "unat e < 16 ^ Suc 15" using u64_bound [of e] by simp
  then have "length (show_radix 16 (unat e)) \<le> 16"
    using length_digits_of [of 16 "unat e" 15] by (simp add: show_radix_def)
  moreover have "list_all is_ascii_hexdigit (show_radix 16 (unat e))"
    by (auto simp: show_radix_def list_all_iff intro!: digit_char_hex dest: digits_of_less [rotated])
  ultimately show ?thesis
    by (simp add: nonce_ok_def show_u64_032x_def pad_zero_def list_all_iff is_ascii_hexdigit_def [of "CHR ''0''"])
qed

definition stream_prefix :: "crypto \<Rightarrow> ActorKey \<Rightarrow> u64 \<Rightarrow> string" where
  "stream_prefix C a e = ROOT @ ''snapshots/'' @ actor_path C a @ ''/'' @ show_u64_032x e @ ''/''"

lemma show_u64_1: "show_u64 1 = ''1''"
  by code_simp

lemma stream_Inr_iff [result_simps]:
  "stream C r = Inr st \<longleftrightarrow> actor_validate (ow_actor r) = Inr () \<and>
     st = \<lparr>ss_session = hl_session_id (ow_lease r), ss_prefix = stream_prefix C (ow_actor r) (ow_epoch r),
           ss_owner_epoch = ow_epoch r,
           ss_base_version = (case ow_base r of None \<Rightarrow> 0 | Some b \<Rightarrow> sr_state_version b)\<rparr>"
proof -
  have "strip_suffix ''1.json'' (ROOT @ ''snapshots/'' @ actor_path C (ow_actor r) @ ''/'' @
      show_u64_032x (ow_epoch r) @ ''/'' @ show_u64 1 @ ''.json'') =
      Some (stream_prefix C (ow_actor r) (ow_epoch r))"
    unfolding strip_suffix_Some_iff stream_prefix_def show_u64_1 by simp
  then show ?thesis
    unfolding stream_def by (auto simp: rbind_Inr_iff snapshot_object_name_Inr_iff nonce_ok_epoch)
qed

lemma slash_free_json: "CHR ''/'' \<notin> set (show_u64 v @ ''.json'')"
  by simp

lemma snapshot_position_stream:
  "snapshot_position (stream_prefix C a e @ show_u64 v @ ''.json'') = Some (e, v)"
proof -
  have "stream_prefix C a e @ show_u64 v @ ''.json'' =
      ((ROOT @ ''snapshots/'' @ actor_path C a) @ CHR ''/'' # show_u64_032x e) @
      CHR ''/'' # (show_u64 v @ ''.json'')"
    by (simp add: stream_prefix_def)
  then have "rsplit_on (CHR ''/'') (stream_prefix C a e @ show_u64 v @ ''.json'') =
      (show_u64 v @ ''.json'') # show_u64_032x e # rsplit_on (CHR ''/'') (ROOT @ ''snapshots/'' @ actor_path C a)"
    by (simp only: rsplit_on_snoc [OF slash_free_json] rsplit_on_snoc [OF show_u64_no_slash(2)])
  then show ?thesis
    by (simp only: snapshot_position_def list.case strip_suffix_append Option.bind.simps parse_show_u64
        parse_show_u64_032x)
qed

lemma actor_from_stream_object:
  assumes "crypto_ok C" "actor_validate a = Inr ()"
  shows "actor_from_snapshot C (stream_prefix C a e @ show_u64 v @ ''.json'') = Inr a"
proof -
  have "snapshots C a = Inr (ROOT @ ''snapshots/'' @ actor_path C a @ ''/'')"
    using assms(2) by (simp add: snapshots_Inr_iff)
  from actor_from_snapshot_under_prefix [OF assms(1) this show_u64_no_slash(2) slash_free_json, of e v]
  show ?thesis by (simp add: stream_prefix_def)
qed

section \<open>Correctness of the records\<close>

text \<open>C32. Owners of different epochs, and of different actors, never write the same object: the
  name of a snapshot determines the actor, the epoch and the version it was written for. A
  fenced owner that still writes cannot overwrite or imitate its successor's commits.\<close>

theorem stream_objects_disjoint:
  assumes "crypto_ok C" and "stream C r1 = Inr st1" and "stream C r2 = Inr st2"
    and "stream_object st1 v1 = stream_object st2 v2"
  shows "ow_actor r1 = ow_actor r2 \<and> ow_epoch r1 = ow_epoch r2 \<and> v1 = v2"
proof -
  let ?o1 = "stream_prefix C (ow_actor r1) (ow_epoch r1) @ show_u64 v1 @ ''.json''"
  let ?o2 = "stream_prefix C (ow_actor r2) (ow_epoch r2) @ show_u64 v2 @ ''.json''"
  from assms(2-4) have ok: "actor_validate (ow_actor r1) = Inr ()" "actor_validate (ow_actor r2) = Inr ()"
    and eq: "?o1 = ?o2" unfolding stream_Inr_iff stream_object_def by (elim conjE, hypsubst, simp)+
  from actor_from_stream_object [OF assms(1) ok(1)] actor_from_stream_object [OF assms(1) ok(2)] eq
  have "Inr (ow_actor r1) = (Inr (ow_actor r2) :: ActorKey result)" by (metis (no_types))
  moreover have "Some (ow_epoch r1, v1) = Some (ow_epoch r2, v2)"
    using snapshot_position_stream eq by (metis (no_types))
  ultimately show ?thesis by simp
qed

text \<open>A lease that is granted runs out after now and at most a minute later.\<close>

lemma new_lease_bounded:
  assumes "new_lease now r = Inr l"
  shows "hl_id l = hr_id r \<and> hl_session_id l = hr_session_id r \<and> now < hl_expires_at_ms l \<and>
    unat (hl_expires_at_ms l) \<le> unat now + 60000"
proof -
  from assms have l: "checked_add now (hr_duration_ms r) = Some (hl_expires_at_ms l)"
    "hl_id l = hr_id r" "hl_session_id l = hr_session_id r"
    and d: "hr_duration_ms r > 0" "hr_duration_ms r \<le> 60000"
    by (auto simp: new_lease_def validate_duration_def MAX_HOST_LEASE_DURATION_MS_def result_simps)
  have "unat (60000 :: u64) = 60000" by simp
  with d(2) have "unat (hr_duration_ms r) \<le> 60000" by (simp only: word_le_nat_alt)
  moreover have "0 < unat (hr_duration_ms r)" using d(1) by (simp add: word_less_nat_alt)
  ultimately show ?thesis using l by (simp add: checked_add_Some_iff word_less_nat_alt)
qed


section \<open>Concrete records\<close>

definition sample_request :: HostLeaseRequest where
  "sample_request = \<lparr>hr_id = HostId ''h1'', hr_session_id = ''s1'', hr_route = ''r1'', hr_duration_ms = 30000\<rparr>"

definition sample_lease :: HostLease where
  "sample_lease = \<lparr>hl_id = HostId ''h1'', hl_session_id = ''s1'', hl_route = ''r1'', hl_expires_at_ms = 30005\<rparr>"

definition sample_record :: Ownership where
  "sample_record = \<lparr>ow_persistence = LocalStore, ow_sealed = False, ow_lease = sample_lease,
     ow_mutation = [], ow_actor = sample_actor, ow_epoch = 1, ow_region = ''eu'', ow_base = None\<rparr>"

lemma sample_new_lease: "new_lease 5 sample_request = Inr sample_lease"
  by (simp add: new_lease_def validate_duration_def sample_request_def sample_lease_def
      MAX_HOST_LEASE_DURATION_MS_def checked_add_def)

lemma sample_record_actor: "ow_actor sample_record = sample_actor" "ow_epoch sample_record = 1"
  by (simp_all add: sample_record_def)

theorem stream_objects_disjoint_witness:
  "\<exists>st1 st2. stream hex_crypto sample_record = Inr st1 \<and>
     stream hex_crypto (sample_record\<lparr>ow_epoch := 2\<rparr>) = Inr st2 \<and>
     stream_object st1 7 \<noteq> stream_object st2 7"
proof -
  obtain st1 where 1: "stream hex_crypto sample_record = Inr st1"
    using sample_actor_valid by (simp add: stream_Inr_iff sample_record_actor)
  obtain st2 where 2: "stream hex_crypto (sample_record\<lparr>ow_epoch := 2\<rparr>) = Inr st2"
    using sample_actor_valid by (simp add: stream_Inr_iff sample_record_actor)
  have "stream_object st1 7 \<noteq> stream_object st2 7"
  proof
    assume "stream_object st1 7 = stream_object st2 7"
    from stream_objects_disjoint [OF crypto_ok_hex 1 2 this] show False
      by (simp add: sample_record_actor)
  qed
  with 1 2 show ?thesis by blast
qed

end
