(* ===== verification/Lease_Protocol.thy ===== *)
theory Lease_Protocol
  imports Ownership Bucket_Store
begin

text \<open>
  Hosts that compete for one actor (\<open>bucket/runtime/activation.rs\<close>). Activations,
  renewals and releases of different sessions interleave: each reads the ownership object,
  reads the clock, and swaps the object under the generation it has read, and anything may
  happen in between. A step of \<open>lease_step\<close> is one such interaction; the code between two
  interactions is the functions of theory \<open>Ownership\<close>. The authority object is its
  generation and its decoded record; a swap installs a larger generation, which is what the
  locale \<open>bucket_laws\<close> promises. A swap may be applied without its session learning of
  it; a session then reads the object back.

  All hosts read one clock that does not run backwards, and a session asks for the same
  lease duration each time (\<open>lp_request\<close>): a host configures it once. The local record
  of a session is dropped by a crash and is replaced by renewals and reloads.
\<close>

section \<open>Sessions and the system state\<close>

datatype session = Session (ses_host: HostId) (ses_id: string)

record lease_params =
  lp_config :: SnapshotStoreConfig
  lp_actor :: ActorKey
  lp_region :: string
  lp_request :: "session \<Rightarrow> HostLeaseRequest"

definition params_ok :: "lease_params \<Rightarrow> bool" where
  "params_ok P \<longleftrightarrow> (\<forall>s. Session (hr_id (lp_request P s)) (hr_session_id (lp_request P s)) = s)"

definition session_of :: "Ownership \<Rightarrow> session" where
  "session_of r = Session (hl_id (ow_lease r)) (hl_session_id (ow_lease r))"

abbreviation expiry :: "Ownership \<Rightarrow> u64" where
  "expiry r \<equiv> hl_expires_at_ms (ow_lease r)"

text \<open>Where an operation in flight stands: what it has read, what it is about to swap in, or
  that it has learnt of its success.\<close>

datatype pending =
    Loaded session "(int \<times> Ownership) option"
  | Validated session "(int \<times> Ownership) option"
  | Claim session "int option" Ownership
  | Unclear session Ownership
  | Won session Ownership
  | RenewLoaded session int Ownership
  | RenewChecked session int Ownership
  | RenewSwap session int Ownership
  | RenewUnclear session Ownership
  | Renewed session Ownership
  | ReleaseSwap session int Ownership

text \<open>\<open>sy_history\<close> records every object version there was: a hint is any of them, since the
  control plane may have read it at any time.\<close>

record lease_sys =
  sy_auth :: "(int \<times> Ownership) option"
  sy_now :: u64
  sy_history :: "(int \<times> Ownership) set"
  sy_pending :: "pending set"
  sy_owned :: "session \<rightharpoonup> Ownership"
  sy_stopped :: "session set"

definition lease_init :: "lease_sys \<Rightarrow> bool" where
  "lease_init g \<longleftrightarrow> sy_auth g = None \<and> sy_history g = {} \<and> sy_pending g = {} \<and>
     sy_owned g = Map.empty \<and> sy_stopped g = {}"

definition add :: "pending \<Rightarrow> lease_sys \<Rightarrow> lease_sys" where
  "add x g = g\<lparr>sy_pending := insert x (sy_pending g)\<rparr>"

definition move :: "pending \<Rightarrow> pending \<Rightarrow> lease_sys \<Rightarrow> lease_sys" where
  "move x y g = g\<lparr>sy_pending := insert y (sy_pending g - {x})\<rparr>"

definition drop_pending :: "pending \<Rightarrow> lease_sys \<Rightarrow> lease_sys" where
  "drop_pending x g = g\<lparr>sy_pending := sy_pending g - {x}\<rparr>"

text \<open>The object after a swap against the expected generation.\<close>

definition install :: "int \<Rightarrow> Ownership \<Rightarrow> lease_sys \<Rightarrow> lease_sys" where
  "install gen r g = g\<lparr>sy_auth := Some (gen, r), sy_history := insert (gen, r) (sy_history g)\<rparr>"

definition swappable :: "lease_sys \<Rightarrow> int option \<Rightarrow> int \<Rightarrow> bool" where
  "swappable g expected gen \<longleftrightarrow> map_option fst (sy_auth g) = expected \<and>
     (case expected of None \<Rightarrow> 0 | Some g0 \<Rightarrow> g0) < gen"

section \<open>The steps\<close>

text \<open>\<open>register_activation\<close>: take the record from the object, from a hint or, for an actor
  believed new, from nowhere; validate it; build the new record, whose base an unsealed
  recovery may replace; swap. The claim of a sealed or absent record runs beside the
  recovery of its state, which does not touch the object.\<close>

inductive activation_step :: "lease_params \<Rightarrow> lease_sys \<Rightarrow> lease_sys \<Rightarrow> bool" for P where
  Load: "activation_step P g (add (Loaded s (sy_auth g)) g)"
| Hint: "(gen, r) \<in> sy_history g \<Longrightarrow>
    usable_hint (sy_now g) (lp_actor P) (lp_request P s) (lp_region P) \<lparr>oh_generation = gen, oh_record = r\<rparr> \<Longrightarrow>
    activation_step P g (add (Loaded s (Some (gen, r))) g)"
| NewActor: "activation_step P g (add (Loaded s None) g)"
| Validate: "Loaded s cur \<in> sy_pending g \<Longrightarrow>
    validate_activation (lp_config P) (sy_now g) (lp_actor P) (lp_request P s) (lp_region P)
      (map_option snd cur) = Inr () \<Longrightarrow>
    activation_step P g (move (Loaded s cur) (Validated s cur) g)"
| Build: "Validated s cur \<in> sy_pending g \<Longrightarrow>
    activation_record (lp_config P) (sy_now g) (lp_actor P) (lp_request P s) (lp_region P)
      (map_option snd cur) = Inr r \<Longrightarrow>
    base = ow_base r \<or> (\<exists>gen q. cur = Some (gen, q) \<and> \<not> ow_sealed q) \<Longrightarrow>
    activation_step P g
      (move (Validated s cur) (Claim s (map_option fst cur) (r\<lparr>ow_base := base, ow_mutation := m\<rparr>)) g)"
| Swap: "Claim s e r \<in> sy_pending g \<Longrightarrow> swappable g e gen \<Longrightarrow>
    activation_step P g (install gen r (move (Claim s e r) (Won s r) g))"
| SwapUnseen: "Claim s e r \<in> sy_pending g \<Longrightarrow> swappable g e gen \<Longrightarrow>
    activation_step P g (install gen r (move (Claim s e r) (Unclear s r) g))"
| SwapRefused: "Claim s e r \<in> sy_pending g \<Longrightarrow>
    activation_step P g (move (Claim s e r) (Unclear s r) g)"
| ReadBack: "Unclear s r \<in> sy_pending g \<Longrightarrow> sy_auth g = Some (gen, r) \<Longrightarrow>
    activation_step P g (move (Unclear s r) (Won s r) g)"

text \<open>\<open>remember\<close>, after an activation or after \<open>load_actor\<close> read the object again.\<close>

inductive local_step :: "lease_params \<Rightarrow> lease_sys \<Rightarrow> lease_sys \<Rightarrow> bool" for P where
  Tick: "sy_now g \<le> t \<Longrightarrow> local_step P g (g\<lparr>sy_now := t\<rparr>)"
| Reload: "sy_auth g = Some (gen, r) \<Longrightarrow> session_of r = s \<Longrightarrow> ow_actor r = lp_actor P \<Longrightarrow>
    local_step P g (add (Won s r) g)"
| Remember: "Won s r \<in> sy_pending g \<Longrightarrow>
    local_step P g ((drop_pending (Won s r) g)\<lparr>sy_owned := (sy_owned g)(s \<mapsto> r)\<rparr>)"
| Abandon: "x \<in> sy_pending g \<Longrightarrow> local_step P g (drop_pending x g)"
| Crash: "local_step P g (g\<lparr>sy_owned := (sy_owned g)(s := None)\<rparr>)"

text \<open>\<open>renew_activation\<close>.\<close>

inductive renewal_step :: "lease_params \<Rightarrow> lease_sys \<Rightarrow> lease_sys \<Rightarrow> bool" for P where
  RenewLoad: "sy_auth g = Some (gen, r) \<Longrightarrow> renewal_step P g (add (RenewLoaded s gen r) g)"
| RenewCheck: "RenewLoaded s gen r \<in> sy_pending g \<Longrightarrow>
    renewal_check (sy_now g) (lp_actor P) (lp_request P s) r = Inr () \<Longrightarrow>
    renewal_step P g (move (RenewLoaded s gen r) (RenewChecked s gen r) g)"
| RenewBuild: "RenewChecked s gen r \<in> sy_pending g \<Longrightarrow> new_lease (sy_now g) (lp_request P s) = Inr l \<Longrightarrow>
    renewal_step P g (move (RenewChecked s gen r) (RenewSwap s gen (r\<lparr>ow_lease := l, ow_mutation := m\<rparr>)) g)"
| RenewSwapped: "RenewSwap s gen r \<in> sy_pending g \<Longrightarrow> swappable g (Some gen) gen' \<Longrightarrow>
    renewal_step P g (install gen' r (move (RenewSwap s gen r) (Renewed s r) g))"
| RenewUnseen: "RenewSwap s gen r \<in> sy_pending g \<Longrightarrow> swappable g (Some gen) gen' \<Longrightarrow>
    renewal_step P g (install gen' r (move (RenewSwap s gen r) (RenewUnclear s r) g))"
| RenewRefused: "RenewSwap s gen r \<in> sy_pending g \<Longrightarrow>
    renewal_step P g (move (RenewSwap s gen r) (RenewUnclear s r) g)"
| RenewReadBack: "RenewUnclear s r \<in> sy_pending g \<Longrightarrow> sy_auth g = Some (gen, r) \<Longrightarrow>
    renewal_step P g (move (RenewUnclear s r) (Renewed s r) g)"
| RenewDone: "Renewed s r \<in> sy_pending g \<Longrightarrow> sy_owned g s = Some own \<Longrightarrow> ow_epoch own = ow_epoch r \<Longrightarrow>
    renewal_step P g ((drop_pending (Renewed s r) g)
      \<lparr>sy_owned := (sy_owned g)(s \<mapsto> own\<lparr>ow_lease := ow_lease r\<rparr>)\<rparr>)"

text \<open>\<open>release_with_checkpoint\<close>: a host releases a session only after it has stopped
  executing it; a retry reads the object again.\<close>

inductive release_step :: "lease_params \<Rightarrow> lease_sys \<Rightarrow> lease_sys \<Rightarrow> bool" for P where
  ReleaseLoad: "sy_auth g = Some (gen, r) \<Longrightarrow> releasable (ses_host s) (ses_id s) r \<Longrightarrow>
    release_step P g (add (ReleaseSwap s gen ((released checkpoint r)\<lparr>ow_mutation := m\<rparr>))
      (g\<lparr>sy_stopped := insert s (sy_stopped g)\<rparr>))"
| ReleaseSwapped: "ReleaseSwap s gen r \<in> sy_pending g \<Longrightarrow> swappable g (Some gen) gen' \<Longrightarrow>
    release_step P g (install gen' r (drop_pending (ReleaseSwap s gen r) g))"

definition lease_step :: "lease_params \<Rightarrow> lease_sys \<Rightarrow> lease_sys \<Rightarrow> bool" where
  "lease_step P g g' \<longleftrightarrow> activation_step P g g' \<or> local_step P g g' \<or> renewal_step P g g' \<or> release_step P g g'"

text \<open>\<open>ensure_write_owner\<close> lets a session write while its local lease has not run out.\<close>

definition may_write :: "lease_sys \<Rightarrow> session \<Rightarrow> bool" where
  "may_write g s \<longleftrightarrow> (case sy_owned g s of None \<Rightarrow> False | Some r \<Rightarrow> sy_now g < expiry r)"

section \<open>The invariant\<close>

definition expiry_ok :: "lease_params \<Rightarrow> lease_sys \<Rightarrow> Ownership \<Rightarrow> bool" where
  "expiry_ok P g r \<longleftrightarrow> unat (expiry r) \<le> unat (sy_now g) + unat (hr_duration_ms (lp_request P (session_of r)))"

text \<open>The versions of the object: the current one is the newest, a generation names one
  version, epochs do not decrease and belong to one session each.\<close>

definition history_ok :: "lease_params \<Rightarrow> lease_sys \<Rightarrow> bool" where
  "history_ok P g \<longleftrightarrow>
     (case sy_auth g of
        None \<Rightarrow> sy_history g = {}
      | Some (gen, r) \<Rightarrow> (gen, r) \<in> sy_history g \<and>
          (\<forall>h q. (h, q) \<in> sy_history g \<longrightarrow> h \<le> gen \<and> ow_epoch q \<le> ow_epoch r)) \<and>
     (\<forall>h q q'. (h, q) \<in> sy_history g \<longrightarrow> (h, q') \<in> sy_history g \<longrightarrow> q = q') \<and>
     (\<forall>h q h' q'. (h, q) \<in> sy_history g \<longrightarrow> (h', q') \<in> sy_history g \<longrightarrow> ow_epoch q = ow_epoch q' \<longrightarrow>
        session_of q = session_of q') \<and>
     (\<forall>h q. (h, q) \<in> sy_history g \<longrightarrow> expiry_ok P g q)"

text \<open>An operation in flight has read a version of the object; a validated claim has read one
  whose lease has run out, and continues its epoch.\<close>

fun pending_ok :: "lease_params \<Rightarrow> lease_sys \<Rightarrow> pending \<Rightarrow> bool" where
  "pending_ok P g (Loaded s cur) = (\<forall>x. cur = Some x \<longrightarrow> x \<in> sy_history g)"
| "pending_ok P g (Validated s cur) =
     (\<forall>h q. cur = Some (h, q) \<longrightarrow> (h, q) \<in> sy_history g \<and> expiry q \<le> sy_now g)"
| "pending_ok P g (Claim s e r) =
     (session_of r = s \<and> expiry_ok P g r \<and>
      (\<forall>h. e = Some h \<longrightarrow> (\<exists>q. (h, q) \<in> sy_history g \<and> expiry q \<le> sy_now g \<and> ow_epoch q < ow_epoch r)))"
| "pending_ok P g (Unclear s r) = (session_of r = s)"
| "pending_ok P g (RenewUnclear s r) = (session_of r = s)"
| "pending_ok P g (RenewLoaded s h q) = ((h, q) \<in> sy_history g)"
| "pending_ok P g (RenewChecked s h q) = ((h, q) \<in> sy_history g \<and> session_of q = s)"
| "pending_ok P g (RenewSwap s h r) =
     (session_of r = s \<and> expiry_ok P g r \<and>
      (\<exists>q. (h, q) \<in> sy_history g \<and> session_of q = s \<and> ow_epoch q = ow_epoch r \<and> expiry q \<le> expiry r))"
| "pending_ok P g (ReleaseSwap s h r) =
     (session_of r = s \<and> expiry_ok P g r \<and> s \<in> sy_stopped g \<and>
      (\<exists>q. (h, q) \<in> sy_history g \<and> session_of q = s \<and> ow_epoch q = ow_epoch r))"
| "pending_ok P g (Won s r) = True"
| "pending_ok P g (Renewed s r) = True"

text \<open>A lease that a session believes to hold was granted to it, and either is within the
  current lease of its epoch or has run out.\<close>

definition held :: "lease_sys \<Rightarrow> session \<Rightarrow> Ownership \<Rightarrow> bool" where
  "held g s r \<longleftrightarrow> sy_owned g s = Some r \<or> Won s r \<in> sy_pending g \<or> Renewed s r \<in> sy_pending g"

definition granted :: "lease_sys \<Rightarrow> session \<Rightarrow> Ownership \<Rightarrow> bool" where
  "granted g s r \<longleftrightarrow> session_of r = s \<and>
     (\<exists>h q. (h, q) \<in> sy_history g \<and> session_of q = s \<and> ow_epoch q = ow_epoch r) \<and>
     (s \<in> sy_stopped g \<or>
      (\<exists>gen q. sy_auth g = Some (gen, q) \<and>
         (ow_epoch r < ow_epoch q \<and> expiry r \<le> sy_now g \<or> ow_epoch r = ow_epoch q \<and> expiry r \<le> expiry q)))"

definition lease_inv :: "lease_params \<Rightarrow> lease_sys \<Rightarrow> bool" where
  "lease_inv P g \<longleftrightarrow> history_ok P g \<and> (\<forall>x \<in> sy_pending g. pending_ok P g x) \<and>
     (\<forall>s r. held g s r \<longrightarrow> granted g s r)"

section \<open>Preservation\<close>

definition grows :: "lease_sys \<Rightarrow> lease_sys \<Rightarrow> bool" where
  "grows g g' \<longleftrightarrow> sy_history g \<subseteq> sy_history g' \<and> sy_now g \<le> sy_now g' \<and> sy_stopped g \<subseteq> sy_stopped g'"

lemma expiry_ok_mono: "grows g g' \<Longrightarrow> expiry_ok P g r \<Longrightarrow> expiry_ok P g' r"
  unfolding grows_def expiry_ok_def word_le_nat_alt by linarith

lemma pending_ok_mono:
  assumes "grows g g'" "pending_ok P g x"
  shows "pending_ok P g' x"
proof -
  have mono: "q \<in> sy_history g \<Longrightarrow> q \<in> sy_history g'" "s \<in> sy_stopped g \<Longrightarrow> s \<in> sy_stopped g'"
    "e \<le> sy_now g \<Longrightarrow> e \<le> sy_now g'" for q s e
    using assms(1) by (auto simp: grows_def)
  show ?thesis
    using assms(2) mono expiry_ok_mono [OF assms(1)] by (cases x) (simp_all, blast+)
qed

lemma granted_mono:
  assumes "grows g g'" "sy_auth g' = sy_auth g" "granted g s r"
  shows "granted g' s r"
proof -
  have mono: "\<And>q. q \<in> sy_history g \<Longrightarrow> q \<in> sy_history g'" "s \<in> sy_stopped g \<Longrightarrow> s \<in> sy_stopped g'"
    "expiry r \<le> sy_now g \<Longrightarrow> expiry r \<le> sy_now g'"
    using assms(1) by (auto simp: grows_def)
  with assms(3) show ?thesis unfolding granted_def assms(2) by blast
qed

text \<open>Steps that leave the object alone.\<close>

lemma lease_inv_frame:
  assumes inv: "lease_inv P g" and g: "grows g g'" "sy_auth g' = sy_auth g" "sy_history g' = sy_history g"
    and p: "\<And>x. x \<in> sy_pending g' \<Longrightarrow> x \<in> sy_pending g \<or> pending_ok P g' x"
    and h: "\<And>s r. held g' s r \<Longrightarrow> held g s r \<or> granted g' s r"
  shows "lease_inv P g'"
proof -
  have "history_ok P g" using inv by (simp add: lease_inv_def)
  then have "history_ok P g'"
    using expiry_ok_mono [OF g(1)] unfolding history_ok_def g(2,3) by blast
  moreover have "pending_ok P g' x" if "x \<in> sy_pending g'" for x
    using p [OF that] inv pending_ok_mono [OF g(1)] unfolding lease_inv_def by blast
  moreover have "granted g' s r" if "held g' s r" for s r
    using h [OF that] inv granted_mono [OF g(1,2)] unfolding lease_inv_def by blast
  ultimately show ?thesis unfolding lease_inv_def by blast
qed

text \<open>What a record must satisfy to follow the current version: it continues the epoch for the
  same session, whose local lease stays covered, or it starts a new epoch after the lease
  ran out.\<close>

definition follows :: "lease_params \<Rightarrow> lease_sys \<Rightarrow> Ownership \<Rightarrow> bool" where
  "follows P g r \<longleftrightarrow> expiry_ok P g r \<and>
     (\<forall>gen q. sy_auth g = Some (gen, q) \<longrightarrow>
        ow_epoch q = ow_epoch r \<and> session_of q = session_of r \<and>
          (expiry q \<le> expiry r \<or> session_of q \<in> sy_stopped g) \<or>
        ow_epoch q < ow_epoch r \<and> expiry q \<le> sy_now g)"

definition newer :: "lease_sys \<Rightarrow> int \<Rightarrow> bool" where
  "newer g gen \<longleftrightarrow> (\<forall>h q. sy_auth g = Some (h, q) \<longrightarrow> h < gen)"

lemma history_bound:
  "history_ok P g \<Longrightarrow> (h, q) \<in> sy_history g \<Longrightarrow>
    \<exists>gen r. sy_auth g = Some (gen, r) \<and> (gen, r) \<in> sy_history g \<and> h \<le> gen \<and> ow_epoch q \<le> ow_epoch r"
  unfolding history_ok_def by (cases "sy_auth g") auto

lemma history_owner:
  "history_ok P g \<Longrightarrow> (h, q) \<in> sy_history g \<Longrightarrow> (h', q') \<in> sy_history g \<Longrightarrow>
    ow_epoch q = ow_epoch q' \<Longrightarrow> session_of q = session_of q'"
  unfolding history_ok_def by blast

lemma install_history_ok:
  assumes h: "history_ok P g" and f: "follows P g r" and n: "newer g gen"
  shows "history_ok P (install gen r g)"
proof -
  have fresh: "h < gen" and le: "ow_epoch q \<le> ow_epoch r"
    and own: "ow_epoch q = ow_epoch r \<Longrightarrow> session_of q = session_of r"
    if q: "(h, q) \<in> sy_history g" for h q
  proof -
    obtain g0 r0 where a: "sy_auth g = Some (g0, r0)" "(g0, r0) \<in> sy_history g" "h \<le> g0" "ow_epoch q \<le> ow_epoch r0"
      using history_bound [OF h q] by blast
    from n a show "h < gen" unfolding newer_def by fastforce
    from f a have r0: "ow_epoch r0 = ow_epoch r \<and> session_of r0 = session_of r \<or> ow_epoch r0 < ow_epoch r"
      unfolding follows_def by blast
    then show "ow_epoch q \<le> ow_epoch r" using a(4) by auto
    show "ow_epoch q = ow_epoch r \<Longrightarrow> session_of q = session_of r"
      using r0 a(4) history_owner [OF h q a(2)] by auto
  qed
  have ex: "expiry_ok P g r" using f by (simp add: follows_def)
  have eo: "expiry_ok P (install gen r g) q = expiry_ok P g q" for q
    by (simp add: expiry_ok_def install_def)
  have i: "sy_auth (install gen r g) = Some (gen, r)" "sy_history (install gen r g) = insert (gen, r) (sy_history g)"
    by (simp_all add: install_def)
  show ?thesis
    unfolding history_ok_def i eo option.case prod.case
  proof (intro conjI)
    show "\<forall>h q. (h, q) \<in> insert (gen, r) (sy_history g) \<longrightarrow> h \<le> gen \<and> ow_epoch q \<le> ow_epoch r"
      using fresh le by fastforce
    show "\<forall>h q q'. (h, q) \<in> insert (gen, r) (sy_history g) \<longrightarrow> (h, q') \<in> insert (gen, r) (sy_history g) \<longrightarrow> q = q'"
      using fresh h unfolding history_ok_def by blast
    show "\<forall>h q h' q'. (h, q) \<in> insert (gen, r) (sy_history g) \<longrightarrow>
        (h', q') \<in> insert (gen, r) (sy_history g) \<longrightarrow> ow_epoch q = ow_epoch q' \<longrightarrow> session_of q = session_of q'"
      using own history_owner [OF h] by (metis insert_iff prod.inject)
    show "\<forall>h q. (h, q) \<in> insert (gen, r) (sy_history g) \<longrightarrow> expiry_ok P g q"
      using ex h unfolding history_ok_def by blast
  qed simp
qed

lemma install_granted:
  assumes h: "history_ok P g" and f: "follows P g r" and x: "granted g s y"
  shows "granted (install gen r g) s y"
proof -
  from x obtain h0 q0 where s: "session_of y = s" "(h0, q0) \<in> sy_history g" "session_of q0 = s" "ow_epoch q0 = ow_epoch y"
    unfolding granted_def by blast
  from x have "s \<in> sy_stopped g \<or> (ow_epoch y < ow_epoch r \<and> expiry y \<le> sy_now g \<or>
      ow_epoch y = ow_epoch r \<and> expiry y \<le> expiry r)"
  proof (cases "s \<in> sy_stopped g")
    case False
    with x obtain g0 r0 where a: "sy_auth g = Some (g0, r0)"
      "ow_epoch y < ow_epoch r0 \<and> expiry y \<le> sy_now g \<or> ow_epoch y = ow_epoch r0 \<and> expiry y \<le> expiry r0"
      unfolding granted_def by blast
    have r0: "(g0, r0) \<in> sy_history g" using h a(1) by (simp add: history_ok_def)
    from f a(1) have cases: "ow_epoch r0 = ow_epoch r \<and> session_of r0 = session_of r \<and>
        (expiry r0 \<le> expiry r \<or> session_of r0 \<in> sy_stopped g) \<or> ow_epoch r0 < ow_epoch r \<and> expiry r0 \<le> sy_now g"
      unfolding follows_def by blast
    moreover have "session_of r0 = s" if "ow_epoch y = ow_epoch r0"
      using history_owner [OF h s(2) r0] s(3,4) that by simp
    ultimately show ?thesis using a(2) False by (auto intro: order_trans less_trans)
  qed simp
  with s show ?thesis unfolding granted_def install_def by auto
qed

lemma install_grows: "grows g (install gen r g)"
  by (auto simp: grows_def install_def)

text \<open>Steps that swap the object.\<close>

lemma lease_inv_install:
  assumes inv: "lease_inv P g" and f: "follows P g r" and n: "newer g gen"
    and p: "\<And>x. x \<in> sy_pending g' \<Longrightarrow> x \<in> sy_pending g \<or> pending_ok P (install gen r g) x"
    and h: "\<And>s y. held g' s y \<Longrightarrow> held g s y \<or> granted (install gen r g) s y"
    and g': "g' = (install gen r g)\<lparr>sy_pending := sy_pending g'\<rparr>"
  shows "lease_inv P g'"
proof -
  let ?i = "install gen r g"
  have ho: "history_ok P g" using inv by (simp add: lease_inv_def)
  have same: "sy_auth g' = sy_auth ?i" "sy_history g' = sy_history ?i" "sy_now g' = sy_now ?i"
    "sy_stopped g' = sy_stopped ?i" by (subst g', simp)+
  have eo: "expiry_ok P g' q = expiry_ok P ?i q" for q by (simp add: expiry_ok_def same)
  have "history_ok P g'"
    using install_history_ok [OF ho f n] unfolding history_ok_def same eo .
  moreover have "pending_ok P g' x" if "x \<in> sy_pending g'" for x
  proof -
    have "pending_ok P ?i x"
      using p [OF that] inv pending_ok_mono [OF install_grows] unfolding lease_inv_def by blast
    moreover have "grows ?i g'" by (simp add: grows_def same)
    ultimately show ?thesis using pending_ok_mono by blast
  qed
  moreover have "granted g' s y" if "held g' s y" for s y
  proof -
    have "granted ?i s y"
      using h [OF that] inv install_granted [OF ho f] unfolding lease_inv_def by blast
    then show ?thesis by (simp add: granted_def same)
  qed
  ultimately show ?thesis unfolding lease_inv_def by blast
qed

lemmas sys_defs = add_def move_def drop_pending_def

lemma lease_invD:
  assumes "lease_inv P g"
  shows "history_ok P g" "x \<in> sy_pending g \<Longrightarrow> pending_ok P g x" "held g s r \<Longrightarrow> granted g s r"
  using assms by (auto simp: lease_inv_def)

text \<open>A frame step that only changes what is in flight, without claiming a lease.\<close>

lemma lease_inv_pending:
  assumes inv: "lease_inv P g" and p: "pending_ok P g y"
    and y: "\<And>s r. y = Won s r \<or> y = Renewed s r \<Longrightarrow> granted g s r"
  shows "lease_inv P (g\<lparr>sy_pending := insert y (sy_pending g - X)\<rparr>)"
proof (rule lease_inv_frame [OF inv])
  let ?g = "g\<lparr>sy_pending := insert y (sy_pending g - X)\<rparr>"
  have gr: "grows g ?g" by (simp add: grows_def)
  then show "grows g ?g" .
  show "x \<in> sy_pending ?g \<Longrightarrow> x \<in> sy_pending g \<or> pending_ok P ?g x" for x
    using pending_ok_mono [OF gr p] by auto
  show "held ?g s r \<Longrightarrow> held g s r \<or> granted ?g s r" for s r
    using y granted_mono [OF gr, of s r] by (auto simp: held_def)
qed simp_all

lemma lease_inv_drop:
  assumes inv: "lease_inv P g"
  shows "lease_inv P (g\<lparr>sy_pending := sy_pending g - X\<rparr>)"
  by (rule lease_inv_frame [OF inv]) (auto simp: grows_def held_def)

lemma new_lease_facts:
  assumes "new_lease now r = Inr l"
  shows "hl_id l = hr_id r" "hl_session_id l = hr_session_id r"
    "unat (hl_expires_at_ms l) = unat now + unat (hr_duration_ms r)"
  using assms by (auto simp: new_lease_def result_simps checked_add_Some_iff)

lemma activation_record_facts:
  assumes "activation_record c now a req region cur = Inr r"
  shows "new_lease now req = Inr (ow_lease r)" "\<And>q. cur = Some q \<Longrightarrow> ow_epoch q < ow_epoch r"
  using assms by (auto simp: activation_record_def result_simps checked_add_1_less)

lemma swappable_newer: "history_ok P g \<Longrightarrow> swappable g e gen \<Longrightarrow> newer g gen"
  by (auto simp: swappable_def newer_def)

text \<open>The version a swap replaces is the one the operation has read.\<close>

lemma swappable_read:
  assumes "history_ok P g" "swappable g (Some h) gen" "(h, q) \<in> sy_history g"
  shows "\<exists>g0. sy_auth g = Some (g0, q)"
proof -
  obtain r where a: "sy_auth g = Some (h, r)" using assms(2) by (auto simp: swappable_def)
  then have "(h, r) \<in> sy_history g" using assms(1) by (simp add: history_ok_def)
  then have "r = q" using assms(1,3) unfolding history_ok_def by blast
  with a show ?thesis by blast
qed

lemma claim_follows:
  assumes "lease_inv P g" "Claim s e r \<in> sy_pending g" "swappable g e gen"
  shows "follows P g r"
proof -
  note h = lease_invD(1) [OF assms(1)]
  have p: "pending_ok P g (Claim s e r)" using lease_invD(2) [OF assms(1,2)] .
  show ?thesis
  proof (cases e)
    case None
    with assms(3) have "sy_auth g = None" by (simp add: swappable_def)
    with p show ?thesis by (simp add: follows_def)
  next
    case (Some h0)
    with p obtain q where q: "(h0, q) \<in> sy_history g" "expiry q \<le> sy_now g" "ow_epoch q < ow_epoch r" by auto
    obtain g0 where "sy_auth g = Some (g0, q)"
      using swappable_read [OF h assms(3) [unfolded Some] q(1)] by blast
    with p q show ?thesis by (simp add: follows_def)
  qed
qed

lemma installed_granted:
  "session_of r = s \<Longrightarrow> granted (install gen r g) s r"
  unfolding granted_def install_def by auto

lemma lease_inv_swap:
  assumes inv: "lease_inv P g" and f: "follows P g r" and n: "newer g gen" and s: "session_of r = s"
    and y: "y = Won s r \<or> y = Unclear s r \<or> y = Renewed s r \<or> y = RenewUnclear s r"
  shows "lease_inv P (install gen r (g\<lparr>sy_pending := insert y (sy_pending g - X)\<rparr>))"
proof (rule lease_inv_install [OF inv f n])
  let ?g = "install gen r (g\<lparr>sy_pending := insert y (sy_pending g - X)\<rparr>)"
  show "x \<in> sy_pending ?g \<Longrightarrow> x \<in> sy_pending g \<or> pending_ok P (install gen r g) x" for x
    using y s by (auto simp: install_def)
  show "held ?g t z \<Longrightarrow> held g t z \<or> granted (install gen r g) t z" for t z
    using y installed_granted [OF s, of gen g] by (auto simp: held_def install_def)
qed (simp add: install_def)

lemma held_won: "lease_inv P g \<Longrightarrow> Won s r \<in> sy_pending g \<Longrightarrow> granted g s r"
  by (rule lease_invD(3)) (simp_all add: held_def)

lemma held_renewed: "lease_inv P g \<Longrightarrow> Renewed s r \<in> sy_pending g \<Longrightarrow> granted g s r"
  by (rule lease_invD(3)) (simp_all add: held_def)

lemma auth_history: "history_ok P g \<Longrightarrow> sy_auth g = Some (gen, r) \<Longrightarrow> (gen, r) \<in> sy_history g"
  by (simp add: history_ok_def)

lemma auth_granted:
  "history_ok P g \<Longrightarrow> sy_auth g = Some (gen, r) \<Longrightarrow> session_of r = s \<Longrightarrow> granted g s r"
  unfolding granted_def using auth_history by fastforce

lemma activation_step_inv:
  assumes P: "params_ok P" and inv: "lease_inv P g" and st: "activation_step P g g'"
  shows "lease_inv P g'"
  using st
proof (cases rule: activation_step.cases)
  case (Load s)
  show ?thesis
    unfolding Load sys_defs using lease_inv_pending [OF inv, of "Loaded s (sy_auth g)" "{}"]
      auth_history [OF lease_invD(1) [OF inv]] by auto
next
  case (Hint gen r s)
  then show ?thesis unfolding sys_defs using lease_inv_pending [OF inv, of "Loaded s (Some (gen, r))" "{}"] by auto
next
  case (NewActor s)
  then show ?thesis unfolding sys_defs using lease_inv_pending [OF inv, of "Loaded s None" "{}"] by auto
next
  case (Validate s cur)
  have "pending_ok P g (Loaded s cur)" using lease_invD(2) [OF inv Validate(2)] .
  with Validate(3) have "pending_ok P g (Validated s cur)"
    by (auto simp: validate_activation_def result_simps)
  then show ?thesis unfolding Validate(1) sys_defs by (rule lease_inv_pending [OF inv]) simp
next
  case (Build s cur r base m)
  have "pending_ok P g (Validated s cur)" using lease_invD(2) [OF inv Build(2)] .
  moreover note rec = activation_record_facts [OF Build(3)]
  moreover have "session_of (r\<lparr>ow_base := base, ow_mutation := m\<rparr>) = s"
    using new_lease_facts(1,2) [OF rec(1)] P by (simp add: session_of_def params_ok_def)
  ultimately have "pending_ok P g (Claim s (map_option fst cur) (r\<lparr>ow_base := base, ow_mutation := m\<rparr>))"
    using new_lease_facts(3) [OF rec(1)] by (auto simp: expiry_ok_def)
  then show ?thesis unfolding Build(1) sys_defs by (rule lease_inv_pending [OF inv]) simp
next
  case (Swap s e r gen)
  have "session_of r = s" using lease_invD(2) [OF inv Swap(2)] by simp
  then show ?thesis unfolding Swap(1) sys_defs
    using lease_inv_swap [OF inv claim_follows [OF inv Swap(2,3)] swappable_newer [OF lease_invD(1) [OF inv] Swap(3)]]
    by blast
next
  case (SwapUnseen s e r gen)
  have "session_of r = s" using lease_invD(2) [OF inv SwapUnseen(2)] by simp
  then show ?thesis unfolding SwapUnseen(1) sys_defs
    using lease_inv_swap [OF inv claim_follows [OF inv SwapUnseen(2,3)] swappable_newer [OF lease_invD(1) [OF inv] SwapUnseen(3)]]
    by blast
next
  case (SwapRefused s e r)
  have "session_of r = s" using lease_invD(2) [OF inv SwapRefused(2)] by simp
  then show ?thesis unfolding SwapRefused(1) sys_defs by (intro lease_inv_pending [OF inv]) simp_all
next
  case (ReadBack s r gen)
  have "session_of r = s" using lease_invD(2) [OF inv ReadBack(2)] by simp
  then have "granted g s r" using auth_granted [OF lease_invD(1) [OF inv] ReadBack(3)] by blast
  then show ?thesis unfolding ReadBack(1) sys_defs by (intro lease_inv_pending [OF inv]) auto
qed

lemma lease_inv_owned:
  assumes inv: "lease_inv P g" and r: "granted g s r"
  shows "lease_inv P (g\<lparr>sy_pending := sy_pending g - X, sy_owned := (sy_owned g)(s \<mapsto> r)\<rparr>)"
proof (rule lease_inv_frame [OF inv])
  let ?g = "g\<lparr>sy_pending := sy_pending g - X, sy_owned := (sy_owned g)(s \<mapsto> r)\<rparr>"
  show gr: "grows g ?g" by (simp add: grows_def)
  show "held ?g t q \<Longrightarrow> held g t q \<or> granted ?g t q" for t q
    using granted_mono [OF gr _ r] by (auto simp: held_def split: if_splits)
qed auto

lemma local_step_inv:
  assumes inv: "lease_inv P g" and st: "local_step P g g'"
  shows "lease_inv P g'"
  using st
proof (cases rule: local_step.cases)
  case (Tick t)
  show ?thesis
    unfolding Tick(1) by (rule lease_inv_frame [OF inv]) (use Tick(2) in \<open>simp_all add: grows_def held_def\<close>)
next
  case (Reload gen r s)
  have "granted g s r" using auth_granted [OF lease_invD(1) [OF inv] Reload(2,3)] .
  then show ?thesis
    unfolding Reload(1) sys_defs using lease_inv_pending [OF inv, of "Won s r" "{}"] by auto
next
  case (Remember s r)
  from lease_inv_owned [OF inv held_won [OF inv Remember(2)]] show ?thesis
    unfolding Remember(1) sys_defs by simp
next
  case (Abandon x)
  then show ?thesis unfolding sys_defs using lease_inv_drop [OF inv] by blast
next
  case (Crash s)
  show ?thesis
    unfolding Crash(1) by (rule lease_inv_frame [OF inv]) (simp_all add: grows_def held_def split: if_splits, blast+)
qed

lemma renewal_follows:
  assumes "lease_inv P g" "RenewSwap s h r \<in> sy_pending g" "swappable g (Some h) gen"
  shows "follows P g r"
proof -
  have p: "pending_ok P g (RenewSwap s h r)" using lease_invD(2) [OF assms(1,2)] .
  then obtain q where q: "(h, q) \<in> sy_history g" "session_of q = s" "ow_epoch q = ow_epoch r" "expiry q \<le> expiry r"
    by auto
  obtain g0 where "sy_auth g = Some (g0, q)"
    using swappable_read [OF lease_invD(1) [OF assms(1)] assms(3) q(1)] by blast
  with p q show ?thesis by (simp add: follows_def)
qed

lemma renewal_step_inv:
  assumes P: "params_ok P" and inv: "lease_inv P g" and st: "renewal_step P g g'"
  shows "lease_inv P g'"
  using st
proof (cases rule: renewal_step.cases)
  case (RenewLoad gen r s)
  then show ?thesis unfolding sys_defs
    using lease_inv_pending [OF inv, of "RenewLoaded s gen r" "{}"] auth_history [OF lease_invD(1) [OF inv]] by simp
next
  case (RenewCheck s gen r)
  have "session_of r = s"
    using RenewCheck(3) P by (simp add: renewal_check_def ensure_Inr_iff session_of_def params_ok_def)
  then have "pending_ok P g (RenewChecked s gen r)" using lease_invD(2) [OF inv RenewCheck(2)] by simp
  then show ?thesis unfolding RenewCheck(1) sys_defs by (rule lease_inv_pending [OF inv]) simp
next
  case (RenewBuild s gen r l m)
  have p: "(gen, r) \<in> sy_history g" "session_of r = s" using lease_invD(2) [OF inv RenewBuild(2)] by simp_all
  then have ok: "expiry_ok P g r" using lease_invD(1) [OF inv] unfolding history_ok_def by blast
  note l = new_lease_facts [OF RenewBuild(3)]
  let ?r = "r\<lparr>ow_lease := l, ow_mutation := m\<rparr>"
  have s: "session_of ?r = s" using l(1,2) P by (simp add: session_of_def params_ok_def)
  have "expiry r \<le> expiry ?r" using ok p(2) l(3) by (simp add: expiry_ok_def word_le_nat_alt)
  moreover have "expiry_ok P g ?r" using l(3) s by (simp add: expiry_ok_def)
  moreover have "ow_epoch r = ow_epoch ?r" by simp
  ultimately have "pending_ok P g (RenewSwap s gen ?r)"
    unfolding pending_ok.simps using p s by blast
  then show ?thesis unfolding RenewBuild(1) sys_defs by (rule lease_inv_pending [OF inv]) simp
next
  case (RenewSwapped s gen r gen')
  have "session_of r = s" using lease_invD(2) [OF inv RenewSwapped(2)] by simp
  then show ?thesis unfolding RenewSwapped(1) sys_defs
    using lease_inv_swap [OF inv renewal_follows [OF inv RenewSwapped(2,3)]
      swappable_newer [OF lease_invD(1) [OF inv] RenewSwapped(3)]] by blast
next
  case (RenewUnseen s gen r gen')
  have "session_of r = s" using lease_invD(2) [OF inv RenewUnseen(2)] by simp
  then show ?thesis unfolding RenewUnseen(1) sys_defs
    using lease_inv_swap [OF inv renewal_follows [OF inv RenewUnseen(2,3)]
      swappable_newer [OF lease_invD(1) [OF inv] RenewUnseen(3)]] by blast
next
  case (RenewRefused s gen r)
  have "session_of r = s" using lease_invD(2) [OF inv RenewRefused(2)] by simp
  then show ?thesis unfolding RenewRefused(1) sys_defs by (intro lease_inv_pending [OF inv]) simp_all
next
  case (RenewReadBack s r gen)
  have "session_of r = s" using lease_invD(2) [OF inv RenewReadBack(2)] by simp
  then have "granted g s r" using auth_granted [OF lease_invD(1) [OF inv] RenewReadBack(3)] by blast
  then show ?thesis unfolding RenewReadBack(1) sys_defs by (intro lease_inv_pending [OF inv]) auto
next
  case (RenewDone s r own)
  have "granted g s r" using held_renewed [OF inv RenewDone(2)] .
  then have "granted g s (own\<lparr>ow_lease := ow_lease r\<rparr>)"
    using RenewDone(4) unfolding granted_def session_of_def by simp
  from lease_inv_owned [OF inv this] show ?thesis unfolding RenewDone(1) sys_defs by simp
qed

lemma released_facts:
  "session_of (released c r) = session_of r" "ow_epoch (released c r) = ow_epoch r" "expiry (released c r) = 0"
  by (simp_all add: released_def session_of_def Let_def split: option.splits)

lemma release_step_inv:
  assumes inv: "lease_inv P g" and st: "release_step P g g'"
  shows "lease_inv P g'"
  using st
proof (cases rule: release_step.cases)
  case (ReleaseLoad gen r s m checkpoint)
  let ?r = "(released checkpoint r)\<lparr>ow_mutation := m\<rparr>"
  let ?g = "g\<lparr>sy_stopped := insert s (sy_stopped g)\<rparr>"
  have "lease_inv P ?g" by (rule lease_inv_frame [OF inv]) (simp_all add: grows_def held_def subset_insertI)
  moreover have "pending_ok P ?g (ReleaseSwap s gen ?r)"
  proof -
    have "session_of r = s" using ReleaseLoad(3) by (cases s) (simp add: releasable_def session_of_def)
    moreover have "session_of ?r = session_of r" "ow_epoch ?r = ow_epoch r" "expiry ?r = 0"
      using released_facts by (simp_all add: session_of_def)
    ultimately show ?thesis
      using auth_history [OF lease_invD(1) [OF inv] ReleaseLoad(2)] by (auto simp: expiry_ok_def)
  qed
  ultimately show ?thesis
    unfolding ReleaseLoad(1) sys_defs using lease_inv_pending [of P ?g "ReleaseSwap s gen ?r" "{}"] by simp
next
  case (ReleaseSwapped s gen r gen')
  have p: "pending_ok P g (ReleaseSwap s gen r)" using lease_invD(2) [OF inv ReleaseSwapped(2)] .
  then obtain q where q: "(gen, q) \<in> sy_history g" "session_of q = s" "ow_epoch q = ow_epoch r" by auto
  obtain g0 where "sy_auth g = Some (g0, q)"
    using swappable_read [OF lease_invD(1) [OF inv] ReleaseSwapped(3) q(1)] by blast
  with p q have "follows P g r" by (simp add: follows_def)
  then show ?thesis
    unfolding ReleaseSwapped(1) sys_defs
    by (rule lease_inv_install [OF inv _ swappable_newer [OF lease_invD(1) [OF inv] ReleaseSwapped(3)]])
       (auto simp: install_def held_def)
qed

lemma lease_step_inv:
  "params_ok P \<Longrightarrow> lease_inv P g \<Longrightarrow> lease_step P g g' \<Longrightarrow> lease_inv P g'"
  unfolding lease_step_def
  using activation_step_inv local_step_inv renewal_step_inv release_step_inv by blast

lemma lease_init_inv: "lease_init g \<Longrightarrow> lease_inv P g"
  by (simp add: lease_init_def lease_inv_def history_ok_def held_def)

definition lease_inv_if_ok :: "lease_params \<Rightarrow> lease_sys \<Rightarrow> bool" where
  "lease_inv_if_ok P g \<longleftrightarrow> (params_ok P \<longrightarrow> lease_inv P g)"

interpretation leases: invariant_of lease_init "lease_step P" "lease_inv_if_ok P" for P
  by unfold_locales (auto simp: lease_inv_if_ok_def lease_init_inv intro: lease_step_inv)

lemma reachable_lease_inv:
  "params_ok P \<Longrightarrow> lease_init g0 \<Longrightarrow> (lease_step P)\<^sup>*\<^sup>* g0 g \<Longrightarrow> lease_inv P g"
  using leases.reachable_invar [of g0 P g] by (simp add: lease_inv_if_ok_def)

section \<open>One owner at a time\<close>

lemma may_write_granted:
  assumes "lease_inv P g" "may_write g s"
  obtains r where "sy_owned g s = Some r" "sy_now g < expiry r" "granted g s r"
proof -
  from assms(2) obtain r where "sy_owned g s = Some r" "sy_now g < expiry r"
    by (auto simp: may_write_def split: option.splits)
  moreover from this have "granted g s r" using lease_invD(3) [OF assms(1)] by (simp add: held_def)
  ultimately show thesis using that by blast
qed

lemma may_write_current:
  assumes inv: "lease_inv P g" and w: "may_write g s" and ns: "s \<notin> sy_stopped g"
  shows "\<exists>gen q. sy_auth g = Some (gen, q) \<and> session_of q = s \<and> sy_now g < expiry q \<and>
    map_option ow_epoch (sy_owned g s) = Some (ow_epoch q)"
  using w
proof (rule may_write_granted [OF inv])
  fix r
  assume r: "sy_owned g s = Some r" "sy_now g < expiry r" "granted g s r"
  with ns obtain gen q where q: "sy_auth g = Some (gen, q)" "ow_epoch r = ow_epoch q" "expiry r \<le> expiry q"
    unfolding granted_def by auto
  from r(3) obtain h0 q0 where "(h0, q0) \<in> sy_history g" "session_of q0 = s" "ow_epoch q0 = ow_epoch r"
    unfolding granted_def by blast
  then have "session_of q = s"
    using history_owner [OF lease_invD(1) [OF inv], of h0 q0 gen q] auth_history [OF lease_invD(1) [OF inv] q(1)] q(2)
    by simp
  with q r show ?thesis by auto
qed

text \<open>C1. Mutual exclusion: in every reachable state at most one session that has not begun to
  release its lease passes the check in front of a write. Reads, claims, renewals and releases
  of any number of hosts may interleave, swaps may succeed unseen, hosts may crash and hints
  may be stale.\<close>

theorem one_writer_at_a_time:
  assumes "params_ok P" and "lease_init g0" and "(lease_step P)\<^sup>*\<^sup>* g0 g"
    and "may_write g s" and "s \<notin> sy_stopped g" and "may_write g t" and "t \<notin> sy_stopped g"
  shows "s = t"
  using may_write_current [OF reachable_lease_inv [OF assms(1-3)] assms(4,5)]
    may_write_current [OF reachable_lease_inv [OF assms(1-3)] assms(6,7)] by auto

text \<open>C10. The writer is the owner of record: while a session that has not begun to release
  passes the check, the ownership object names it, under the epoch it writes with, and with a
  lease that has not run out.\<close>

theorem writer_is_owner_of_record:
  assumes "params_ok P" and "lease_init g0" and "(lease_step P)\<^sup>*\<^sup>* g0 g"
    and "may_write g s" and "s \<notin> sy_stopped g"
  shows "\<exists>gen q. sy_auth g = Some (gen, q) \<and> session_of q = s \<and> sy_now g < expiry q \<and>
    map_option ow_epoch (sy_owned g s) = Some (ow_epoch q)"
  using may_write_current [OF reachable_lease_inv [OF assms(1-3)] assms(4,5)] .

text \<open>C19. An epoch belongs to one session for ever: two sessions that hold records of the same
  epoch are the same, even when their leases have run out or are released. With the disjoint
  object names of epochs this fences every late write.\<close>

theorem epoch_has_one_owner:
  assumes "params_ok P" and "lease_init g0" and "(lease_step P)\<^sup>*\<^sup>* g0 g"
    and "sy_owned g s = Some r" and "sy_owned g t = Some q" and "ow_epoch r = ow_epoch q"
  shows "s = t"
proof -
  note inv = reachable_lease_inv [OF assms(1-3)]
  have "granted g s r" "granted g t q" using lease_invD(3) [OF inv] assms(4,5) by (simp_all add: held_def)
  then obtain h1 q1 h2 q2 where "(h1, q1) \<in> sy_history g" "session_of q1 = s" "ow_epoch q1 = ow_epoch r"
    "(h2, q2) \<in> sy_history g" "session_of q2 = t" "ow_epoch q2 = ow_epoch q"
    unfolding granted_def by blast
  then show ?thesis using history_owner [OF lease_invD(1) [OF inv], of h1 q1 h2 q2] assms(6) by simp
qed

section \<open>Takeover\<close>

lemma lease_step_intros:
  "activation_step P g g' \<Longrightarrow> (lease_step P)\<^sup>*\<^sup>* g g'" "local_step P g g' \<Longrightarrow> (lease_step P)\<^sup>*\<^sup>* g g'"
  by (auto simp: lease_step_def)

text \<open>Nothing but the checks of the code stands in the way of an activation.\<close>

lemma activation_path:
  assumes v: "validate_activation (lp_config P) (sy_now g) (lp_actor P) (lp_request P s) (lp_region P)
      (map_option snd (sy_auth g)) = Inr ()"
    and r: "activation_record (lp_config P) (sy_now g) (lp_actor P) (lp_request P s) (lp_region P)
      (map_option snd (sy_auth g)) = Inr r"
  shows "\<exists>g'. (lease_step P)\<^sup>*\<^sup>* g g' \<and> sy_owned g' s = Some r \<and> sy_now g' = sy_now g \<and>
    sy_stopped g' = sy_stopped g"
proof -
  let ?cur = "sy_auth g" and ?e = "map_option fst (sy_auth g)"
  let ?r = "r\<lparr>ow_base := ow_base r, ow_mutation := ow_mutation r\<rparr>"
  define g1 where "g1 = add (Loaded s ?cur) g"
  define g2 where "g2 = move (Loaded s ?cur) (Validated s ?cur) g1"
  define g3 where "g3 = move (Validated s ?cur) (Claim s ?e ?r) g2"
  define gen where "gen = 1 + \<bar>case ?e of None \<Rightarrow> 0 | Some x \<Rightarrow> x\<bar>"
  define g4 where "g4 = install gen ?r (move (Claim s ?e ?r) (Won s ?r) g3)"
  define g5 where "g5 = (drop_pending (Won s ?r) g4)\<lparr>sy_owned := (sy_owned g4)(s \<mapsto> ?r)\<rparr>"
  note defs = g1_def g2_def g3_def g4_def g5_def add_def move_def install_def drop_pending_def
  have s1: "activation_step P g g1" unfolding g1_def by (rule activation_step.Load)
  have s2: "activation_step P g1 g2"
    unfolding g2_def using v by (intro activation_step.Validate) (simp_all add: g1_def add_def)
  have s3: "activation_step P g2 g3"
    unfolding g3_def using r by (intro activation_step.Build) (simp_all add: g1_def g2_def add_def move_def)
  have sw: "swappable g3 ?e gen"
    unfolding swappable_def gen_def by (simp add: g1_def g2_def g3_def add_def move_def split: option.split)
  have s4: "activation_step P g3 g4"
    unfolding g4_def by (rule activation_step.Swap [OF _ sw]) (simp add: g3_def move_def)
  have s5: "local_step P g4 g5"
    unfolding g5_def by (rule local_step.Remember) (simp add: g4_def install_def move_def)
  have "(lease_step P)\<^sup>*\<^sup>* g g5"
    using s1 s2 s3 s4 s5 lease_step_intros by (meson rtranclp_trans)
  moreover have "sy_owned g5 s = Some r" "sy_now g5 = sy_now g" "sy_stopped g5 = sy_stopped g"
    by (simp_all add: defs)
  ultimately show ?thesis by blast
qed


section \<open>A concrete system\<close>

definition sample_params :: lease_params where
  "sample_params = \<lparr>lp_config = LocalStore, lp_actor = sample_actor, lp_region = ''eu'',
     lp_request = (\<lambda>s. \<lparr>hr_id = ses_host s, hr_session_id = ses_id s, hr_route = ''r1'', hr_duration_ms = 30000\<rparr>)\<rparr>"

definition sample_session :: session where
  "sample_session = Session (HostId ''h1'') ''s1''"

definition sample_sys :: lease_sys where
  "sample_sys = \<lparr>sy_auth = None, sy_now = 5, sy_history = {}, sy_pending = {}, sy_owned = Map.empty, sy_stopped = {}\<rparr>"

lemma sample_params_ok: "params_ok sample_params"
  by (simp add: params_ok_def sample_params_def)

lemma sample_sys_init: "lease_init sample_sys"
  by (simp add: lease_init_def sample_sys_def)

lemma sample_validate:
  "validate_activation (lp_config sample_params) (sy_now sample_sys) (lp_actor sample_params)
     (lp_request sample_params sample_session) (lp_region sample_params) (map_option snd (sy_auth sample_sys)) = Inr ()"
  by (simp add: validate_activation_def sample_sys_def)

lemma sample_activation:
  "activation_record (lp_config sample_params) (sy_now sample_sys) (lp_actor sample_params)
     (lp_request sample_params sample_session) (lp_region sample_params) (map_option snd (sy_auth sample_sys)) =
   Inr sample_record"
proof -
  have "lp_request sample_params sample_session = sample_request"
    by (simp add: sample_params_def sample_session_def sample_request_def)
  then show ?thesis
    by (simp add: activation_record_def sample_sys_def sample_new_lease sample_params_def sample_record_def)
qed

lemma sample_reached:
  "\<exists>g. (lease_step sample_params)\<^sup>*\<^sup>* sample_sys g \<and> sy_owned g sample_session = Some sample_record \<and>
     may_write g sample_session \<and> sample_session \<notin> sy_stopped g"
proof -
  obtain g where g: "(lease_step sample_params)\<^sup>*\<^sup>* sample_sys g" "sy_owned g sample_session = Some sample_record"
    "sy_now g = sy_now sample_sys" "sy_stopped g = sy_stopped sample_sys"
    using activation_path [OF sample_validate sample_activation] by blast
  moreover have "sy_now sample_sys < expiry sample_record"
    by (simp add: sample_sys_def sample_record_def sample_lease_def)
  moreover have "sy_stopped sample_sys = {}" by (simp add: sample_sys_def)
  ultimately show ?thesis by (intro exI [of _ g]) (simp add: may_write_def)
qed

theorem one_writer_at_a_time_witness:
  "\<exists>g. (lease_step sample_params)\<^sup>*\<^sup>* sample_sys g \<and> may_write g sample_session \<and>
     (\<forall>t. may_write g t \<and> t \<notin> sy_stopped g \<longrightarrow> t = sample_session)"
proof -
  obtain g where "(lease_step sample_params)\<^sup>*\<^sup>* sample_sys g" "may_write g sample_session" "sample_session \<notin> sy_stopped g"
    using sample_reached by blast
  with one_writer_at_a_time [OF sample_params_ok sample_sys_init] show ?thesis by blast
qed

theorem writer_is_owner_of_record_witness:
  "\<exists>g gen q. (lease_step sample_params)\<^sup>*\<^sup>* sample_sys g \<and> sy_auth g = Some (gen, q) \<and> session_of q = sample_session"
proof -
  obtain g where "(lease_step sample_params)\<^sup>*\<^sup>* sample_sys g" "may_write g sample_session" "sample_session \<notin> sy_stopped g"
    using sample_reached by blast
  with writer_is_owner_of_record [OF sample_params_ok sample_sys_init] show ?thesis by blast
qed

theorem epoch_has_one_owner_witness:
  "\<exists>g. (lease_step sample_params)\<^sup>*\<^sup>* sample_sys g \<and>
     (\<forall>t q. sy_owned g t = Some q \<and> ow_epoch q = 1 \<longrightarrow> t = sample_session)"
proof -
  obtain g where g: "(lease_step sample_params)\<^sup>*\<^sup>* sample_sys g" "sy_owned g sample_session = Some sample_record"
    using sample_reached by blast
  have "t = sample_session" if "sy_owned g t = Some q" "ow_epoch q = 1" for t q
    using epoch_has_one_owner [OF sample_params_ok sample_sys_init g(1) that(1) g(2)] that(2)
    by (simp add: sample_record_def)
  with g(1) show ?thesis by blast
qed


end
