(* ===== verification/Runtime_Storage.thy ===== *)
theory Runtime_Storage
  imports Ownership Bucket_Store Recovery
begin

text \<open>
  The operations of \<open>RuntimeStorage\<close> (\<open>bucket/runtime.rs\<close>,
  \<open>bucket/runtime/activation.rs\<close>, \<open>bucket/runtime/session.rs\<close>): loading and
  activating an actor, renewing and releasing its lease, writing a snapshot and draining a
  session, as functions on the state of the storage and of the process. The snapshot store is
  the record of the trait's operations; \<open>bucket_snapshots\<close> is the store on a bucket. The
  n-th question to the environment, for the time or for a UUID, is answered by
  \<open>re_now\<close> and \<open>re_uuid\<close>; \<open>re_race\<close> says which of two concurrent reads ends
  first. The JSON of an ownership record is \<open>re_own_encode\<close> and \<open>re_own_decode\<close>.
  The clock does not fail: the
  system clock fails only for a time before 1970. Telemetry is left out.
\<close>

section \<open>The environment and the state\<close>

record 's snapshot_store =
  st_get :: "string \<Rightarrow> 's \<Rightarrow> bytes option result"
  st_list :: "string \<Rightarrow> 's \<Rightarrow> string list result"
  st_latest :: "string \<Rightarrow> 's \<Rightarrow> (string \<times> bytes) option result"
  st_put :: "string \<Rightarrow> bytes \<Rightarrow> 's \<Rightarrow> unit result \<times> 's"
  st_prefetch :: "SnapshotRef \<Rightarrow> 's \<Rightarrow> PrefetchedCheckpoint option result"
  st_start :: "StateStream \<Rightarrow> 's \<Rightarrow> unit result \<times> 's"
  st_recover :: "string \<Rightarrow> 's \<Rightarrow> (string \<times> bytes) option result \<times> 's"
  st_finish :: "StateStream \<Rightarrow> 's \<Rightarrow> unit result \<times> 's"

definition bucket_snapshots :: "'s bucket \<Rightarrow> 's snapshot_store" where
  "bucket_snapshots B =
     \<lparr>st_get = snap_get B, st_list = bk_list B, st_latest = snap_latest B, st_put = snap_put B,
      st_prefetch = (\<lambda>_ _. Inr None), st_start = (\<lambda>_ s. (Inr (), s)),
      st_recover = snap_recover B, st_finish = (\<lambda>_ s. (Inr (), s))\<rparr>"

record ('s, 'v) runtime_env =
  re_crypto :: crypto
  re_json :: "'v snapshot_json"
  re_own_encode :: "Ownership \<Rightarrow> bytes result"
  re_own_decode :: "bytes \<Rightarrow> Ownership result"
  re_authority :: "'s bucket"
  re_store :: "'s snapshot_store"
  re_persistence :: SnapshotStoreConfig
  re_now :: "nat \<Rightarrow> u64"
  re_uuid :: "nat \<Rightarrow> string"
  re_race :: "nat \<Rightarrow> bool"

record UploadedSnapshots =
  us_started :: u64
  us_completed :: u64
  us_latest :: "SnapshotRef option"

record LoadedActor =
  la_placement :: ObjectPlacement
  la_state :: "bytes option"
  la_checkpoint :: "PrefetchedCheckpoint option"

record 's runtime =
  rt_store :: 's
  rt_owned :: "string \<rightharpoonup> Ownership"
  rt_uploaded :: "string \<rightharpoonup> UploadedSnapshots"
  rt_tick :: nat

definition default_uploaded :: UploadedSnapshots where
  "default_uploaded = \<lparr>us_started = 0, us_completed = 0, us_latest = None\<rparr>"

definition uploaded_entry :: "'s runtime \<Rightarrow> string \<Rightarrow> UploadedSnapshots" where
  "uploaded_entry s session = (case rt_uploaded s session of None \<Rightarrow> default_uploaded | Some u \<Rightarrow> u)"

definition ask :: "(nat \<Rightarrow> 'a) \<Rightarrow> ('s runtime, 'a) op" where
  "ask f s = (Inr (f (rt_tick s)), s\<lparr>rt_tick := Suc (rt_tick s)\<rparr>)"

definition now_ms :: "('s, 'v) runtime_env \<Rightarrow> ('s runtime, u64) op" where
  "now_ms E = ask (re_now E)"

definition read_store :: "('s \<Rightarrow> 'a result) \<Rightarrow> ('s runtime, 'a) op" where
  "read_store f s = (f (rt_store s), s)"

definition on_store :: "('s \<Rightarrow> 'a result \<times> 's) \<Rightarrow> ('s runtime, 'a) op" where
  "on_store f s = (case f (rt_store s) of (r, t) \<Rightarrow> (r, s\<lparr>rt_store := t\<rparr>))"

lemma runtime_op_Inr [op_simps]:
  "ask g s = (Inr x, s') \<longleftrightarrow> x = g (rt_tick s) \<and> s' = s\<lparr>rt_tick := Suc (rt_tick s)\<rparr>"
  "now_ms E s = (Inr y, s') \<longleftrightarrow> y = re_now E (rt_tick s) \<and> s' = s\<lparr>rt_tick := Suc (rt_tick s)\<rparr>"
  "read_store h s = (Inr z, s') \<longleftrightarrow> h (rt_store s) = Inr z \<and> s' = s"
  "on_store f s = (Inr w, s') \<longleftrightarrow> (\<exists>t. f (rt_store s) = (Inr w, t) \<and> s' = s\<lparr>rt_store := t\<rparr>)"
  by (auto simp: ask_def now_ms_def read_store_def on_store_def split: prod.splits)

section \<open>Loading\<close>

definition load :: "('s, 'v) runtime_env \<Rightarrow> ActorStorageKey \<Rightarrow> ('s runtime, (int \<times> Ownership) option) op" where
  "load E obj =
     bind_op (lift_op (ownership_key (re_crypto E) obj)) (\<lambda>key.
     bind_op (read_store (bk_get (re_authority E) key)) (\<lambda>found.
     lift_op (transpose_opt (map_option (\<lambda>value.
       rbind (re_own_decode E (obj_bytes value)) (\<lambda>record.
       ensure (same_backend (ow_persistence record) (re_persistence E))
         ''actor persistence backend changed; an explicit state migration is required'' (
       Inr (generation value, record)))) found))))"

definition load_latest ::
    "('s, 'v) runtime_env \<Rightarrow> Ownership \<Rightarrow> LoadedSnapshot option \<Rightarrow> ('s runtime, LoadedSnapshot option) op" where
  "load_latest E r loaded =
     bind_op (lift_op (advance (ow_base r) (map_option ls_reference loaded))) (\<lambda>candidate.
     case candidate of
       Some snapshot \<Rightarrow>
         if map_option ls_reference loaded \<noteq> Some snapshot then
           bind_op (read_store (st_get (re_store E) (sr_object snapshot))) (\<lambda>found.
           bind_op (lift_op (context_opt ''acknowledged snapshot is unavailable'' found)) (\<lambda>b.
           bind_op (lift_op (ref_verify (re_crypto E) snapshot b)) (\<lambda>_.
           ret_op (Some \<lparr>ls_reference = snapshot, ls_bytes = b\<rparr>))))
         else ret_op loaded
     | None \<Rightarrow> ret_op loaded)"

definition latest ::
    "('s, 'v) runtime_env \<Rightarrow> Ownership \<Rightarrow> LoadedSnapshot option \<Rightarrow> ('s runtime, LoadedSnapshot option) op" where
  "latest E r known =
     bind_op (lift_op (stream (re_crypto E) r)) (\<lambda>st.
     bind_op (read_store (st_latest (re_store E) (ss_prefix st))) (\<lambda>found.
     bind_op (lift_op (transpose_opt
       (map_option (\<lambda>(key, b). decode_snapshot (re_crypto E) (re_json E) key b) found))) (\<lambda>newest.
     load_latest E r (case newest of Some x \<Rightarrow> Some x | None \<Rightarrow> known))))"

definition current_placement :: "('s, 'v) runtime_env \<Rightarrow> Ownership \<Rightarrow> ('s runtime, ObjectPlacement) op" where
  "current_placement E r =
     bind_op (latest E r None) (\<lambda>l. ret_op (apply_snapshot (placement r) (map_option ls_reference l)))"

definition get_owner_with_hint ::
    "('s, 'v) runtime_env \<Rightarrow> ActorStorageKey \<Rightarrow> ('s runtime, ObjectPlacement option \<times> OwnershipHint option) op" where
  "get_owner_with_hint E obj =
     bind_op (load E obj) (\<lambda>found.
     ret_op (case found of
       Some (gen, r) \<Rightarrow> (Some (placement r), Some \<lparr>oh_generation = gen, oh_record = r\<rparr>)
     | None \<Rightarrow> (None, None)))"

definition get_placement :: "('s, 'v) runtime_env \<Rightarrow> ActorStorageKey \<Rightarrow> ('s runtime, ObjectPlacement option) op" where
  "get_placement E obj =
     bind_op (load E obj) (\<lambda>found.
     case found of
       Some (_, r) \<Rightarrow> bind_op (current_placement E r) (\<lambda>p. ret_op (Some p))
     | None \<Rightarrow> ret_op None)"

definition read_snapshot :: "('s, 'v) runtime_env \<Rightarrow> string \<Rightarrow> ('s runtime, bytes) op" where
  "read_snapshot E obj =
     bind_op (read_store (st_get (re_store E) obj)) (\<lambda>found.
     lift_op (context_opt ''snapshot unavailable'' found))"

definition remember :: "Ownership \<Rightarrow> LoadedSnapshot option \<Rightarrow> ('s runtime, LoadedActor) op" where
  "remember r snapshot s =
     (let p = apply_snapshot (placement r) (map_option ls_reference snapshot);
          session = hl_session_id (ow_lease r);
          s = (case snapshot of
                 None \<Rightarrow> s
               | Some l \<Rightarrow> s\<lparr>rt_uploaded := (rt_uploaded s)(session \<mapsto>
                   (uploaded_entry s session)\<lparr>us_latest := Some (ls_reference l)\<rparr>)\<rparr>);
          s = s\<lparr>rt_owned := (rt_owned s)(as_str (storage_key (ow_actor r)) \<mapsto> r)\<rparr>
      in (Inr \<lparr>la_placement = p, la_state = map_option ls_bytes snapshot, la_checkpoint = None\<rparr>, s))"

definition load_actor :: "('s, 'v) runtime_env \<Rightarrow> Ownership \<Rightarrow> ('s runtime, LoadedActor) op" where
  "load_actor E r = bind_op (latest E r None) (remember r)"

definition activate_actor ::
    "('s, 'v) runtime_env \<Rightarrow> ActorKey \<Rightarrow> HostLease \<Rightarrow> string \<Rightarrow> ('s runtime, LoadedActor) op" where
  "activate_actor E actor lease region =
     bind_op (load E (storage_key actor)) (\<lambda>found.
     bind_op (lift_op (context_opt ''actor has no ownership'' found)) (\<lambda>(_, r).
     ensure_op (ow_actor r = actor \<and> ow_region r = region \<and> hl_id (ow_lease r) = hl_id lease \<and>
                hl_session_id (ow_lease r) = hl_session_id lease) ''actor ownership changed'' (
     load_actor E r)))"

definition owned_actor ::
    "('s, 'v) runtime_env \<Rightarrow> ActorKey \<Rightarrow> HostLease \<Rightarrow> u64 \<Rightarrow> ('s runtime, Ownership) op" where
  "owned_actor E actor lease epoch =
     bind_op (load E (storage_key actor)) (\<lambda>found.
     bind_op (lift_op (context_opt ''actor has no ownership'' found)) (\<lambda>(_, r).
     ensure_op (ow_actor r = actor \<and> hl_id (ow_lease r) = hl_id lease \<and>
                hl_session_id (ow_lease r) = hl_session_id lease \<and> ow_epoch r = epoch)
       ''actor ownership changed'' (
     ret_op r)))"

definition load_owned_actor ::
    "('s, 'v) runtime_env \<Rightarrow> ActorKey \<Rightarrow> HostLease \<Rightarrow> u64 \<Rightarrow> ('s runtime, LoadedActor) op" where
  "load_owned_actor E actor lease epoch = bind_op (owned_actor E actor lease epoch) (load_actor E)"

definition prepare_actor_write ::
    "('s, 'v) runtime_env \<Rightarrow> ActorKey \<Rightarrow> HostLease \<Rightarrow> u64 \<Rightarrow> u64 \<Rightarrow> ('s runtime, WritePlan) op" where
  "prepare_actor_write E actor lease epoch v s =
     (rbind (context_opt ''actor is not locally activated'' (rt_owned s (as_str (storage_key actor)))) (\<lambda>r.
      ensure (hl_id (ow_lease r) = hl_id lease \<and> hl_session_id (ow_lease r) = hl_session_id lease \<and>
              ow_epoch r = epoch) ''actor ownership changed'' (
      write_plan (re_crypto E) r v)), s)"

section \<open>Replacing the ownership object\<close>

definition replace_activation ::
    "('s, 'v) runtime_env \<Rightarrow> Ownership \<Rightarrow> int option \<Rightarrow> ('s runtime, bool \<times> Ownership) op" where
  "replace_activation E r gen =
     bind_op (ask (re_uuid E)) (\<lambda>uuid.
     let r = r\<lparr>ow_mutation := uuid\<rparr> in
     bind_op (lift_op (ownership_key (re_crypto E) (storage_key (ow_actor r)))) (\<lambda>key.
     bind_op (lift_op (re_own_encode E r)) (\<lambda>b.
     bind_op (on_store (replace (re_authority E) key gen b)) (\<lambda>ok.
     ret_op (ok, r)))))"

definition save_activation :: "('s, 'v) runtime_env \<Rightarrow> Ownership \<Rightarrow> int option \<Rightarrow> ('s runtime, Ownership) op" where
  "save_activation E r gen =
     bind_op (replace_activation E r gen) (\<lambda>(ok, r).
     ensure_op ok ''actor activation changed concurrently'' (ret_op r))"

definition renew_activation ::
    "('s, 'v) runtime_env \<Rightarrow> ActorKey \<Rightarrow> HostLeaseRequest \<Rightarrow> ('s runtime, HostLease) op" where
  "renew_activation E actor request =
     bind_op (load E (storage_key actor)) (\<lambda>found.
     bind_op (lift_op (context_opt ''actor ownership missing'' found)) (\<lambda>(gen, r).
     ensure_op (ow_actor r = actor \<and> hl_id (ow_lease r) = hr_id request \<and>
                hl_session_id (ow_lease r) = hr_session_id request) ''actor ownership changed'' (
     bind_op (now_ms E) (\<lambda>now.
     bind_op (lift_op (renewal_check now actor request r)) (\<lambda>_.
     bind_op (now_ms E) (\<lambda>now.
     bind_op (lift_op (new_lease now request)) (\<lambda>lease.
     bind_op (save_activation E (r\<lparr>ow_lease := lease\<rparr>) (Some gen)) (\<lambda>r.
     (\<lambda>s. case rt_owned s (as_str (storage_key actor)) of
            None \<Rightarrow> (Inr lease, s)
          | Some own \<Rightarrow>
              if ow_epoch own = ow_epoch r
              then (Inr lease, s\<lparr>rt_owned := (rt_owned s)(as_str (storage_key actor) \<mapsto> own\<lparr>ow_lease := lease\<rparr>)\<rparr>)
              else (Inl ''local ownership epoch changed'', s))))))))))"

fun release_attempts :: "nat \<Rightarrow> ('s, 'v) runtime_env \<Rightarrow> ActorKey \<Rightarrow> HostId \<Rightarrow> string \<Rightarrow>
    SessionCheckpoint option \<Rightarrow> ('s runtime, unit) op" where
  "release_attempts 0 E actor host session checkpoint =
     lift_op (Inl ''actor activation kept changing during release'')"
| "release_attempts (Suc n) E actor host session checkpoint =
     bind_op (load E (storage_key actor)) (\<lambda>found.
     case found of
       None \<Rightarrow> ret_op ()
     | Some (gen, r) \<Rightarrow>
         if \<not> releasable host session r then ret_op ()
         else
           bind_op (replace_activation E (released checkpoint r) (Some gen)) (\<lambda>(ok, _).
           if ok then ret_op () else release_attempts n E actor host session checkpoint))"

definition release_with_checkpoint ::
    "('s, 'v) runtime_env \<Rightarrow> ActorKey \<Rightarrow> HostId \<Rightarrow> string \<Rightarrow> SessionCheckpoint option \<Rightarrow> ('s runtime, unit) op" where
  "release_with_checkpoint E actor host session checkpoint =
     release_attempts 3 E actor host session checkpoint"

definition release_activation ::
    "('s, 'v) runtime_env \<Rightarrow> ActorKey \<Rightarrow> HostId \<Rightarrow> string \<Rightarrow> ('s runtime, unit) op" where
  "release_activation E actor host session = release_with_checkpoint E actor host session None"

section \<open>Activation\<close>

record ActivationRecovery =
  ar_snapshot :: "LoadedSnapshot option"
  ar_checkpoint :: "PrefetchedCheckpoint option"

definition default_recovery :: ActivationRecovery where
  "default_recovery = \<lparr>ar_snapshot = None, ar_checkpoint = None\<rparr>"

definition prefetch_activation_checkpoint ::
    "('s, 'v) runtime_env \<Rightarrow> Ownership \<Rightarrow> ('s runtime, PrefetchedCheckpoint option) op" where
  "prefetch_activation_checkpoint E r =
     (case ow_base r of
        Some base \<Rightarrow>
          bind_op (try_op (read_store (st_prefetch (re_store E) base))) (\<lambda>res.
          ret_op (case res of Inr cp \<Rightarrow> cp | Inl _ \<Rightarrow> None))
      | None \<Rightarrow> ret_op None)"

definition load_activation_snapshot :: "('s, 'v) runtime_env \<Rightarrow> Ownership \<Rightarrow> ('s runtime, ActivationRecovery) op" where
  "load_activation_snapshot E r =
     bind_op (load_latest E r None) (\<lambda>snapshot. ret_op (default_recovery\<lparr>ar_snapshot := snapshot\<rparr>))"

text \<open>The snapshot and the checkpoint are read concurrently; when the snapshot is there first
  and depends on nothing, the checkpoint is not waited for.\<close>

definition recover_sealed_activation :: "('s, 'v) runtime_env \<Rightarrow> Ownership \<Rightarrow> ('s runtime, ActivationRecovery) op" where
  "recover_sealed_activation E r =
     bind_op (ask (re_race E)) (\<lambda>snapshot_first.
     bind_op (load_activation_snapshot E r) (\<lambda>recovery.
     bind_op (lift_op (if snapshot_first then
         (case ar_snapshot recovery of
            Some l \<Rightarrow> rbind (snapshot_decode (re_json E) (ls_bytes l)) (\<lambda>s. Inr (parent (sqlite s) \<noteq> None))
          | None \<Rightarrow> Inr False)
       else Inr True)) (\<lambda>needs_checkpoint.
     if \<not> needs_checkpoint then ret_op recovery
     else bind_op (prefetch_activation_checkpoint E r) (\<lambda>cp. ret_op (recovery\<lparr>ar_checkpoint := cp\<rparr>)))))"

definition recover_activation :: "('s, 'v) runtime_env \<Rightarrow> Ownership option \<Rightarrow> ('s runtime, ActivationRecovery) op" where
  "recover_activation E current =
     (case current of
        None \<Rightarrow> ret_op default_recovery
      | Some r \<Rightarrow>
          if ow_sealed r then recover_sealed_activation E r
          else
            bind_op (lift_op (stream (re_crypto E) r)) (\<lambda>st.
            bind_op (on_store (st_recover (re_store E) (ss_prefix st))) (\<lambda>found.
            bind_op (lift_op (transpose_opt
              (map_option (\<lambda>(key, b). decode_snapshot (re_crypto E) (re_json E) key b) found))) (\<lambda>recovered.
            bind_op (load_latest E r recovered) (\<lambda>snapshot.
            ret_op (default_recovery\<lparr>ar_snapshot := snapshot\<rparr>))))))"

text \<open>The claim of a sealed or absent record and the recovery of its state are joined: both run
  to their end, and neither reads what the other writes.\<close>

definition claim_and_recover ::
    "('s, 'v) runtime_env \<Rightarrow> (int \<times> Ownership) option \<Rightarrow> Ownership \<Rightarrow>
     ('s runtime, ActivationRecovery result \<times> bool \<times> Ownership) op" where
  "claim_and_recover E current r =
     (let previous = map_option snd current; expected = map_option fst current in
      if (case previous of None \<Rightarrow> True | Some q \<Rightarrow> ow_sealed q) then
        bind_op (try_op (recover_activation E previous)) (\<lambda>recovery.
        bind_op (replace_activation E r expected) (\<lambda>(replaced, r).
        ret_op (recovery, replaced, r)))
      else
        bind_op (recover_activation E previous) (\<lambda>recovery.
        bind_op (replace_activation E
          (r\<lparr>ow_base := map_option ls_reference (ar_snapshot recovery)\<rparr>) expected) (\<lambda>(replaced, r).
        ret_op (Inr recovery, replaced, r))))"

text \<open>After a won claim: the stream is opened and the record kept; when the state could not be
  recovered the lease is given back.\<close>

definition adopt_activation ::
    "('s, 'v) runtime_env \<Rightarrow> ActorKey \<Rightarrow> HostLeaseRequest \<Rightarrow> ActivationRecovery result \<Rightarrow> Ownership \<Rightarrow>
     ('s runtime, LoadedActor) op" where
  "adopt_activation E actor request recovery r =
     (case recovery of
        Inl e \<Rightarrow>
          bind_op (try_op (release_with_checkpoint E actor (hr_id request) (hr_session_id request)
            (Some \<lparr>sc_snapshot = ow_base r\<rparr>))) (\<lambda>_. lift_op (Inl e))
      | Inr recovered \<Rightarrow>
          bind_op (lift_op (stream (re_crypto E) r)) (\<lambda>st.
          bind_op (on_store (st_start (re_store E) st)) (\<lambda>_.
          bind_op (remember r (ar_snapshot recovered)) (\<lambda>loaded.
          ret_op (loaded\<lparr>la_checkpoint := ar_checkpoint recovered\<rparr>)))))"

definition activation_current ::
    "('s, 'v) runtime_env \<Rightarrow> ActorKey \<Rightarrow> bool \<Rightarrow> OwnershipHint option \<Rightarrow> ('s runtime, (int \<times> Ownership) option) op" where
  "activation_current E actor skip_read hint =
     (case hint of
        Some h \<Rightarrow> ret_op (Some (oh_generation h, oh_record h))
      | None \<Rightarrow> if skip_read then ret_op None else load E (storage_key actor))"

text \<open>One pass of the loop over the hint and no hint; \<open>None\<close> is \<open>continue\<close>.\<close>

definition activation_outcome ::
    "('s, 'v) runtime_env \<Rightarrow> ActorKey \<Rightarrow> HostLeaseRequest \<Rightarrow> OwnershipHint option \<Rightarrow>
     ActivationRecovery result \<times> bool \<times> Ownership \<Rightarrow> ('s runtime, LoadedActor option) op" where
  "activation_outcome E actor request hint = (\<lambda>(recovery, replaced, r).
     if \<not> replaced then
       ensure_op (hint \<noteq> None) ''actor activation changed concurrently'' (ret_op None)
     else bind_op (adopt_activation E actor request recovery r) (\<lambda>loaded. ret_op (Some loaded)))"

definition activation_attempt ::
    "('s, 'v) runtime_env \<Rightarrow> ActorKey \<Rightarrow> HostLeaseRequest \<Rightarrow> string \<Rightarrow> bool \<Rightarrow> OwnershipHint option \<Rightarrow>
     ('s runtime, LoadedActor option) op" where
  "activation_attempt E actor request region skip_read hint =
     bind_op (activation_current E actor skip_read hint) (\<lambda>current.
     bind_op (now_ms E) (\<lambda>now.
     bind_op (lift_op (validate_activation (re_persistence E) now actor request region
       (map_option snd current))) (\<lambda>_.
     bind_op (now_ms E) (\<lambda>now.
     bind_op (lift_op (activation_record (re_persistence E) now actor request region
       (map_option snd current))) (\<lambda>r.
     bind_op (claim_and_recover E current r) (activation_outcome E actor request hint))))))"

definition activation_loop ::
    "('s, 'v) runtime_env \<Rightarrow> ActorKey \<Rightarrow> HostLeaseRequest \<Rightarrow> string \<Rightarrow> bool \<Rightarrow> OwnershipHint option \<Rightarrow>
     ('s runtime, LoadedActor) op" where
  "activation_loop E actor request region skip_read hint =
     bind_op (activation_attempt E actor request region skip_read hint) (\<lambda>first.
     case first of
       Some loaded \<Rightarrow> ret_op loaded
     | None \<Rightarrow>
         bind_op (activation_attempt E actor request region skip_read None) (\<lambda>second.
         case second of
           Some loaded \<Rightarrow> ret_op loaded
         | None \<Rightarrow> lift_op (Inl ''actor activation changed concurrently'')))"

definition register_activation ::
    "('s, 'v) runtime_env \<Rightarrow> ActorKey \<Rightarrow> HostLeaseRequest \<Rightarrow> string \<Rightarrow> bool \<Rightarrow> OwnershipHint option \<Rightarrow>
     ('s runtime, LoadedActor) op" where
  "register_activation E actor request region new_actor owner_hint =
     bind_op (lift_op (actor_validate actor)) (\<lambda>_.
     bind_op (lift_op (validate_region region)) (\<lambda>_.
     bind_op (lift_op (validate_duration request)) (\<lambda>_.
     bind_op (now_ms E) (\<lambda>now.
     let hint = Option.bind owner_hint (\<lambda>h. if usable_hint now actor request region h then Some h else None)
     in activation_loop E actor request region (new_actor \<and> hint = None) hint))))"

section \<open>Writing snapshots\<close>

definition ensure_write_owner :: "('s, 'v) runtime_env \<Rightarrow> WritePlan \<Rightarrow> ('s runtime, unit) op" where
  "ensure_write_owner E plan =
     bind_op (lift_op (actor_from_snapshot (re_crypto E) (wp_object_name plan))) (\<lambda>actor.
     bind_op (\<lambda>s. (context_opt ''actor is not locally activated'' (rt_owned s (as_str (storage_key actor))), s)) (\<lambda>r.
     bind_op (lift_op (stream (re_crypto E) r)) (\<lambda>st.
     if st \<noteq> wp_stream plan then lift_op (Inl ''actor write authority expired or changed'')
     else bind_op (now_ms E) (\<lambda>now.
       ensure_op (now < hl_expires_at_ms (ow_lease r)) ''actor write authority expired or changed'' (ret_op ())))))"

definition uploaded_latest :: "'s runtime \<Rightarrow> string \<Rightarrow> SnapshotRef \<Rightarrow> bool" where
  "uploaded_latest s session parent_ref \<longleftrightarrow>
     Option.bind (rt_uploaded s session) us_latest = Some parent_ref"

text \<open>The dependency of a commit has to be stored, unless this session restored or wrote it.\<close>

definition check_dependency :: "('s, 'v) runtime_env \<Rightarrow> string \<Rightarrow> bytes \<Rightarrow> ('s runtime, unit) op" where
  "check_dependency E session b =
     bind_op (lift_op (snapshot_decode (re_json E) b)) (\<lambda>snapshot.
     (\<lambda>s. case parent (sqlite snapshot) of
            None \<Rightarrow> (Inr (), s)
          | Some p \<Rightarrow>
              if uploaded_latest s session p then (Inr (), s)
              else
                bind_op (read_store (st_get (re_store E) (sr_object p))) (\<lambda>found.
                bind_op (lift_op (context_opt ''SQLite dependency missing'' found)) (\<lambda>pb.
                lift_op (ref_verify (re_crypto E) p pb))) s))"

definition upload_started :: "string \<Rightarrow> ('s runtime, unit) op" where
  "upload_started session s =
     (Inr (), s\<lparr>rt_uploaded := (rt_uploaded s)(session \<mapsto>
        (uploaded_entry s session)\<lparr>us_started := us_started (uploaded_entry s session) + 1\<rparr>)\<rparr>)"

definition upload_completed :: "string \<Rightarrow> SnapshotRef \<Rightarrow> ('s runtime, unit) op" where
  "upload_completed session snapshot s =
     (let u = uploaded_entry s session; s = s\<lparr>rt_uploaded := (rt_uploaded s)(session \<mapsto> u)\<rparr> in
      case advance (us_latest u) (Some snapshot) of
        Inl e \<Rightarrow> (Inl e, s)
      | Inr newest \<Rightarrow>
          (Inr (), s\<lparr>rt_uploaded := (rt_uploaded s)(session \<mapsto>
             u\<lparr>us_latest := newest, us_completed := us_completed u + 1\<rparr>)\<rparr>))"

definition write_snapshot :: "('s, 'v) runtime_env \<Rightarrow> WritePlan \<Rightarrow> bytes \<Rightarrow> ('s runtime, unit) op" where
  "write_snapshot E plan b =
     (let session = ss_session (wp_stream plan) in
     bind_op (ensure_write_owner E plan) (\<lambda>_.
     bind_op (lift_op (stream_snapshot (re_crypto E) (re_json E) (wp_stream plan) b)) (\<lambda>snapshot.
     ensure_op (sr_object snapshot = wp_object_name plan \<and> sr_state_version snapshot = wp_state_version plan)
       ''write plan does not match snapshot'' (
     bind_op (check_dependency E session b) (\<lambda>_.
     bind_op (upload_started session) (\<lambda>_.
     bind_op (on_store (st_put (re_store E) (sr_object snapshot) b)) (\<lambda>_.
     bind_op (ensure_write_owner E plan) (\<lambda>_.
     upload_completed session snapshot))))))))"

section \<open>Draining\<close>

definition upload_checkpoint :: "Ownership \<Rightarrow> ('s runtime, SessionCheckpoint) op" where
  "upload_checkpoint r s =
     (case rt_uploaded s (hl_session_id (ow_lease r)) of
        None \<Rightarrow> (Inr \<lparr>sc_snapshot = ow_base r\<rparr>, s)
      | Some u \<Rightarrow>
          (ensure (us_started u = us_completed u) ''snapshot uploads did not complete successfully'' (
           rbind (advance (ow_base r) (us_latest u)) (\<lambda>snapshot. Inr \<lparr>sc_snapshot = snapshot\<rparr>)), s))"

definition drain_activation ::
    "('s, 'v) runtime_env \<Rightarrow> ActorKey \<Rightarrow> HostId \<Rightarrow> string \<Rightarrow> ('s runtime, SessionCheckpoint) op" where
  "drain_activation E actor host session =
     bind_op (\<lambda>s. (context_opt ''actor is not locally activated'' (rt_owned s (as_str (storage_key actor))), s)) (\<lambda>r.
     ensure_op (hl_id (ow_lease r) = host \<and> hl_session_id (ow_lease r) = session) ''actor ownership changed'' (
     bind_op (upload_checkpoint r) (\<lambda>checkpoint.
     bind_op (lift_op (stream (re_crypto E) r)) (\<lambda>st.
     bind_op (on_store (st_finish (re_store E) st)) (\<lambda>_.
     ret_op checkpoint)))))"

lemma ensure_write_owner_Inr [op_simps]:
  "ensure_write_owner E plan s = (Inr (), s') \<longleftrightarrow>
    (\<exists>actor r. actor_from_snapshot (re_crypto E) (wp_object_name plan) = Inr actor \<and>
       rt_owned s (as_str (storage_key actor)) = Some r \<and> stream (re_crypto E) r = Inr (wp_stream plan) \<and>
       re_now E (rt_tick s) < hl_expires_at_ms (ow_lease r) \<and> s' = s\<lparr>rt_tick := Suc (rt_tick s)\<rparr>)"
  unfolding ensure_write_owner_def by (auto simp: op_simps context_opt_Inr_iff split: if_splits)

lemma check_dependency_state: "check_dependency E session b s = (Inr (), s') \<Longrightarrow> s' = s"
  by (auto simp: check_dependency_def op_simps split: option.splits if_splits)

section \<open>Operations that only read\<close>

definition reads_only :: "('s runtime, 'a) op \<Rightarrow> bool" where
  "reads_only m \<longleftrightarrow> (\<forall>s r s'. m s = (r, s') \<longrightarrow>
     rt_store s' = rt_store s \<and> rt_owned s' = rt_owned s \<and> rt_uploaded s' = rt_uploaded s)"

named_theorems reading

lemma reads_onlyD:
  "reads_only m \<Longrightarrow> m s = (r, s') \<Longrightarrow>
    rt_store s' = rt_store s \<and> rt_owned s' = rt_owned s \<and> rt_uploaded s' = rt_uploaded s"
  unfolding reads_only_def by blast

lemma reads_only_bind [reading]:
  assumes "reads_only m" "\<And>x. reads_only (f x)"
  shows "reads_only (bind_op m f)"
  unfolding reads_only_def
proof (intro allI impI)
  fix s r s' assume "bind_op m f s = (r, s')"
  then consider e where "m s = (Inl e, s')" | x t where "m s = (Inr x, t)" "f x t = (r, s')"
    by (auto simp: bind_op_def split: prod.splits sum.splits)
  then show "rt_store s' = rt_store s \<and> rt_owned s' = rt_owned s \<and> rt_uploaded s' = rt_uploaded s"
    by cases (use reads_onlyD [OF assms(1)] reads_onlyD [OF assms(2)] in metis)+
qed

lemma reads_only_basic [reading]:
  "reads_only (ret_op x)" "reads_only (lift_op r)" "reads_only (ask f)" "reads_only (now_ms E)"
  "reads_only (read_store g)"
  by (auto simp: reads_only_def ret_op_def lift_op_def ask_def now_ms_def read_store_def)

lemma reads_only_ensure [reading]: "reads_only m \<Longrightarrow> reads_only (ensure_op c msg m)"
  by (auto simp: reads_only_def ensure_op_def)

lemma reads_only_try [reading]: "reads_only m \<Longrightarrow> reads_only (try_op m)"
  by (auto simp: reads_only_def try_op_def split: prod.splits)

lemma reads_only_load [reading]: "reads_only (load E k)"
  unfolding load_def by (intro reading)

lemma reads_only_load_latest [reading]: "reads_only (load_latest E r l)"
  unfolding load_latest_def by (intro reading, split option.split) (auto intro!: reading)

lemma reads_only_prefetch [reading]: "reads_only (prefetch_activation_checkpoint E r)"
  unfolding prefetch_activation_checkpoint_def by (split option.split) (auto intro!: reading)

lemma reads_only_sealed [reading]: "reads_only (recover_sealed_activation E r)"
  unfolding recover_sealed_activation_def load_activation_snapshot_def
  by (intro reading, split if_split) (auto intro!: reading)

lemma reads_only_recover:
  "(case prev of None \<Rightarrow> True | Some r \<Rightarrow> ow_sealed r) \<Longrightarrow> reads_only (recover_activation E prev)"
  unfolding recover_activation_def by (cases prev) (auto intro!: reading)

lemma activation_record_Inr:
  assumes "activation_record cfg now actor request region cur = Inr r"
  shows "ow_actor r = actor" "\<not> ow_sealed r" "ow_base r = Option.bind cur ow_base"
    "hl_id (ow_lease r) = hr_id request" "hl_session_id (ow_lease r) = hr_session_id request"
    "unat (ow_epoch r) = (case cur of None \<Rightarrow> 1 | Some q \<Rightarrow> unat (ow_epoch q) + 1)"
  using assms by (auto simp: activation_record_def new_lease_def result_simps checked_add_Some_iff split: option.splits)

section \<open>The ownership object\<close>

definition own_json_ok :: "('s, 'v) runtime_env \<Rightarrow> bool" where
  "own_json_ok E \<longleftrightarrow> (\<forall>r b. re_own_encode E r = Inr b \<longrightarrow> re_own_decode E b = Inr r)"

definition env_on :: "'s bucket \<Rightarrow> ('s, 'v) runtime_env \<Rightarrow> bool" where
  "env_on B E \<longleftrightarrow> re_authority E = B \<and> re_store E = bucket_snapshots B \<and> own_json_ok E"

text \<open>What the object of an actor holds in a bucket.\<close>

definition owned_by :: "('s, 'v) runtime_env \<Rightarrow> (string \<rightharpoonup> BucketObject) \<Rightarrow> ActorStorageKey \<Rightarrow>
    (int \<times> Ownership) option \<Rightarrow> bool" where
  "owned_by E v obj x \<longleftrightarrow>
     (\<exists>k. ownership_key (re_crypto E) obj = Inr k \<and>
       (case x of
          None \<Rightarrow> v k = None
        | Some (g, r) \<Rightarrow> \<exists>b. v k = Some \<lparr>generation = g, obj_bytes = b\<rparr> \<and> re_own_decode E b = Inr r))"

lemma owned_by_unique: "owned_by E v obj x \<Longrightarrow> owned_by E v obj y \<Longrightarrow> x = y"
  by (cases x; cases y) (auto simp: owned_by_def)

definition installed :: "('s, 'v) runtime_env \<Rightarrow> ActorStorageKey \<Rightarrow> int option \<Rightarrow> Ownership \<Rightarrow>
    (string \<rightharpoonup> BucketObject) \<Rightarrow> (string \<rightharpoonup> BucketObject) \<Rightarrow> bool" where
  "installed E obj gen r v v' \<longleftrightarrow>
     (\<exists>k g b. ownership_key (re_crypto E) obj = Inr k \<and> (case gen of None \<Rightarrow> 0 | Some g0 \<Rightarrow> g0) < g \<and>
        re_own_decode E b = Inr r \<and> v' = v(k \<mapsto> \<lparr>generation = g, obj_bytes = b\<rparr>))"

lemma installed_owned: "installed E obj gen r v v' \<Longrightarrow> \<exists>g. owned_by E v' obj (Some (g, r))"
  by (auto simp: installed_def owned_by_def)

lemma ownership_key_not_snapshot:
  "ownership_key C obj = Inr k \<Longrightarrow> k \<noteq> ROOT @ ''snapshots/'' @ x"
  by (auto simp: ownership_key_def owner_def result_simps)

lemma installed_keeps_snapshots:
  "installed E obj gen r v v' \<Longrightarrow> v' (ROOT @ ''snapshots/'' @ x) = v (ROOT @ ''snapshots/'' @ x)"
  using ownership_key_not_snapshot by (fastforce simp: installed_def)

text \<open>A hint is a version of the object that the control plane has read.\<close>

definition hint_genuine :: "int \<Rightarrow> Ownership \<Rightarrow> OwnershipHint option \<Rightarrow> bool" where
  "hint_genuine g q hint \<longleftrightarrow>
     (case hint of None \<Rightarrow> True
      | Some h \<Rightarrow> oh_generation h = g \<longrightarrow> oh_record h = q)"

definition hint_sealed :: "OwnershipHint option \<Rightarrow> bool" where
  "hint_sealed hint \<longleftrightarrow> (case hint of None \<Rightarrow> True | Some h \<Rightarrow> ow_sealed (oh_record h))"

lemma bind_reads_cases:
  assumes "bind_op m f s = (res, s')" "reads_only m"
  obtains (failed) e where "res = Inl e" "rt_store s' = rt_store s"
  | (next_op) x t where "m s = (Inr x, t)" "rt_store t = rt_store s" "f x t = (res, s')"
proof (cases "m s")
  case (Pair r t)
  note t = reads_onlyD [OF assms(2) Pair]
  show thesis
  proof (cases r)
    case (Inl e)
    with Pair assms(1) t failed [of e] show thesis by (simp add: bind_op_def)
  next
    case (Inr x)
    with Pair assms(1) t next_op [of x t] show thesis by (simp add: bind_op_def)
  qed
qed

lemma register_activation_cases:
  assumes "register_activation E actor request region new_actor owner_hint s = (res, s')"
    and "hint_genuine g q owner_hint"
  obtains (failed) e where "res = Inl e" "rt_store s' = rt_store s"
  | (looped) hint t where "hint_genuine g q hint" "hint_sealed hint" "rt_store t = rt_store s"
    "activation_loop E actor request region (new_actor \<and> hint = None) hint t = (res, s')"
proof -
  from assms(1) [unfolded register_activation_def] reads_only_basic(2) show thesis
  proof (cases rule: bind_reads_cases)
    case a: (next_op x1 t1)
    from a(3) reads_only_basic(2) show thesis
    proof (cases rule: bind_reads_cases)
      case b: (next_op x2 t2)
      from b(3) reads_only_basic(2) show thesis
      proof (cases rule: bind_reads_cases)
        case c: (next_op x3 t3)
        from c(3) reads_only_basic(4) show thesis
        proof (cases rule: bind_reads_cases)
          case d: (next_op now t4)
          let ?hint = "Option.bind owner_hint (\<lambda>h. if usable_hint now actor request region h then Some h else None)"
          have "hint_genuine g q ?hint" "hint_sealed ?hint"
            using assms(2) by (auto simp: hint_genuine_def hint_sealed_def usable_hint_def split: option.splits)
          moreover have "rt_store t4 = rt_store s" using a(2) b(2) c(2) d(2) by simp
          ultimately show thesis using looped [of ?hint t4] d(3) by (simp add: Let_def)
        qed (use failed a b c in auto)
      qed (use failed a b in auto)
    qed (use failed a in auto)
  qed (use failed in auto)
qed

text \<open>How far an attempt gets.\<close>

lemma activation_attempt_cases:
  assumes "activation_attempt E actor request region skip hint s = (res, s')"
  obtains (failed) e where "res = Inl e" "rt_store s' = rt_store s"
  | (claimed) cur now now' r t0 t where "activation_current E actor skip hint s = (Inr cur, t0)"
    "validate_activation (re_persistence E) (re_now E now) actor request region (map_option snd cur) = Inr ()"
    "activation_record (re_persistence E) (re_now E now') actor request region (map_option snd cur) = Inr r"
    "rt_store t = rt_store s"
    "bind_op (claim_and_recover E cur r) (activation_outcome E actor request hint) t = (res, s')"
proof -
  have ro: "reads_only (activation_current E actor skip hint)"
    unfolding activation_current_def by (cases hint) (auto intro!: reading)
  from assms [unfolded activation_attempt_def] ro show thesis
  proof (cases rule: bind_reads_cases)
    case c: (next_op cur t0)
    from c(3) reads_only_basic(4) show thesis
    proof (cases rule: bind_reads_cases)
      case n: (next_op now t1)
      from n(3) reads_only_basic(2) show thesis
      proof (cases rule: bind_reads_cases)
        case v: (next_op u t2)
        from v(3) reads_only_basic(4) show thesis
        proof (cases rule: bind_reads_cases)
          case n': (next_op now' t3)
          from n'(3) reads_only_basic(2) show thesis
          proof (cases rule: bind_reads_cases)
            case r: (next_op r t4)
            show thesis
              using claimed [OF c(1) _ _ _ r(3), of "rt_tick t0" "rt_tick t2"] c(2) n(1,2) v(1,2) n'(1,2) r(1,2)
              by (simp add: op_simps)
          qed (use failed c n v n' in auto)
        qed (use failed c n v in auto)
      qed (use failed c n in auto)
    qed (use failed c in auto)
  qed (use failed in auto)
qed

text \<open>What a session has after it took over a sealed record with a base.\<close>

definition taken_over :: "('s, 'v) runtime_env \<Rightarrow> (string \<rightharpoonup> BucketObject) \<Rightarrow> ActorKey \<Rightarrow> HostLeaseRequest \<Rightarrow>
    Ownership \<Rightarrow> SnapshotRef \<Rightarrow> LoadedActor \<Rightarrow> (string \<rightharpoonup> BucketObject) \<Rightarrow> (string \<rightharpoonup> Ownership) \<Rightarrow> bool" where
  "taken_over E v actor request q ref loaded v' owned \<longleftrightarrow>
     la_state loaded \<noteq> None \<and> la_state loaded = map_option obj_bytes (v (sr_object ref)) \<and>
     op_state_version (la_placement loaded) = sr_state_version ref \<and>
     (\<exists>n. hl_expires_at_ms (ow_lease q) \<le> re_now E n) \<and>
     (\<exists>g r. owned_by E v' (storage_key actor) (Some (g, r)) \<and> owned (as_str (storage_key actor)) = Some r \<and>
        unat (ow_epoch r) = unat (ow_epoch q) + 1 \<and> hl_id (ow_lease r) = hr_id request \<and>
        hl_session_id (ow_lease r) = hr_session_id request)"

context bucket_laws
begin

lemma load_owned:
  assumes "env_on B E" "inv (rt_store s)" "load E obj s = (Inr x, s')"
  shows "s' = s" "owned_by E (view (rt_store s)) obj x"
proof -
  from assms obtain k found where k: "ownership_key (re_crypto E) obj = Inr k"
    and f: "bk_get B k (rt_store s) = Inr found" and s: "s' = s"
    and x: "transpose_opt (map_option (\<lambda>value.
       rbind (re_own_decode E (obj_bytes value)) (\<lambda>record.
       ensure (same_backend (ow_persistence record) (re_persistence E))
         ''actor persistence backend changed; an explicit state migration is required'' (
       Inr (generation value, record)))) found) = Inr x"
    by (auto simp: load_def op_simps env_on_def)
  show "s' = s" by (rule s)
  have "view (rt_store s) k = found" using get_view [OF assms(2) f] .
  with k x show "owned_by E (view (rt_store s)) obj x"
    by (cases found; cases x) (auto simp: owned_by_def result_simps intro!: exI [of _ "obj_bytes (the found)"])
qed

lemma replace_False:
  assumes "inv s" "replace B k e b s = (Inr False, s')"
  shows "view s' = view s"
proof -
  obtain c where c: "bk_cas B k e b s = (c, s')" and r: "Inr False = replace_after c b (bk_get B k s')"
    using assms(2) by (auto simp: replace_def split: prod.splits)
  have "\<not> swapped k e b (view s) (view s')"
  proof
    assume "swapped k e b (view s) (view s')"
    then obtain g where "view s' k = Some \<lparr>generation = g, obj_bytes = b\<rparr>" by (auto simp: swapped_def)
    with r get_view [OF cas_inv [OF assms(1) c], of k] show False
      by (cases "bk_get B k s'") (auto simp: replace_after_def split: if_splits)
  qed
  with cas_view [OF assms(1) c] show ?thesis by blast
qed

lemma replace_activation_frame:
  assumes "env_on B E" "inv (rt_store s)" "replace_activation E r gen s = (res, s')"
  shows "inv (rt_store s') \<and> rt_owned s' = rt_owned s \<and> rt_uploaded s' = rt_uploaded s"
  using assms replace_inv
  by (auto simp: replace_activation_def bind_op_def ask_def Let_def lift_op_def on_store_def env_on_def ret_op_def
      split: prod.splits sum.splits)

lemma replace_activation_cases:
  assumes E: "env_on B E" and inv: "inv (rt_store s)" and r: "replace_activation E r gen s = (Inr (ok, r'), s')"
  shows "r' = r\<lparr>ow_mutation := re_uuid E (rt_tick s)\<rparr>"
    and "\<not> ok \<Longrightarrow> view (rt_store s') = view (rt_store s)"
    and "ok \<Longrightarrow> owned_by E (view (rt_store s)) (storage_key (ow_actor r)) x \<Longrightarrow>
      map_option snd x \<noteq> Some r' \<Longrightarrow>
      map_option fst x = gen \<and>
      installed E (storage_key (ow_actor r)) gen r' (view (rt_store s)) (view (rt_store s'))"
proof -
  let ?r = "r\<lparr>ow_mutation := re_uuid E (rt_tick s)\<rparr>"
  from r E obtain k b t where k: "ownership_key (re_crypto E) (storage_key (ow_actor r)) = Inr k"
    and b: "re_own_encode E ?r = Inr b" and t: "replace B k gen b (rt_store s) = (Inr ok, t)"
    and r': "r' = ?r" and s': "rt_store s' = t"
    by (auto simp: replace_activation_def op_simps Let_def env_on_def)
  show "r' = ?r" by (rule r')
  show "view (rt_store s') = view (rt_store s)" if "\<not> ok"
    using replace_False [OF inv, of k gen b t] t that s' by simp
  have dec: "re_own_decode E b = Inr r'" using E b r' by (auto simp: env_on_def own_json_ok_def)
  assume ok: "ok" and x: "owned_by E (view (rt_store s)) (storage_key (ow_actor r)) x"
    and ne: "map_option snd x \<noteq> Some r'"
  have "\<forall>y. view (rt_store s) k = Some y \<longrightarrow> obj_bytes y \<noteq> b"
    using x ne dec k by (auto simp: owned_by_def split: option.splits)
  moreover have t': "replace B k gen b (rt_store s) = (Inr True, t)" using t ok by simp
  ultimately have "swapped k gen b (view (rt_store s)) (view (rt_store s'))"
    using replace_True(2) [OF inv t'] s' by blast
  then obtain g where g: "map_option generation (view (rt_store s) k) = gen"
    "(case gen of None \<Rightarrow> 0 | Some g0 \<Rightarrow> g0) < g"
    "view (rt_store s') = (view (rt_store s))(k \<mapsto> \<lparr>generation = g, obj_bytes = b\<rparr>)"
    unfolding swapped_def by blast
  have "map_option fst x = map_option generation (view (rt_store s) k)"
    using x k by (auto simp: owned_by_def split: option.splits)
  with g(1) show "map_option fst x = gen \<and>
      installed E (storage_key (ow_actor r)) gen r' (view (rt_store s)) (view (rt_store s'))"
    unfolding installed_def by (intro conjI exI [of _ k] exI [of _ g] exI [of _ b] k dec g(2,3)) simp
qed

lemma replace_activation_stale:
  assumes E: "env_on B E" and inv: "inv (rt_store s)" and r: "replace_activation E r gen s = (res, s')"
    and own: "owned_by E (view (rt_store s)) (storage_key (ow_actor r)) (Some (g, q))" and gen: "gen \<noteq> Some g"
    and ne: "r\<lparr>ow_mutation := re_uuid E (rt_tick s)\<rparr> \<noteq> q"
  shows "view (rt_store s') = view (rt_store s)" "\<And>r'. res \<noteq> Inr (True, r')"
proof -
  show "res \<noteq> Inr (True, r')" for r'
    using replace_activation_cases(1) [OF E inv, of r gen True r' s'] replace_activation_cases(3) [OF E inv, of r gen True r' s' "Some (g, q)"]
      r own gen ne by auto
  obtain k b0 where k: "ownership_key (re_crypto E) (storage_key (ow_actor r)) = Inr k"
    and v: "view (rt_store s) k = Some \<lparr>generation = g, obj_bytes = b0\<rparr>"
    using own by (auto simp: owned_by_def)
  have "view t = view (rt_store s)" if "replace B k gen b (rt_store s) = (c, t)" for b c t
    using replace_view [OF inv that] v gen by (auto simp: swapped_def)
  then show "view (rt_store s') = view (rt_store s)"
    using r k E
    by (auto simp: replace_activation_def bind_op_def ask_def Let_def lift_op_def on_store_def env_on_def ret_op_def
        split: prod.splits sum.splits)
qed

lemma release_attempts_ok:
  assumes E: "env_on B E" and inv: "inv (rt_store s)"
    and r: "release_attempts n E (ow_actor q) host session cp s = (Inr (), s')"
    and own: "owned_by E (view (rt_store s)) (storage_key (ow_actor q)) (Some (g, q))"
    and rel: "releasable host session q"
  shows "inv (rt_store s') \<and> rt_owned s' = rt_owned s \<and> rt_uploaded s' = rt_uploaded s \<and>
    (\<exists>m. installed E (storage_key (ow_actor q)) (Some g) ((released cp q)\<lparr>ow_mutation := m\<rparr>)
       (view (rt_store s)) (view (rt_store s')))"
  using inv r own
proof (induction n arbitrary: s)
  case 0
  then show ?case by (simp add: op_simps)
next
  case (Suc n)
  from Suc.prems(2) obtain x where l: "load E (storage_key (ow_actor q)) s = (Inr x, s)"
    and k: "(case x of None \<Rightarrow> ret_op ()
       | Some (gen, r) \<Rightarrow> if \<not> releasable host session r then ret_op ()
         else bind_op (replace_activation E (released cp r) (Some gen)) (\<lambda>(ok, _).
           if ok then ret_op () else release_attempts n E (ow_actor q) host session cp)) s = (Inr (), s')"
    using load_owned(1) [OF E Suc.prems(1)] by (fastforce simp: op_simps)
  have x: "x = Some (g, q)" using owned_by_unique [OF load_owned(2) [OF E Suc.prems(1) l] Suc.prems(3)] .
  from k rel obtain ok r' t where t: "replace_activation E (released cp q) (Some g) s = (Inr (ok, r'), t)"
    and rest: "(if ok then ret_op () else release_attempts n E (ow_actor q) host session cp) t = (Inr (), s')"
    by (auto simp: x op_simps)
  have a: "ow_actor (released cp q) = ow_actor q" by (cases cp) (simp_all add: released_def Let_def)
  have e: "hl_expires_at_ms (ow_lease (released cp q)) = 0" by (cases cp) (simp_all add: released_def Let_def)
  note c = replace_activation_cases [OF E Suc.prems(1) t]
  note f = replace_activation_frame [OF E Suc.prems(1) t]
  show ?case
  proof (cases ok)
    case True
    have "hl_expires_at_ms (ow_lease r') = 0" using e c(1) by simp
    then have "q \<noteq> r'" using rel by (auto simp: releasable_def)
    with c(3) [OF True, of "Some (g, q)"] Suc.prems(3) a c(1) rest f True show ?thesis
      by (auto simp: op_simps)
  next
    case False
    with c(2) have "view (rt_store t) = view (rt_store s)" by simp
    with Suc.IH [of t] f rest False Suc.prems(3) show ?thesis by simp
  qed
qed

lemma drain_ok:
  assumes E: "env_on B E" and d: "drain_activation E actor host session s = (Inr cp, s')"
  obtains r where "rt_owned s (as_str (storage_key actor)) = Some r" "hl_id (ow_lease r) = host"
    "hl_session_id (ow_lease r) = session" "s' = s"
    "case rt_uploaded s session of None \<Rightarrow> sc_snapshot cp = ow_base r
     | Some u \<Rightarrow> us_started u = us_completed u \<and> advance (ow_base r) (us_latest u) = Inr (sc_snapshot cp)"
proof -
  from d E obtain r st where r: "rt_owned s (as_str (storage_key actor)) = Some r" "hl_id (ow_lease r) = host"
    "hl_session_id (ow_lease r) = session" and u: "upload_checkpoint r s = (Inr cp, s)" and s': "s' = s"
    by (auto simp: drain_activation_def op_simps result_simps env_on_def bucket_snapshots_def upload_checkpoint_def
        split: option.splits)
  from u r(3) have "case rt_uploaded s session of None \<Rightarrow> sc_snapshot cp = ow_base r
     | Some u \<Rightarrow> us_started u = us_completed u \<and> advance (ow_base r) (us_latest u) = Inr (sc_snapshot cp)"
    by (auto simp: upload_checkpoint_def result_simps split: option.splits)
  from that [OF r s' this] show thesis .
qed

text \<open>A claim against a generation the object does not have leaves the bucket alone.\<close>

lemma claim_stale:
  assumes E: "env_on B E" and inv: "inv (rt_store s)" and c: "claim_and_recover E cur r s = (res, s')"
    and own: "owned_by E (view (rt_store s)) (storage_key (ow_actor r)) (Some (g, q))"
    and stale: "map_option fst cur \<noteq> Some g"
    and sealed: "case map_option snd cur of None \<Rightarrow> True | Some p \<Rightarrow> ow_sealed p"
    and ne: "\<And>m. (\<exists>n. m = re_uuid E n) \<Longrightarrow> r\<lparr>ow_mutation := m\<rparr> \<noteq> q"
  shows "view (rt_store s') = view (rt_store s)" "inv (rt_store s')" "\<And>rec r'. res \<noteq> Inr (rec, True, r')"
proof -
  obtain rec t where rec: "recover_activation E (map_option snd cur) s = (rec, t)"
    by (cases "recover_activation E (map_option snd cur) s")
  have t: "rt_store t = rt_store s" using reads_onlyD [OF reads_only_recover [OF sealed] rec] by simp
  obtain rr u where u: "replace_activation E r (map_option fst cur) t = (rr, u)"
    by (cases "replace_activation E r (map_option fst cur) t")
  note st = replace_activation_stale [OF E _ u, of g q] replace_activation_frame [OF E _ u]
  have ok: "view (rt_store u) = view (rt_store s)" "\<And>r'. rr \<noteq> Inr (True, r')" "inv (rt_store u)"
    using st own stale ne inv unfolding t by blast+
  have eq: "(res, s') = (case rr of Inl e \<Rightarrow> (Inl e, u) | Inr (b, r') \<Rightarrow> (Inr (rec, b, r'), u))"
    using c sealed rec u
    by (cases rr) (auto simp: claim_and_recover_def Let_def bind_op_def try_op_def ret_op_def split: option.splits)
  from eq ok show "view (rt_store s') = view (rt_store s)" "inv (rt_store s')" "res \<noteq> Inr (rec', True, r')" for rec' r'
    by (auto split: sum.splits)
qed

lemma activation_current_cases:
  assumes E: "env_on B E" and inv: "inv (rt_store s)" and c: "activation_current E actor skip hint s = (Inr cur, t)"
    and own: "owned_by E (view (rt_store s)) (storage_key actor) (Some (g, q))"
    and h: "hint_genuine g q hint" "hint_sealed hint"
  obtains "cur = Some (g, q)"
  | "map_option fst cur \<noteq> Some g" "case map_option snd cur of None \<Rightarrow> True | Some p \<Rightarrow> ow_sealed p"
proof (cases hint)
  case None
  show thesis
  proof (cases skip)
    case True
    with c None that(2) show thesis by (simp add: activation_current_def op_simps)
  next
    case False
    with c None have "load E (storage_key actor) s = (Inr cur, t)" by (simp add: activation_current_def)
    from owned_by_unique [OF load_owned(2) [OF E inv this] own] show thesis by (rule that(1))
  qed
next
  case (Some x)
  with c have "cur = Some (oh_generation x, oh_record x)" by (simp add: activation_current_def op_simps)
  with h Some that show thesis by (cases "oh_generation x = g") (auto simp: hint_genuine_def hint_sealed_def)
qed

text \<open>An attempt while the owner's lease runs fails, whatever it believes of the object, and
  leaves the bucket alone.\<close>

lemma activation_attempt_live:
  assumes E: "env_on B E" and inv: "inv (rt_store s)"
    and a: "activation_attempt E actor request region skip hint s = (res, s')"
    and own: "owned_by E (view (rt_store s)) (storage_key actor) (Some (g, q))"
    and h: "hint_genuine g q hint" "hint_sealed hint"
    and live: "\<And>n. re_now E n < hl_expires_at_ms (ow_lease q)" and fresh: "\<And>n. re_uuid E n \<noteq> ow_mutation q"
  shows "view (rt_store s') = view (rt_store s) \<and> inv (rt_store s') \<and> (\<forall>l. res \<noteq> Inr (Some l)) \<and>
    (hint = None \<longrightarrow> (\<exists>e. res = Inl e))"
  using a
proof (cases rule: activation_attempt_cases)
  case (claimed cur now now' r t0 t)
  from claimed(2) live [of now] have "cur \<noteq> Some (g, q)"
    by (auto simp: validate_activation_def result_simps)
  with activation_current_cases [OF E inv claimed(1) own h]
  have cur: "map_option fst cur \<noteq> Some g" "case map_option snd cur of None \<Rightarrow> True | Some p \<Rightarrow> ow_sealed p" by blast+
  obtain c u where c: "claim_and_recover E cur r t = (c, u)" by (cases "claim_and_recover E cur r t")
  have inv': "inv (rt_store t)" and own': "owned_by E (view (rt_store t)) (storage_key (ow_actor r)) (Some (g, q))"
    using inv own claimed(4) activation_record_Inr(1) [OF claimed(3)] by simp_all
  have "r\<lparr>ow_mutation := m\<rparr> \<noteq> q" if m: "\<exists>n. m = re_uuid E n" for m
  proof
    assume "r\<lparr>ow_mutation := m\<rparr> = q"
    then have "ow_mutation q = m" by auto
    moreover obtain n where "m = re_uuid E n" using m by blast
    ultimately show False using fresh [of n] by simp
  qed
  note st = claim_stale [OF E inv' c own' cur this]
  have st': "view (rt_store u) = view (rt_store s)" "inv (rt_store u)" "\<And>rec r'. c \<noteq> Inr (rec, True, r')"
    using st claimed(4) by auto
  show ?thesis
  proof (cases c)
    case (Inl e)
    with claimed(5) c st' show ?thesis by (auto simp: bind_op_def)
  next
    case (Inr x)
    obtain rec ok r' where "x = (rec, ok, r')" by (cases x)
    with Inr st'(3) [of rec r'] have x: "c = Inr (rec, False, r')" by (cases ok) auto
    with claimed(5) c st' show ?thesis
      by (auto simp: bind_op_def activation_outcome_def ensure_op_def ret_op_def split: if_splits)
  qed
qed (use inv in auto)

lemma register_activation_live:
  assumes E: "env_on B E" and inv: "inv (rt_store s)"
    and r: "register_activation E actor request region new_actor owner_hint s = (res, s')"
    and own: "owned_by E (view (rt_store s)) (storage_key actor) (Some (g, q))"
    and h: "hint_genuine g q owner_hint"
    and live: "\<And>n. re_now E n < hl_expires_at_ms (ow_lease q)" and fresh: "\<And>n. re_uuid E n \<noteq> ow_mutation q"
  shows "view (rt_store s') = view (rt_store s) \<and> (\<exists>e. res = Inl e)"
  using r h
proof (cases rule: register_activation_cases)
  case (looped hint t)
  let ?a = "activation_attempt E actor request region (new_actor \<and> hint = None)"
  obtain r1 u where u: "?a hint t = (r1, u)" by (cases "?a hint t")
  obtain r2 w where w: "?a None u = (r2, w)" by (cases "?a None u")
  have inv': "inv (rt_store t)" and own': "owned_by E (view (rt_store t)) (storage_key actor) (Some (g, q))"
    using inv own looped(3) by simp_all
  note 1 = activation_attempt_live [OF E inv' u own' looped(1,2) live fresh]
  have inv2: "inv (rt_store u)" and own2: "owned_by E (view (rt_store u)) (storage_key actor) (Some (g, q))"
    using 1 own' by simp_all
  have none: "hint_genuine g q None" "hint_sealed None" by (simp_all add: hint_genuine_def hint_sealed_def)
  note 2 = activation_attempt_live [OF E inv2 w own2 none live fresh]
  show ?thesis
  proof (cases r1)
    case (Inl e)
    with looped(3,4) u 1 show ?thesis by (auto simp: activation_loop_def bind_op_def)
  next
    case (Inr x)
    with 1 have "x = None" by (cases x) auto
    with Inr 1 2 looped(3,4) u w show ?thesis by (auto simp: activation_loop_def bind_op_def)
  qed
qed auto

text \<open>An attempt on a sealed record that succeeds hands over the state the record names.\<close>

lemma load_latest_base:
  assumes "env_on B E" "inv (rt_store s)" "ow_base q = Some ref" "load_latest E q None s = (Inr l, s')"
  shows "\<exists>b. l = Some \<lparr>ls_reference = ref, ls_bytes = b\<rparr> \<and> map_option obj_bytes (view (rt_store s) (sr_object ref)) = Some b"
proof -
  from assms obtain b where b: "snap_get B (sr_object ref) (rt_store s) = Inr (Some b)"
    and l: "l = Some \<lparr>ls_reference = ref, ls_bytes = b\<rparr>"
    by (auto simp: load_latest_def op_simps advance_def result_simps env_on_def bucket_snapshots_def)
  from snaps.sget_objects [OF assms(2) b] l show ?thesis by blast
qed

lemma recover_sealed_snapshot:
  assumes E: "env_on B E" and inv: "inv (rt_store s)" and b: "ow_base q = Some ref" "ow_sealed q"
    and r: "recover_activation E (Some q) s = (Inr rec, s')"
  shows "\<exists>b. ar_snapshot rec = Some \<lparr>ls_reference = ref, ls_bytes = b\<rparr> \<and>
    map_option obj_bytes (view (rt_store s) (sr_object ref)) = Some b"
proof -
  let ?t = "s\<lparr>rt_tick := Suc (rt_tick s)\<rparr>"
  from r b(2) obtain l u where t: "load_latest E q None ?t = (Inr l, u)" and rec: "ar_snapshot rec = l"
    by (auto simp: recover_activation_def recover_sealed_activation_def load_activation_snapshot_def op_simps
        default_recovery_def split: if_splits)
  show ?thesis using load_latest_base [OF E _ b(1) t] inv unfolding rec by simp
qed

lemma claim_sealed_cases:
  assumes E: "env_on B E" and inv: "inv (rt_store s)" and q: "ow_sealed q"
    and c: "claim_and_recover E (Some (g, q)) r s = (Inr (rec, ok, r'), s')"
  obtains t where "recover_activation E (Some q) s = (rec, t)" "rt_store t = rt_store s"
    "replace_activation E r (Some g) t = (Inr (ok, r'), s')"
proof -
  from c q obtain t where t: "recover_activation E (Some q) s = (rec, t)" "replace_activation E r (Some g) t = (Inr (ok, r'), s')"
    by (auto simp: claim_and_recover_def op_simps)
  have "reads_only (recover_activation E (Some q))" using reads_only_recover [of "Some q"] q by simp
  from reads_onlyD [OF this t(1)] that [OF t(1) _ t(2)] show thesis by simp
qed

lemma activation_attempt_sealed:
  assumes E: "env_on B E" and inv: "inv (rt_store s)"
    and a: "activation_attempt E actor request region skip hint s = (Inr res, s')"
    and own: "owned_by E (view (rt_store s)) (storage_key actor) (Some (g, q))"
    and h: "hint_genuine g q hint" "hint_sealed hint" and q: "ow_sealed q" "ow_base q = Some ref"
  shows "case res of
     None \<Rightarrow> view (rt_store s') = view (rt_store s) \<and> inv (rt_store s')
   | Some l \<Rightarrow> taken_over E (view (rt_store s)) actor request q ref l (view (rt_store s')) (rt_owned s')"
  using a
proof (cases rule: activation_attempt_cases)
  case (claimed cur now now' r t0 t)
  note r = activation_record_Inr [OF claimed(3)]
  have inv': "inv (rt_store t)" and own': "owned_by E (view (rt_store t)) (storage_key (ow_actor r)) (Some (g, q))"
    using inv own claimed(4) r(1) by simp_all
  have ne: "r\<lparr>ow_mutation := m\<rparr> \<noteq> q" for m using q(1) r(2) by auto
  from claimed(5) obtain rec ok r' u where c: "claim_and_recover E cur r t = (Inr (rec, ok, r'), u)"
    and o: "activation_outcome E actor request hint (rec, ok, r') u = (Inr res, s')" by (auto simp: op_simps)
  show ?thesis
  proof (cases "cur = Some (g, q)")
    case False
    with activation_current_cases [OF E inv claimed(1) own h]
    have cur: "map_option fst cur \<noteq> Some g" "case map_option snd cur of None \<Rightarrow> True | Some p \<Rightarrow> ow_sealed p" by blast+
    note st = claim_stale [OF E inv' c own' cur ne]
    from st(3) [of rec r'] have "\<not> ok" by (cases ok) auto
    with o st(1,2) claimed(4) show ?thesis by (auto simp: activation_outcome_def op_simps)
  next
    case True
    from c [unfolded True] obtain w where w: "recover_activation E (Some q) t = (rec, w)" "rt_store w = rt_store t"
      "replace_activation E r (Some g) w = (Inr (ok, r'), u)" by (rule claim_sealed_cases [OF E inv' q(1)])
    have invw: "inv (rt_store w)" using inv' w(2) by simp
    note rc = replace_activation_cases [OF E invw w(3)] and fr = replace_activation_frame [OF E invw w(3)]
    show ?thesis
    proof (cases ok)
      case False
      with rc(2) w(2) claimed(4) fr o show ?thesis by (auto simp: activation_outcome_def op_simps)
    next
      case ok: True
      from o ok E obtain rv l where rv: "rec = Inr rv" and res: "res = Some (l\<lparr>la_checkpoint := ar_checkpoint rv\<rparr>)"
        and rem: "remember r' (ar_snapshot rv) u = (Inr l, s')"
        by (cases rec) (auto simp: activation_outcome_def adopt_activation_def op_simps env_on_def bucket_snapshots_def)
      obtain b where b: "ar_snapshot rv = Some \<lparr>ls_reference = ref, ls_bytes = b\<rparr>"
        "map_option obj_bytes (view (rt_store t) (sr_object ref)) = Some b"
        using recover_sealed_snapshot [OF E inv' q(2,1) w(1) [unfolded rv]] by blast
      have "q \<noteq> r'" using ne rc(1) by metis
      then obtain g' where g': "owned_by E (view (rt_store u)) (storage_key actor) (Some (g', r'))"
        using installed_owned rc(3) [OF ok, of "Some (g, q)"] own' w(2) r(1) by fastforce
      have "hl_expires_at_ms (ow_lease q) \<le> re_now E now"
        using claimed(2) True by (auto simp: validate_activation_def result_simps)
      moreover have "ow_actor r' = actor" "hl_id (ow_lease r') = hr_id request"
        "hl_session_id (ow_lease r') = hr_session_id request" "unat (ow_epoch r') = unat (ow_epoch q) + 1"
        using rc(1) r True by simp_all
      moreover have "la_state l = Some b" "op_state_version (la_placement l) = sr_state_version ref"
        "rt_store s' = rt_store u" "rt_owned s' = (rt_owned u)(as_str (storage_key (ow_actor r')) \<mapsto> r')"
        using rem b(1) by (auto simp: remember_def Let_def apply_snapshot_def)
      ultimately show ?thesis using res b(2) g' claimed(4) by (auto simp: taken_over_def)
    qed
  qed
qed simp

lemma register_activation_sealed:
  assumes E: "env_on B E" and inv: "inv (rt_store s)"
    and r: "register_activation E actor request region new_actor owner_hint s = (Inr loaded, s')"
    and own: "owned_by E (view (rt_store s)) (storage_key actor) (Some (g, q))"
    and h: "hint_genuine g q owner_hint" and q: "ow_sealed q" "ow_base q = Some ref"
  shows "taken_over E (view (rt_store s)) actor request q ref loaded (view (rt_store s')) (rt_owned s')"
  using r h
proof (cases rule: register_activation_cases)
  case (looped hint t)
  let ?a = "activation_attempt E actor request region (new_actor \<and> hint = None)"
  from looped(4) obtain x u where u: "?a hint t = (Inr x, u)"
    and rest: "(case x of Some loaded \<Rightarrow> ret_op loaded
       | None \<Rightarrow> bind_op (?a None) (\<lambda>second. case second of Some loaded \<Rightarrow> ret_op loaded
          | None \<Rightarrow> lift_op (Inl ''actor activation changed concurrently''))) u = (Inr loaded, s')"
    by (auto simp: activation_loop_def op_simps)
  have inv': "inv (rt_store t)" and own': "owned_by E (view (rt_store t)) (storage_key actor) (Some (g, q))"
    using inv own looped(3) by simp_all
  note 1 = activation_attempt_sealed [OF E inv' u own' looped(1,2) q]
  show ?thesis
  proof (cases x)
    case (Some l)
    with 1 rest looped(3) show ?thesis by (simp add: op_simps)
  next
    case None
    with rest obtain w where w: "?a None u = (Inr (Some loaded), w)" "w = s'"
      by (auto simp: op_simps split: option.splits)
    have inv2: "inv (rt_store u)" and own2: "owned_by E (view (rt_store u)) (storage_key actor) (Some (g, q))"
      using 1 None own' by simp_all
    have none: "hint_genuine g q None" "hint_sealed None" by (simp_all add: hint_genuine_def hint_sealed_def)
    from activation_attempt_sealed [OF E inv2 w(1) own2 none q] 1 None w(2) looped(3) show ?thesis by simp
  qed
qed simp

lemma write_snapshot_ok:
  assumes E: "env_on B E" and inv: "inv (rt_store s)" and w: "write_snapshot E plan b s = (Inr (), s')"
  obtains actor r c where "actor_from_snapshot (re_crypto E) (wp_object_name plan) = Inr actor"
    "rt_owned s (as_str (storage_key actor)) = Some r" "stream (re_crypto E) r = Inr (wp_stream plan)"
    "re_now E (rt_tick s) < hl_expires_at_ms (ow_lease r)" "snapshot_decode (re_json E) b = Inr c"
    "owner_epoch c = ow_epoch r" "state_version c = wp_state_version plan"
    "wp_object_name plan = stream_object (wp_stream plan) (state_version c)"
    "\<forall>p. parent (sqlite c) = Some p \<longrightarrow> uploaded_latest s (ss_session (wp_stream plan)) p \<or>
      (\<exists>y. view (rt_store s) (sr_object p) = Some y \<and> checksum (re_crypto E) (obj_bytes y) = sr_digest p)"
    "snap_put B (wp_object_name plan) b (rt_store s) = (Inr (), rt_store s')" "rt_owned s' = rt_owned s"
proof -
  let ?C = "re_crypto E" and ?sess = "ss_session (wp_stream plan)"
  from w obtain ref t1 ta t2 t3 t4 where 1: "ensure_write_owner E plan s = (Inr (), t1)"
    and 2: "stream_snapshot ?C (re_json E) (wp_stream plan) b = Inr ref"
    and 3: "sr_object ref = wp_object_name plan" "sr_state_version ref = wp_state_version plan"
    and 4: "check_dependency E ?sess b t1 = (Inr (), ta)" "upload_started ?sess ta = (Inr (), t2)"
    and 5: "on_store (st_put (re_store E) (sr_object ref) b) t2 = (Inr (), t3)"
      "ensure_write_owner E plan t3 = (Inr (), t4)" "upload_completed ?sess ref t4 = (Inr (), s')"
    by (auto simp: write_snapshot_def Let_def bind_op_Inr ensure_op_Inr lift_op_Inr)
  have ta: "ta = t1" using check_dependency_state [OF 4(1)] .
  from 1 obtain actor r where o: "actor_from_snapshot ?C (wp_object_name plan) = Inr actor"
    "rt_owned s (as_str (storage_key actor)) = Some r" "stream ?C r = Inr (wp_stream plan)"
    "re_now E (rt_tick s) < hl_expires_at_ms (ow_lease r)" and t1: "t1 = s\<lparr>rt_tick := Suc (rt_tick s)\<rparr>"
    by (auto simp: op_simps)
  from 2 obtain c where c: "snapshot_decode (re_json E) b = Inr c" "owner_epoch c = ss_owner_epoch (wp_stream plan)"
    "ref = snapshot_ref_new ?C (stream_object (wp_stream plan) (state_version c)) c b"
    by (auto simp: stream_snapshot_def result_simps)
  have ep: "owner_epoch c = ow_epoch r" using c(2) o(3) by (auto simp: stream_Inr_iff)
  have sv: "state_version c = wp_state_version plan" "wp_object_name plan = stream_object (wp_stream plan) (state_version c)"
    using 3 c(3) by (simp_all add: snapshot_ref_new_def)
  have par: "uploaded_latest s ?sess p \<or>
      (\<exists>y. view (rt_store s) (sr_object p) = Some y \<and> checksum ?C (obj_bytes y) = sr_digest p)"
    if p: "parent (sqlite c) = Some p" for p
  proof (cases "uploaded_latest s ?sess p")
    case False
    then have "\<not> uploaded_latest t1 ?sess p" by (simp add: t1 uploaded_latest_def)
    with 4(1) p c(1) E obtain pb where pb: "snap_get B (sr_object p) (rt_store s) = Inr (Some pb)"
      "checksum ?C pb = sr_digest p"
      by (auto simp: check_dependency_def op_simps result_simps ref_verify_def t1 env_on_def bucket_snapshots_def)
    from snaps.sget_objects [OF inv pb(1)] pb(2) show ?thesis by auto
  qed simp
  have t2: "rt_store t2 = rt_store s" "rt_owned t2 = rt_owned s"
    using 4(2) by (auto simp: upload_started_def ta t1)
  have put: "snap_put B (wp_object_name plan) b (rt_store s) = (Inr (), rt_store t3)" "rt_owned t3 = rt_owned s"
    using 5(1) E 3(1) t2 by (auto simp: op_simps env_on_def bucket_snapshots_def)
  have "rt_store s' = rt_store t3" "rt_owned s' = rt_owned t3"
    using 5(2,3) by (auto simp: op_simps upload_completed_def Let_def split: sum.splits)
  moreover have "\<forall>p. parent (sqlite c) = Some p \<longrightarrow> uploaded_latest s ?sess p \<or>
      (\<exists>y. view (rt_store s) (sr_object p) = Some y \<and> checksum ?C (obj_bytes y) = sr_digest p)"
    using par by blast
  ultimately show thesis using that [OF o c(1) ep sv] put by simp
qed

lemma written_object_kept:
  assumes E: "env_on B E" and inv: "inv (rt_store s)" and w: "write_snapshot E plan b s = (Inr (), s1)"
  shows "inv (rt_store s1)" "map_option obj_bytes (view (rt_store s1) (wp_object_name plan)) = Some b"
    "installed E obj gen r (view (rt_store s1)) v \<Longrightarrow> map_option obj_bytes (v (wp_object_name plan)) = Some b"
proof -
  from w obtain q ver where q: "stream (re_crypto E) q = Inr (wp_stream plan)"
    and n: "wp_object_name plan = stream_object (wp_stream plan) ver"
    and p: "snap_put B (wp_object_name plan) b (rt_store s) = (Inr (), rt_store s1)"
    by (rule write_snapshot_ok [OF E inv])
  show "inv (rt_store s1)" using snaps.sput_inv [OF inv p] .
  show o: "map_option obj_bytes (view (rt_store s1) (wp_object_name plan)) = Some b"
    using snaps.sput_ok [OF inv p] .
  obtain x where "wp_object_name plan = ROOT @ ''snapshots/'' @ x"
    using q unfolding n by (auto simp: stream_Inr_iff stream_object_def stream_prefix_def)
  then show "installed E obj gen r (view (rt_store s1)) v \<Longrightarrow> map_option obj_bytes (v (wp_object_name plan)) = Some b"
    using o installed_keeps_snapshots by metis
qed

lemma handover:
  assumes E: "env_on B E" and inv: "inv (rt_store s)"
    and w: "write_snapshot E plan b s = (Inr (), s1)"
    and latest: "uploaded_latest s1 session ref" "sr_object ref = wp_object_name plan"
    and base: "\<forall>r x. rt_owned s1 (as_str (storage_key actor)) = Some r \<longrightarrow> ow_base r = Some x \<longrightarrow>
      snapshot_position (sr_object x) < snapshot_position (sr_object ref)"
    and d: "drain_activation E actor host session s1 = (Inr cp, s2)"
    and own: "owned_by E (view (rt_store s2)) (storage_key actor) (Some (g, q))" "ow_actor q = actor"
      "releasable host session q"
    and rel: "release_with_checkpoint E actor host session (Some cp) s2 = (Inr (), s3)"
    and reg: "register_activation E actor request region new_actor None s3 = (Inr loaded, s4)"
  shows "la_state loaded = Some b" "op_state_version (la_placement loaded) = sr_state_version ref"
    "\<exists>g r. owned_by E (view (rt_store s4)) (storage_key actor) (Some (g, r)) \<and>
      unat (ow_epoch r) = unat (ow_epoch q) + 1 \<and> hl_session_id (ow_lease r) = hr_session_id request"
proof -
  note k = written_object_kept [OF E inv w]
  from d obtain r where r: "rt_owned s1 (as_str (storage_key actor)) = Some r" "s2 = s1"
    and c: "case rt_uploaded s1 session of None \<Rightarrow> sc_snapshot cp = ow_base r
     | Some u \<Rightarrow> us_started u = us_completed u \<and> advance (ow_base r) (us_latest u) = Inr (sc_snapshot cp)"
    by (rule drain_ok [OF E])
  from latest(1) obtain u where "rt_uploaded s1 session = Some u" "us_latest u = Some ref"
    by (auto simp: uploaded_latest_def split: bind_splits)
  with c have "advance (ow_base r) (Some ref) = Inr (sc_snapshot cp)" by simp
  then have cp: "sc_snapshot cp = Some ref"
    using base r(1) by (cases "ow_base r") (auto simp: advance_def result_simps)
  obtain m where inv3: "inv (rt_store s3)" and i: "installed E (storage_key actor) (Some g)
      ((released (Some cp) q)\<lparr>ow_mutation := m\<rparr>) (view (rt_store s1)) (view (rt_store s3))"
    using release_attempts_ok [OF E _ _ _ own(3), of s2 3 "Some cp" s3 g] k(1) rel own(1)
    unfolding own(2) r(2) release_with_checkpoint_def by auto
  let ?q = "(released (Some cp) q)\<lparr>ow_mutation := m\<rparr>"
  obtain g3 where g3: "owned_by E (view (rt_store s3)) (storage_key actor) (Some (g3, ?q))"
    using installed_owned [OF i] by blast
  have "ow_sealed ?q" "ow_base ?q = Some ref" "ow_epoch ?q = ow_epoch q"
    by (simp_all add: released_def Let_def cp)
  moreover have "hint_genuine g3 ?q None" by (simp add: hint_genuine_def)
  ultimately have "taken_over E (view (rt_store s3)) actor request ?q ref loaded (view (rt_store s4)) (rt_owned s4)"
    and e: "ow_epoch ?q = ow_epoch q"
    using register_activation_sealed [OF E inv3 reg g3] by blast+
  then show "la_state loaded = Some b" "op_state_version (la_placement loaded) = sr_state_version ref"
    "\<exists>g r. owned_by E (view (rt_store s4)) (storage_key actor) (Some (g, r)) \<and>
      unat (ow_epoch r) = unat (ow_epoch q) + 1 \<and> hl_session_id (ow_lease r) = hr_session_id request"
    using k(3) [OF i] latest(2) unfolding taken_over_def e by auto
qed

lemma renewal:
  assumes E: "env_on B E" and inv: "inv (rt_store s)"
    and r: "renew_activation E actor request s = (Inr lease, s')"
    and own: "owned_by E (view (rt_store s)) (storage_key actor) (Some (g, q))"
    and fresh: "\<And>n. re_uuid E n \<noteq> ow_mutation q"
  shows "\<exists>n now m. re_now E n < hl_expires_at_ms (ow_lease q) \<and> new_lease now request = Inr lease \<and>
    installed E (storage_key actor) (Some g) (q\<lparr>ow_lease := lease, ow_mutation := m\<rparr>)
      (view (rt_store s)) (view (rt_store s'))"
proof -
  from r obtain x t where l: "load E (storage_key actor) s = (Inr x, t)"
    by (auto simp: renew_activation_def bind_op_Inr)
  note t = load_owned(1) [OF E inv l]
  have x: "x = Some (g, q)" using owned_by_unique [OF load_owned(2) [OF E inv l] own] .
  let ?t = "s\<lparr>rt_tick := Suc (Suc (rt_tick s))\<rparr>"
  from r [unfolded renew_activation_def] l x t obtain r' u where
    c: "renewal_check (re_now E (rt_tick s)) actor request q = Inr ()" and a: "ow_actor q = actor"
    and n: "new_lease (re_now E (Suc (rt_tick s))) request = Inr lease"
    and sv: "save_activation E (q\<lparr>ow_lease := lease\<rparr>) (Some g) ?t = (Inr r', u)"
    and v: "rt_store s' = rt_store u"
    by (auto simp: op_simps split: option.splits if_splits)
  from sv obtain u' where u: "replace_activation E (q\<lparr>ow_lease := lease\<rparr>) (Some g) ?t = (Inr (True, r'), u)"
    by (auto simp: save_activation_def op_simps)
  have invt: "inv (rt_store ?t)" using inv by simp
  note rc = replace_activation_cases [OF E invt u]
  have "map_option snd (Some (g, q)) \<noteq> Some r'"
  proof
    assume "map_option snd (Some (g, q)) = Some r'"
    then have "ow_mutation q = ow_mutation r'" by simp
    also have "\<dots> = re_uuid E (rt_tick ?t)" by (simp only: rc(1)) simp
    finally show False using fresh by metis
  qed
  from rc(3) [OF TrueI _ this] own a v
  have "installed E (storage_key actor) (Some g) r' (view (rt_store s)) (view (rt_store s'))" by simp
  moreover have "re_now E (rt_tick s) < hl_expires_at_ms (ow_lease q)"
    using c by (auto simp: renewal_check_def result_simps)
  ultimately show ?thesis using n unfolding rc(1) by auto
qed

lemma stored_write:
  assumes E: "env_on B E" and inv: "inv (rt_store s)" and w: "write_snapshot E plan b s = (Inr (), s')"
  shows "\<exists>actor r c. rt_owned s (as_str (storage_key actor)) = Some r \<and>
    stream (re_crypto E) r = Inr (wp_stream plan) \<and> (\<exists>n. re_now E n < hl_expires_at_ms (ow_lease r)) \<and>
    snapshot_decode (re_json E) b = Inr c \<and> owner_epoch c = ow_epoch r \<and> state_version c = wp_state_version plan \<and>
    (\<forall>p. parent (sqlite c) = Some p \<longrightarrow> uploaded_latest s (ss_session (wp_stream plan)) p \<or>
      (\<exists>y. view (rt_store s) (sr_object p) = Some y \<and> checksum (re_crypto E) (obj_bytes y) = sr_digest p)) \<and>
    map_option obj_bytes (view (rt_store s') (wp_object_name plan)) = Some b \<and>
    (\<forall>k. k \<noteq> wp_object_name plan \<longrightarrow>
      map_option obj_bytes (view (rt_store s') k) = map_option obj_bytes (view (rt_store s) k))"
proof -
  from w obtain actor r c where 1: "actor_from_snapshot (re_crypto E) (wp_object_name plan) = Inr actor"
    "rt_owned s (as_str (storage_key actor)) = Some r" "stream (re_crypto E) r = Inr (wp_stream plan)"
    "re_now E (rt_tick s) < hl_expires_at_ms (ow_lease r)" "snapshot_decode (re_json E) b = Inr c"
    "owner_epoch c = ow_epoch r" "state_version c = wp_state_version plan"
    and par: "\<forall>p. parent (sqlite c) = Some p \<longrightarrow> uploaded_latest s (ss_session (wp_stream plan)) p \<or>
      (\<exists>y. view (rt_store s) (sr_object p) = Some y \<and> checksum (re_crypto E) (obj_bytes y) = sr_digest p)"
    and p: "snap_put B (wp_object_name plan) b (rt_store s) = (Inr (), rt_store s')"
    by (rule write_snapshot_ok [OF E inv])
  have "map_option obj_bytes (view (rt_store s') k) = map_option obj_bytes (view (rt_store s) k)"
    if "k \<noteq> wp_object_name plan" for k
    using snaps.sput_objects [OF inv p] that by (auto simp: fun_eq_iff)
  with 1 par written_object_kept(2) [OF E inv w] show ?thesis by blast
qed

end

section \<open>Correctness of the storage operations\<close>

text \<open>C3. An acknowledged write survives a handover. On any bucket that keeps the promises of
  \<open>bucket_laws\<close>: when the newest write of a session succeeded, the session was drained and
  its lease released with the checkpoint of the drain, and another session then activated the
  actor, the new session starts from exactly the bytes of that write, at its version, and owns
  the next epoch.\<close>

theorem acknowledged_write_survives_handover:
  assumes "bucket_laws B binv view" and "env_on B E" and "binv (rt_store s)"
    and "write_snapshot E plan b s = (Inr (), s1)"
    and "uploaded_latest s1 session ref" and "sr_object ref = wp_object_name plan"
    and "\<forall>r x. rt_owned s1 (as_str (storage_key actor)) = Some r \<longrightarrow> ow_base r = Some x \<longrightarrow>
      snapshot_position (sr_object x) < snapshot_position (sr_object ref)"
    and "drain_activation E actor host session s1 = (Inr cp, s2)"
    and "owned_by E (view (rt_store s2)) (storage_key actor) (Some (g, q))" and "ow_actor q = actor"
    and "releasable host session q"
    and "release_with_checkpoint E actor host session (Some cp) s2 = (Inr (), s3)"
    and "register_activation E actor request region new_actor None s3 = (Inr loaded, s4)"
  shows "la_state loaded = Some b \<and> op_state_version (la_placement loaded) = sr_state_version ref \<and>
    (\<exists>g r. owned_by E (view (rt_store s4)) (storage_key actor) (Some (g, r)) \<and>
      unat (ow_epoch r) = unat (ow_epoch q) + 1 \<and> hl_session_id (ow_lease r) = hr_session_id request)"
  using bucket_laws.handover [OF assms] by blast

text \<open>C14. While the lease of the owner runs, an activation of the actor by anybody fails and
  changes no object, whatever hint it was given and whether or not the actor is thought to be
  new.\<close>

theorem live_owner_refuses_activation:
  assumes "bucket_laws B binv view" and "env_on B E" and "binv (rt_store s)"
    and "owned_by E (view (rt_store s)) (storage_key actor) (Some (g, q))"
    and "hint_genuine g q owner_hint"
    and "\<And>n. re_now E n < hl_expires_at_ms (ow_lease q)" and "\<And>n. re_uuid E n \<noteq> ow_mutation q"
  shows "\<exists>e s'. register_activation E actor request region new_actor owner_hint s = (Inl e, s') \<and>
    view (rt_store s') = view (rt_store s)"
proof -
  obtain res s' where r: "register_activation E actor request region new_actor owner_hint s = (res, s')"
    by (cases "register_activation E actor request region new_actor owner_hint s")
  with bucket_laws.register_activation_live [OF assms(1-3) r assms(4-7)] show ?thesis by blast
qed


text \<open>C15. A renewal that succeeds found the lease of the owner still running and replaced only
  the lease and the mutation mark of its record, under the generation it had read: the epoch,
  the base and the scope of the actor stay.\<close>

theorem renewal_replaces_only_the_lease:
  assumes "bucket_laws B binv view" and "env_on B E" and "binv (rt_store s)"
    and "renew_activation E actor request s = (Inr lease, s')"
    and "owned_by E (view (rt_store s)) (storage_key actor) (Some (g, q))"
    and "\<And>n. re_uuid E n \<noteq> ow_mutation q"
  shows "\<exists>n now m. re_now E n < hl_expires_at_ms (ow_lease q) \<and> new_lease now request = Inr lease \<and>
    installed E (storage_key actor) (Some g) (q\<lparr>ow_lease := lease, ow_mutation := m\<rparr>)
      (view (rt_store s)) (view (rt_store s'))"
  using bucket_laws.renewal [OF assms] .

section \<open>A concrete run\<close>

text \<open>A bucket in memory, and the commit \<open>sample_bytes\<close> of the session \<open>s1\<close>, handed
  over to the session \<open>s2\<close>.\<close>

definition mem_bucket :: "(string \<times> BucketObject) list bucket" where
  "mem_bucket =
     \<lparr>bk_get = (\<lambda>k m. Inr (map_of m k)),
      bk_range = (\<lambda>k start len m. case map_of m k of
         None \<Rightarrow> Inr None
       | Some x \<Rightarrow> ensure (unat start + unat len \<le> length (obj_bytes x)) ''range''
           (Inr (Some (x\<lparr>obj_bytes := take (unat len) (drop (unat start) (obj_bytes x))\<rparr>)))),
      bk_cas = (\<lambda>k e b m. if map_option generation (map_of m k) = e
         then (Inr True, AList.update k \<lparr>generation = (case e of None \<Rightarrow> 0 | Some g \<Rightarrow> g) + 1, obj_bytes = b\<rparr> m)
         else (Inr False, m)),
      bk_list = (\<lambda>p m. Inr (filter (starts_with p) (map fst m)))\<rparr>"

interpretation mem: bucket_laws mem_bucket "\<lambda>_. True" map_of
proof (unfold_locales, goal_cases)
  case (2 s k start len x)
  then show ?case by (auto simp: mem_bucket_def result_simps split: option.splits)
next
  case (3 s p ks)
  then show ?case by (force simp: mem_bucket_def dom_map_of_conv_image_fst)
next
  case (5 s k e b r s')
  then show ?case
    by (cases "map_of s k")
      (auto simp: mem_bucket_def swapped_def update_conv' split: if_splits
        intro: exI [of _ 1] exI [of _ "generation (the (map_of s k)) + 1"])
qed (auto simp: mem_bucket_def)

definition sample_object :: string where
  "sample_object = stream_prefix hex_crypto sample_actor 1 @ show_u64 1 @ ''.json''"

definition sample_stream :: StateStream where
  "sample_stream = \<lparr>ss_session = ''s1'', ss_prefix = stream_prefix hex_crypto sample_actor 1, ss_owner_epoch = 1,
     ss_base_version = 0\<rparr>"

definition sample_plan :: WritePlan where
  "sample_plan = \<lparr>wp_stream = sample_stream, wp_state_version = 1, wp_object_name = sample_object\<rparr>"

definition sample_ref :: SnapshotRef where
  "sample_ref = snapshot_ref_new hex_crypto sample_object sample_snapshot sample_bytes"

definition sample_released :: Ownership where
  "sample_released = (released (Some \<lparr>sc_snapshot = Some sample_ref\<rparr>) sample_record)\<lparr>ow_mutation := ''u''\<rparr>"

definition second_request :: HostLeaseRequest where
  "second_request = \<lparr>hr_id = HostId ''h2'', hr_session_id = ''s2'', hr_route = ''r2'', hr_duration_ms = 30000\<rparr>"

definition second_record :: Ownership where
  "second_record = \<lparr>ow_persistence = LocalStore, ow_sealed = False,
     ow_lease = \<lparr>hl_id = HostId ''h2'', hl_session_id = ''s2'', hl_route = ''r2'', hl_expires_at_ms = 30005\<rparr>,
     ow_mutation = ''u'', ow_actor = sample_actor, ow_epoch = 2, ow_region = ''eu'', ow_base = Some sample_ref\<rparr>"

definition sample_renewed :: Ownership where
  "sample_renewed = sample_record\<lparr>ow_mutation := ''u''\<rparr>"

definition sample_env :: "((string \<times> BucketObject) list, string) runtime_env" where
  "sample_env =
     \<lparr>re_crypto = hex_crypto, re_json = sample_json,
      re_own_encode = (\<lambda>r. if r = sample_record then Inr [1] else if r = sample_released then Inr [2]
        else if r = second_record then Inr [3] else if r = sample_renewed then Inr [4] else Inl ''other''),
      re_own_decode = (\<lambda>b. if b = [1] then Inr sample_record else if b = [2] then Inr sample_released
        else if b = [3] then Inr second_record else if b = [4] then Inr sample_renewed else Inl ''other''),
      re_authority = mem_bucket, re_store = bucket_snapshots mem_bucket, re_persistence = LocalStore,
      re_now = (\<lambda>_. 5), re_uuid = (\<lambda>_. ''u''), re_race = (\<lambda>_. True)\<rparr>"

definition sample_owner_key :: string where
  "sample_owner_key = ROOT @ ''owners/'' @ actor_path hex_crypto sample_actor @ ''.json''"

definition start_state :: "(string \<times> BucketObject) list runtime" where
  "start_state = \<lparr>rt_store = [(sample_owner_key, \<lparr>generation = 1, obj_bytes = [1]\<rparr>)],
     rt_owned = [as_str (storage_key sample_actor) \<mapsto> sample_record], rt_uploaded = Map.empty, rt_tick = 0\<rparr>"

definition written_state :: "(string \<times> BucketObject) list runtime" where
  "written_state = start_state\<lparr>rt_store := rt_store start_state @ [(sample_object, \<lparr>generation = 1, obj_bytes = sample_bytes\<rparr>)],
     rt_uploaded := [''s1'' \<mapsto> \<lparr>us_started = 1, us_completed = 1, us_latest = Some sample_ref\<rparr>], rt_tick := Suc (Suc 0)\<rparr>"

definition released_state :: "(string \<times> BucketObject) list runtime" where
  "released_state = written_state\<lparr>rt_store :=
     [(sample_owner_key, \<lparr>generation = 2, obj_bytes = [2]\<rparr>), (sample_object, \<lparr>generation = 1, obj_bytes = sample_bytes\<rparr>)],
     rt_tick := Suc (Suc (Suc 0))\<rparr>"

lemma sample_env_on: "env_on mem_bucket sample_env"
  by (auto simp: env_on_def sample_env_def own_json_ok_def split: if_splits)

lemma sample_env_simps [simp]:
  "re_crypto sample_env = hex_crypto" "re_json sample_env = sample_json" "re_authority sample_env = mem_bucket"
  "re_store sample_env = bucket_snapshots mem_bucket" "re_persistence sample_env = LocalStore"
  "re_now sample_env n = 5" "re_uuid sample_env n = ''u''" "re_race sample_env n = True"
  by (simp_all add: sample_env_def)

lemma sample_ownership_key: "ownership_key hex_crypto (storage_key sample_actor) = Inr sample_owner_key"
  by (simp add: ownership_key_def owner_storage_key sample_owner_key_def)

lemma sample_keys_distinct: "sample_object \<noteq> sample_owner_key"
  unfolding sample_object_def stream_prefix_def append_assoc
  by (rule ownership_key_not_snapshot [OF sample_ownership_key, symmetric])

lemma sample_record_stream: "stream hex_crypto sample_record = Inr sample_stream"
  by (simp add: stream_Inr_iff sample_stream_def sample_record_def sample_lease_def)

lemma sample_object_actor: "actor_from_snapshot hex_crypto sample_object = Inr sample_actor"
  unfolding sample_object_def by (rule actor_from_stream_object [OF crypto_ok_hex sample_actor_valid])

lemma sample_write_owner:
  "ensure_write_owner sample_env sample_plan s = (Inr (), s\<lparr>rt_tick := Suc (rt_tick s)\<rparr>)"
  if "rt_owned s = rt_owned start_state" for s
  using that
  by (simp add: ensure_write_owner_Inr sample_plan_def sample_object_actor sample_record_stream start_state_def)
    (simp add: sample_record_def sample_lease_def)

lemma sample_stream_snapshot: "stream_snapshot hex_crypto sample_json sample_stream sample_bytes = Inr sample_ref"
  by (simp add: stream_snapshot_def sample_decode validate_object_def sample_ref_def sample_object_def
      stream_object_def sample_stream_def) (simp add: sample_snapshot_def)

lemma run_put: "snap_put mem_bucket sample_object sample_bytes (rt_store start_state) = (Inr (), rt_store written_state)"
  using sample_keys_distinct
  by (simp add: snap_put_def replace_def replace_after_def mem_bucket_def start_state_def written_state_def)

lemma sample_write: "write_snapshot sample_env sample_plan sample_bytes start_state = (Inr (), written_state)"
proof -
  let ?u = "\<lparr>us_started = 1, us_completed = 0, us_latest = None\<rparr>"
  let ?t1 = "start_state\<lparr>rt_tick := Suc 0\<rparr>"
  let ?t2 = "?t1\<lparr>rt_uploaded := [''s1'' \<mapsto> ?u]\<rparr>"
  let ?t3 = "?t2\<lparr>rt_store := rt_store written_state\<rparr>"
  have 1: "ensure_write_owner sample_env sample_plan start_state = (Inr (), ?t1)"
    using sample_write_owner [of start_state] by (simp add: start_state_def)
  have 2: "check_dependency sample_env ''s1'' sample_bytes ?t1 = (Inr (), ?t1)"
    by (simp add: check_dependency_def bind_op_def lift_op_def sample_decode) (simp add: sample_snapshot_def)
  have 3: "upload_started ''s1'' ?t1 = (Inr (), ?t2)"
    by (simp add: upload_started_def uploaded_entry_def default_uploaded_def start_state_def)
  have 4: "on_store (st_put (bucket_snapshots mem_bucket) sample_object sample_bytes) ?t2 = (Inr (), ?t3)"
    using run_put by (simp add: on_store_def bucket_snapshots_def)
  have 5: "ensure_write_owner sample_env sample_plan ?t3 = (Inr (), ?t3\<lparr>rt_tick := Suc (Suc 0)\<rparr>)"
    using sample_write_owner [of ?t3] by (simp add: start_state_def)
  have 6: "upload_completed ''s1'' sample_ref (?t3\<lparr>rt_tick := Suc (Suc 0)\<rparr>) = (Inr (), written_state)"
    by (simp add: upload_completed_def uploaded_entry_def advance_def written_state_def start_state_def)
  have 7: "sr_object sample_ref = sample_object" "sr_state_version sample_ref = 1"
    by (simp_all add: sample_ref_def snapshot_ref_new_def sample_snapshot_def)
  have 8: "wp_stream sample_plan = sample_stream" "wp_object_name sample_plan = sample_object"
    "wp_state_version sample_plan = 1" "ss_session sample_stream = ''s1''"
    by (simp_all add: sample_plan_def sample_stream_def)
  show ?thesis
    using 6 unfolding write_snapshot_def Let_def 8
    by (simp add: bind_op_def lift_op_def ensure_op_def sample_stream_snapshot 1 2 3 4 5 7)
qed

lemma sample_drain:
  "drain_activation sample_env sample_actor (HostId ''h1'') ''s1'' written_state =
    (Inr \<lparr>sc_snapshot = Some sample_ref\<rparr>, written_state)"
proof -
  have r: "rt_owned written_state (as_str (storage_key sample_actor)) = Some sample_record"
    "rt_uploaded written_state ''s1'' = Some \<lparr>us_started = 1, us_completed = 1, us_latest = Some sample_ref\<rparr>"
    by (simp_all add: written_state_def start_state_def)
  have l: "hl_id (ow_lease sample_record) = HostId ''h1''" "hl_session_id (ow_lease sample_record) = ''s1''"
    "ow_base sample_record = None"
    by (simp_all add: sample_record_def sample_lease_def)
  show ?thesis
    by (simp add: drain_activation_def bind_op_def ensure_op_def upload_checkpoint_def lift_op_def ret_op_def on_store_def
        bucket_snapshots_def r l advance_def sample_record_stream)
qed

lemma sample_load:
  assumes "map_of (rt_store s) sample_owner_key = Some \<lparr>generation = g, obj_bytes = b\<rparr>"
    and "re_own_decode sample_env b = Inr r" and "ow_persistence r = LocalStore"
  shows "load sample_env (storage_key sample_actor) s = (Inr (Some (g, r)), s)"
  using assms by (simp add: load_def bind_op_def lift_op_def read_store_def sample_ownership_key mem_bucket_def same_backend_def)

lemma run_replace:
  assumes "map_of (rt_store s) sample_owner_key = Some \<lparr>generation = g, obj_bytes = b\<rparr>"
    and "ow_actor r = sample_actor" and "re_own_encode sample_env (r\<lparr>ow_mutation := ''u''\<rparr>) = Inr b'"
  shows "replace_activation sample_env r (Some g) s =
    (Inr (True, r\<lparr>ow_mutation := ''u''\<rparr>), s\<lparr>rt_tick := Suc (rt_tick s),
       rt_store := AList.update sample_owner_key \<lparr>generation = g + 1, obj_bytes = b'\<rparr> (rt_store s)\<rparr>)"
  using assms
  by (simp add: replace_activation_def bind_op_def ask_def lift_op_def ret_op_def on_store_def sample_ownership_key Let_def
      replace_def replace_after_def mem_bucket_def)

lemma sample_codec:
  "re_own_decode sample_env [1] = Inr sample_record" "re_own_decode sample_env [2] = Inr sample_released"
  "re_own_encode sample_env sample_released = Inr [2]"
  "re_own_encode sample_env second_record = Inr [3]"
  "re_own_encode sample_env sample_renewed = Inr [4]"
proof -
  have "ow_sealed sample_released" "\<not> ow_sealed sample_record" "\<not> ow_sealed second_record" "\<not> ow_sealed sample_renewed"
    "ow_epoch second_record = 2" "ow_epoch sample_record = 1" "ow_epoch sample_renewed = 1"
    "ow_mutation sample_renewed = ''u''" "ow_mutation sample_record = []"
    by (simp_all add: sample_released_def released_def Let_def sample_record_def second_record_def sample_renewed_def)
  then have "sample_released \<noteq> sample_record" "second_record \<noteq> sample_record" "second_record \<noteq> sample_released"
    "sample_renewed \<noteq> sample_record" "sample_renewed \<noteq> sample_released" "sample_renewed \<noteq> second_record"
    by auto
  then show "re_own_decode sample_env [1] = Inr sample_record" "re_own_decode sample_env [2] = Inr sample_released"
    "re_own_encode sample_env sample_released = Inr [2]"
    "re_own_encode sample_env second_record = Inr [3]"
    "re_own_encode sample_env sample_renewed = Inr [4]"
    by (simp_all add: sample_env_def)
qed

lemma sample_release:
  "release_with_checkpoint sample_env sample_actor (HostId ''h1'') ''s1'' (Some \<lparr>sc_snapshot = Some sample_ref\<rparr>)
     written_state = (Inr (), released_state)"
proof -
  let ?cp = "Some \<lparr>sc_snapshot = Some sample_ref\<rparr>"
  have m: "map_of (rt_store written_state) sample_owner_key = Some \<lparr>generation = 1, obj_bytes = [1]\<rparr>"
    by (simp add: written_state_def start_state_def)
  have l: "load sample_env (storage_key sample_actor) written_state = (Inr (Some (1, sample_record)), written_state)"
    by (rule sample_load [OF m sample_codec(1)]) (simp add: sample_record_def)
  have r: "replace_activation sample_env (released ?cp sample_record) (Some 1) written_state =
      (Inr (True, sample_released), released_state)"
    using run_replace [OF m, of "released ?cp sample_record" "[2]"] sample_codec(3)
    by (simp add: sample_released_def released_state_def written_state_def start_state_def released_def Let_def
        sample_record_actor)
  have "releasable (HostId ''h1'') ''s1'' sample_record" by (simp add: releasable_def sample_record_def sample_lease_def)
  with l r show ?thesis
    by (simp add: release_with_checkpoint_def eval_nat_numeral bind_op_def ret_op_def)
qed

lemma sample_released_facts:
  "ow_sealed sample_released" "ow_base sample_released = Some sample_ref" "ow_persistence sample_released = LocalStore"
  "ow_actor sample_released = sample_actor" "ow_region sample_released = ''eu''" "ow_epoch sample_released = 1"
  "ow_lease sample_released = sample_lease\<lparr>hl_expires_at_ms := 0\<rparr>"
  by (simp_all add: sample_released_def released_def Let_def sample_record_def)

lemma sample_recovery:
  "recover_activation sample_env (Some sample_released) s =
    (Inr \<lparr>ar_snapshot = Some \<lparr>ls_reference = sample_ref, ls_bytes = sample_bytes\<rparr>, ar_checkpoint = None\<rparr>,
     s\<lparr>rt_tick := Suc (rt_tick s)\<rparr>)"
  if "rt_store s = rt_store released_state" for s
proof -
  have g: "snap_get mem_bucket (sr_object sample_ref) (rt_store released_state) = Inr (Some sample_bytes)"
    using sample_keys_distinct
    by (simp add: snap_get_def mem_bucket_def released_state_def sample_ref_def snapshot_ref_new_def)
  have v: "ref_verify hex_crypto sample_ref sample_bytes = Inr ()"
    by (simp add: ref_verify_def sample_ref_def snapshot_ref_new_def)
  have p: "parent (sqlite sample_snapshot) = None" by (simp add: sample_snapshot_def)
  show ?thesis
    by (simp add: recover_activation_def recover_sealed_activation_def load_activation_snapshot_def load_latest_def
        sample_released_facts advance_def bind_op_def ask_def lift_op_def ret_op_def read_store_def bucket_snapshots_def
        g v p that default_recovery_def sample_decode)
qed

lemma run_activation:
  "activation_record LocalStore 5 sample_actor second_request ''eu'' (Some sample_released) =
     Inr (second_record\<lparr>ow_mutation := []\<rparr>)"
  "validate_activation LocalStore 5 sample_actor second_request ''eu'' (Some sample_released) = Inr ()"
  by (simp_all add: activation_record_def validate_activation_def sample_released_facts new_lease_def second_request_def
      validate_duration_def MAX_HOST_LEASE_DURATION_MS_def checked_add_def second_record_def same_backend_def sample_lease_def)

lemma sample_register:
  "\<exists>loaded s'. register_activation sample_env sample_actor second_request ''eu'' False None released_state = (Inr loaded, s')"
proof -
  have m: "map_of (rt_store released_state) sample_owner_key = Some \<lparr>generation = 2, obj_bytes = [2]\<rparr>"
    by (simp add: released_state_def)
  have l: "load sample_env (storage_key sample_actor) s = (Inr (Some (2, sample_released)), s)"
    if "rt_store s = rt_store released_state" for s
    by (rule sample_load [OF _ sample_codec(2)]) (simp_all add: sample_released_facts m that)
  have r: "replace_activation sample_env (second_record\<lparr>ow_mutation := []\<rparr>) (Some 2) s =
      (Inr (True, second_record), s\<lparr>rt_tick := Suc (rt_tick s),
       rt_store := AList.update sample_owner_key \<lparr>generation = 2 + 1, obj_bytes = [3]\<rparr> (rt_store s)\<rparr>)"
    if "rt_store s = rt_store released_state" for s
    using run_replace [of s 2 "[2]" "second_record\<lparr>ow_mutation := []\<rparr>" "[3]"] m that sample_codec(4)
    by (simp add: second_record_def)
  obtain st where st: "stream hex_crypto second_record = Inr st"
    by (simp add: stream_Inr_iff second_record_def)
  have v: "validate_region ''eu'' = Inr ()" "validate_duration second_request = Inr ()"
    by (simp_all add: validate_region_def validate_duration_def second_request_def MAX_HOST_LEASE_DURATION_MS_def)
  show ?thesis
    by (simp add: register_activation_def activation_loop_def activation_attempt_def activation_current_def
        claim_and_recover_def activation_outcome_def adopt_activation_def bind_op_def lift_op_def now_ms_def ask_def
        ret_op_def try_op_def Let_def v l r st run_activation sample_recovery sample_released_facts on_store_def
        bucket_snapshots_def remember_def)
qed

lemma sample_owned:
  "owned_by sample_env (map_of (rt_store start_state)) (storage_key sample_actor) (Some (1, sample_record))"
  "owned_by sample_env (map_of (rt_store written_state)) (storage_key sample_actor) (Some (1, sample_record))"
  by (simp_all add: owned_by_def sample_ownership_key start_state_def written_state_def sample_codec)

theorem acknowledged_write_survives_handover_witness:
  "\<exists>loaded s'. register_activation sample_env sample_actor second_request ''eu'' False None released_state = (Inr loaded, s') \<and>
     la_state loaded = Some sample_bytes"
proof -
  obtain loaded s' where reg:
    "register_activation sample_env sample_actor second_request ''eu'' False None released_state = (Inr loaded, s')"
    using sample_register by blast
  have up: "uploaded_latest written_state ''s1'' sample_ref" "sr_object sample_ref = wp_object_name sample_plan"
    by (simp_all add: uploaded_latest_def written_state_def sample_ref_def snapshot_ref_new_def sample_plan_def)
  have base: "\<forall>r x. rt_owned written_state (as_str (storage_key sample_actor)) = Some r \<longrightarrow> ow_base r = Some x \<longrightarrow>
      snapshot_position (sr_object x) < snapshot_position (sr_object sample_ref)"
    by (auto simp: written_state_def start_state_def sample_record_def)
  have q: "releasable (HostId ''h1'') ''s1'' sample_record" by (simp add: releasable_def sample_record_def sample_lease_def)
  from acknowledged_write_survives_handover [OF mem.bucket_laws_axioms sample_env_on TrueI sample_write up base sample_drain
      sample_owned(2) sample_record_actor(1) q sample_release reg] reg
  show ?thesis by blast
qed

theorem live_owner_refuses_activation_witness:
  "\<exists>e s'. register_activation sample_env sample_actor second_request ''eu'' False None start_state = (Inl e, s') \<and>
     map_of (rt_store s') = map_of (rt_store start_state)"
  by (rule live_owner_refuses_activation [OF mem.bucket_laws_axioms sample_env_on TrueI sample_owned(1)])
    (simp_all add: hint_genuine_def sample_record_def sample_lease_def)


lemma sample_renew:
  "\<exists>s'. renew_activation sample_env sample_actor sample_request start_state = (Inr sample_lease, s')"
proof -
  have m: "map_of (rt_store s) sample_owner_key = Some \<lparr>generation = 1, obj_bytes = [1]\<rparr>"
    if "rt_store s = rt_store start_state" for s
    by (simp add: start_state_def that)
  have l: "load sample_env (storage_key sample_actor) start_state = (Inr (Some (1, sample_record)), start_state)"
    by (rule sample_load [OF m sample_codec(1)]) (simp_all add: sample_record_def)
  have c: "renewal_check 5 sample_actor sample_request sample_record = Inr ()"
    "hl_id (ow_lease sample_record) = hr_id sample_request"
    "hl_session_id (ow_lease sample_record) = hr_session_id sample_request"
    by (simp_all add: renewal_check_def sample_record_def sample_lease_def sample_request_def)
  have s: "sample_record\<lparr>ow_lease := sample_lease\<rparr> = sample_record" by (simp add: sample_record_def)
  have r: "replace_activation sample_env sample_record (Some 1) s =
      (Inr (True, sample_renewed), s\<lparr>rt_tick := Suc (rt_tick s),
       rt_store := AList.update sample_owner_key \<lparr>generation = 1 + 1, obj_bytes = [4]\<rparr> (rt_store s)\<rparr>)"
    if "rt_store s = rt_store start_state" for s
    using run_replace [OF m [OF that], of sample_record "[4]"] sample_codec(5)
    by (simp add: sample_renewed_def sample_record_actor)
  have o: "rt_owned start_state (as_str (storage_key sample_actor)) = Some sample_record"
    by (simp add: start_state_def)
  have e: "ow_epoch sample_renewed = ow_epoch sample_record" by (simp add: sample_renewed_def)
  show ?thesis
    by (simp add: renew_activation_def save_activation_def bind_op_def ensure_op_def lift_op_def ret_op_def now_ms_def ask_def
        l c s r o e sample_record_actor sample_new_lease)
qed

theorem renewal_replaces_only_the_lease_witness:
  "\<exists>m v. installed sample_env (storage_key sample_actor) (Some 1) (sample_record\<lparr>ow_lease := sample_lease, ow_mutation := m\<rparr>)
     (map_of (rt_store start_state)) v"
proof -
  obtain s' where "renew_activation sample_env sample_actor sample_request start_state = (Inr sample_lease, s')"
    using sample_renew by blast
  moreover have "\<And>n. re_uuid sample_env n \<noteq> ow_mutation sample_record" by (simp add: sample_record_def)
  ultimately show ?thesis
    using renewal_replaces_only_the_lease [OF mem.bucket_laws_axioms sample_env_on TrueI _ sample_owned(1)] by blast
qed

end
