(* ===== verification/Std_Collections.thy ===== *)
theory Std_Collections
  imports DA_Prelude
begin

text \<open>
  What the sources use of the standard library beyond lists and integers: the ordered map
  \<open>BTreeMap\<close>, as the list of its entries in the order it is iterated in, and the
  replacements of \<open>str\<close>.
\<close>

section \<open>Ordered maps\<close>

type_synonym ('k, 'v) btree = "('k \<times> 'v) list"

fun bt_insert :: "'k :: linorder \<Rightarrow> 'v \<Rightarrow> ('k, 'v) btree \<Rightarrow> ('k, 'v) btree" where
  "bt_insert k v [] = [(k, v)]"
| "bt_insert k v ((k', v') # m) =
     (if k < k' then (k, v) # (k', v') # m
      else if k = k' then (k, v) # m
      else (k', v') # bt_insert k v m)"

definition bt_remove :: "'k \<Rightarrow> ('k, 'v) btree \<Rightarrow> ('k, 'v) btree" where
  "bt_remove k m = filter (\<lambda>(k', _). k' \<noteq> k) m"

text \<open>The entries with keys from \<open>a\<close> on and below \<open>b\<close>.\<close>

definition bt_range :: "'k :: linorder \<Rightarrow> 'k \<Rightarrow> ('k, 'v) btree \<Rightarrow> ('k, 'v) btree" where
  "bt_range a b m = filter (\<lambda>(k, _). a \<le> k \<and> k < b) m"

definition bt_ok :: "('k :: linorder, 'v) btree \<Rightarrow> bool" where
  "bt_ok m \<longleftrightarrow> sorted_wrt (<) (map fst m)"

lemma map_of_bt_insert [simp]: "map_of (bt_insert k v m) = (map_of m)(k \<mapsto> v)"
  by (induction k v m rule: bt_insert.induct) auto

lemma map_of_bt_remove [simp]: "map_of (bt_remove k m) = (map_of m)(k := None)"
  by (induction m) (auto simp: bt_remove_def)

lemma set_keys_bt_insert [simp]: "fst ` set (bt_insert k v m) = insert k (fst ` set m)"
  by (induction k v m rule: bt_insert.induct) auto

lemma bt_ok_insert [simp]: "bt_ok m \<Longrightarrow> bt_ok (bt_insert k v m)"
proof (induction k v m rule: bt_insert.induct)
  case (2 k v k' v' m)
  have "x < y" if "k' < k" "\<forall>y \<in> fst ` set m. k' < y" "x = k'" "y \<in> fst ` set (bt_insert k v m)" for x y
    using that by auto
  with 2 show ?case by (fastforce simp: bt_ok_def)
qed (simp add: bt_ok_def)

lemma bt_ok_Nil [simp]: "bt_ok []"
  by (simp add: bt_ok_def)

lemma bt_ok_filter [simp]: "bt_ok m \<Longrightarrow> bt_ok (filter P m)"
  by (simp add: bt_ok_def sorted_wrt_map sorted_wrt_filter)

lemma bt_ok_distinct: "bt_ok m \<Longrightarrow> distinct (map fst m)"
  by (induction m) (auto simp: bt_ok_def)

lemma bt_ok_unique:
  "bt_ok m \<Longrightarrow> bt_ok n \<Longrightarrow> map_of m = map_of n \<Longrightarrow> m = n"
proof -
  assume ok: "bt_ok m" "bt_ok n" and eq: "map_of m = map_of n"
  have s: "set m = set n"
    using map_of_eq_Some_iff [OF bt_ok_distinct [OF ok(1)]] map_of_eq_Some_iff [OF bt_ok_distinct [OF ok(2)]] eq by auto
  have k: "map fst m = map fst n"
    using ok s by (intro strict_sorted_equal) (auto simp: bt_ok_def)
  have "map (\<lambda>k. (k, the (map_of m k))) (map fst m) = m"
    by (auto intro!: map_idI simp: map_of_is_SomeI [OF bt_ok_distinct [OF ok(1)]])
  moreover have "map (\<lambda>k. (k, the (map_of n k))) (map fst n) = n"
    by (auto intro!: map_idI simp: map_of_is_SomeI [OF bt_ok_distinct [OF ok(2)]])
  ultimately show ?thesis using k eq by metis
qed

section \<open>Replacing in strings\<close>

fun str_replace_at :: "nat \<Rightarrow> string \<Rightarrow> string \<Rightarrow> string \<Rightarrow> string" where
  "str_replace_at skip from to [] = []"
| "str_replace_at (Suc skip) from to (c # s) = str_replace_at skip from to s"
| "str_replace_at 0 from to (c # s) =
     (if starts_with from (c # s) then to @ str_replace_at (length from - 1) from to s
      else c # str_replace_at 0 from to s)"

text \<open>\<open>str::replace\<close> for a pattern that is not empty: every match, from the left.\<close>

definition str_replace :: "string \<Rightarrow> string \<Rightarrow> string \<Rightarrow> string" where
  "str_replace from to s = str_replace_at 0 from to s"

text \<open>\<open>str::replacen\<close> with a count of one.\<close>

fun replace_first :: "string \<Rightarrow> string \<Rightarrow> string \<Rightarrow> string" where
  "replace_first from to [] = []"
| "replace_first from to (c # s) =
     (if starts_with from (c # s) then to @ drop (length from) (c # s) else c # replace_first from to s)"

text \<open>\<open>str::trim_end_matches\<close> for a pattern that is not empty.\<close>

function trim_end_matches :: "string \<Rightarrow> string \<Rightarrow> string" where
  "trim_end_matches p s =
     (if p = [] then s else case strip_suffix p s of None \<Rightarrow> s | Some t \<Rightarrow> trim_end_matches p t)"
  by pat_completeness auto
termination
  by (relation "measure (\<lambda>(p, s). length s)") (auto simp: strip_suffix_Some_iff)

declare trim_end_matches.simps [simp del]

end
