(* ===== verification/Rapid_Frames.thy ===== *)
theory Rapid_Frames
  imports Ownership Payload Bucket_Store Std_Collections
begin

text \<open>
  The record format of the Rapid log and its index (\<open>bucket/rapid/frame.rs\<close> and the
  pure part of \<open>bucket/rapid/index.rs\<close>). A log object is a concatenation of frames; a
  reader may find it cut anywhere inside the last frame. An index lists the frames of an
  archived batch, so that one range read fetches a record together with the records it
  depends on. Positions in a log object are natural numbers: a frame is shorter than
  \<open>2 ^ 33\<close> bytes and an object shorter than \<open>2 ^ 63\<close>, so the checked additions on them
  do not fail on a 64-bit machine.
\<close>

section \<open>Frames\<close>

definition HEADER :: nat where "HEADER = 48"

definition RLG1 :: bytes where "RLG1 = str_bytes ''RLG1''"

record Record =
  rec_version :: u64
  rec_state :: bytes

definition frame_checksum :: "crypto \<Rightarrow> bytes \<Rightarrow> bytes \<Rightarrow> bytes" where
  "frame_checksum C header state = sha256 C (header @ state)"

definition frame_prefix :: "Record \<Rightarrow> bytes" where
  "frame_prefix r = RLG1 @ u32_to_le_bytes (of_nat (length (rec_state r))) @ u64_to_le_bytes (rec_version r)"

definition record_encode :: "crypto \<Rightarrow> Record \<Rightarrow> bytes result" where
  "record_encode C r =
     ensure (rec_version r > 0) ''invalid state version'' (
     ensure (length (rec_state r) < 2 ^ 32) ''record length overflow'' (
     payload_copy [frame_prefix r @ frame_checksum C (frame_prefix r) (rec_state r), rec_state r]))"

definition frame_length :: "bytes \<Rightarrow> nat result" where
  "frame_length header =
     ensure (HEADER \<le> length header \<and> take 4 header = RLG1) ''invalid record header'' (
     Inr (HEADER + unat (u32_from_le_bytes (take 4 (drop 4 header)))))"

text \<open>\<open>prev\<close> is the version of the last record that was pushed, and \<open>bs\<close> the bytes from
  the current offset on.\<close>

function frames_from :: "crypto \<Rightarrow> u64 option \<Rightarrow> bytes \<Rightarrow> Record list result" where
  "frames_from C prev bs =
     (if length bs < HEADER then Inr []
      else
        let header = take HEADER bs in
        case frame_length header of
          Inl e \<Rightarrow> Inl e
        | Inr end \<Rightarrow>
            if length bs < end then Inr []
            else
              let version = u64_from_le_bytes (take 8 (drop 8 header));
                  state = take (end - HEADER) (drop HEADER bs) in
              ensure (version > 0) ''invalid state version'' (
              ensure (case prev of None \<Rightarrow> True | Some p \<Rightarrow> checked_add p 1 = Some version)
                ''nonconsecutive state versions'' (
              ensure (frame_checksum C (take 16 header) state = drop 16 header) ''corrupt log record'' (
              rbind (frames_from C (Some version) (drop end bs)) (\<lambda>rs.
              Inr (\<lparr>rec_version = version, rec_state = state\<rparr> # rs))))))"
  by pat_completeness auto
termination
  by (relation "measure (\<lambda>(C, prev, bs). length bs)")
    (auto simp: frame_length_def ensure_def HEADER_def split: if_splits)

declare frames_from.simps [simp del]

definition frames_decode :: "crypto \<Rightarrow> bytes \<Rightarrow> Record list result" where
  "frames_decode C bs = frames_from C None bs"

section \<open>The index of a batch\<close>

record Entry =
  en_version :: u64
  en_start :: u64
  en_length :: u64

record Index =
  ix_batch :: string
  ix_records :: "Entry list"

text \<open>The entries of the records of a batch, from the offset \<open>start\<close> on, and the offset
  after the last.\<close>

fun index_entries :: "u64 \<Rightarrow> Record list \<Rightarrow> Entry list \<times> u64" where
  "index_entries start [] = ([], start)"
| "index_entries start (r # rs) =
     (let len = of_nat (HEADER + length (rec_state r));
          (es, end) = index_entries (start + len) rs
      in (\<lparr>en_version = rec_version r, en_start = start, en_length = len\<rparr> # es, end))"

fun validate_entries :: "u64 \<Rightarrow> u64 option \<Rightarrow> Entry list \<Rightarrow> u64 result" where
  "validate_entries offset prev [] = Inr offset"
| "validate_entries offset prev (e # es) =
     ensure (en_start e = offset \<and> HEADER \<le> unat (en_length e) \<and>
             unat (en_length e) \<le> HEADER + (2 ^ 32 - 1) \<and>
             (case prev of None \<Rightarrow> True | Some v \<Rightarrow> checked_add v 1 = Some (en_version e)))
       ''invalid archive index entry'' (
     rbind (context_opt ''indexed offset overflow'' (checked_add offset (en_length e))) (\<lambda>offset'.
     validate_entries offset' (Some (en_version e)) es))"

definition index_validate :: "Index \<Rightarrow> string \<Rightarrow> unit result" where
  "index_validate ix pre =
     rbind (context_opt ''archive index escaped its segment''
       (Option.bind (strip_prefix pre (ix_batch ix)) (strip_suffix ''.batch''))) (\<lambda>name.
     rbind (context_opt ''invalid indexed batch range'' (split_once (CHR ''~'') name)) (\<lambda>(start, end).
     rbind (context_opt ''invalid digit found in string'' (parse_u64 end)) (\<lambda>end.
     rbind (context_opt ''invalid digit found in string'' (parse_u64 start)) (\<lambda>start.
     rbind (context_opt ''invalid indexed batch boundary'' (checked_sub end start)) (\<lambda>len.
     rbind (validate_entries 0 None (ix_records ix)) (\<lambda>offset.
     ensure (ix_records ix \<noteq> [] \<and> offset = len) ''incomplete archive index'' (Inr ())))))))"

text \<open>The search of the standard library in \<open>xs ! lo, \<dots>, xs ! (hi - 1)\<close>.\<close>

function binary_search :: "('a \<Rightarrow> u64) \<Rightarrow> u64 \<Rightarrow> 'a list \<Rightarrow> nat \<Rightarrow> nat \<Rightarrow> nat option" where
  "binary_search key v xs lo hi =
     (if hi \<le> lo then None
      else
        let mid = lo + (hi - lo) div 2 in
        if key (xs ! mid) = v then Some mid
        else if key (xs ! mid) < v then binary_search key v xs (Suc mid) hi
        else binary_search key v xs lo mid)"
  by pat_completeness auto
termination
  by (relation "measure (\<lambda>(key, v, xs, lo, hi). hi - lo)") auto

declare binary_search.simps [simp del]

text \<open>The loop over the earlier records, the nearest first.\<close>

fun range_back :: "u64 \<Rightarrow> u64 \<Rightarrow> u64 \<Rightarrow> u64 \<Rightarrow> Entry list \<Rightarrow> u64" where
  "range_back first limit end start [] = start"
| "range_back first limit end start (e # es) =
     (if en_version e < first \<or> limit < end - en_start e then start
      else range_back first limit end (en_start e) es)"

definition index_range :: "Index \<Rightarrow> u64 \<Rightarrow> u64 \<Rightarrow> u64 \<Rightarrow> (u64 \<times> u64) result" where
  "index_range ix first v limit =
     rbind (context_opt ''archive index record missing''
       (binary_search en_version v (ix_records ix) 0 (length (ix_records ix)))) (\<lambda>last.
     let e = ix_records ix ! last;
         end = en_start e + en_length e;
         start = range_back first limit end (en_start e) (rev (take last (ix_records ix)))
     in Inr (start, end - start))"

definition index_segment :: "string \<Rightarrow> string \<Rightarrow> u64 \<Rightarrow> string option result" where
  "index_segment key pre v =
     (case Option.bind (strip_prefix (pre @ ''index~'') key) (strip_suffix ''.idx'') of
        None \<Rightarrow> Inr None
      | Some name \<Rightarrow>
          let parts = split_on (CHR ''~'') name in
          ensure (length parts = 3) ''invalid archive index name'' (
          rbind (context_opt ''invalid digit found in string'' (parse_u64 (parts ! 0))) (\<lambda>first.
          rbind (context_opt ''invalid digit found in string'' (parse_u64 (parts ! 1))) (\<lambda>last.
          ensure (first \<le> last) ''invalid archive index range'' (
          Inr (if first \<le> v \<and> v \<le> last then Some (parts ! 2) else None))))))"

section \<open>Records of an actor\<close>

definition record_validate :: "crypto \<Rightarrow> 'v snapshot_json \<Rightarrow> string \<Rightarrow> Record \<Rightarrow> unit result" where
  "record_validate C J obj r =
     rbind (snapshot_decode J (rec_state r)) (\<lambda>s.
     rbind (validate_object C s obj) (\<lambda>_.
     ensure (version obj = Some (rec_version r) \<and> state_version s = rec_version r)
       ''indexed record identity mismatch'' (
     ensure ((case rsplit_on (CHR ''/'') obj of _ # e # _ \<Rightarrow> e = show_u64_032x (owner_epoch s) | _ \<Rightarrow> False))
       ''indexed record epoch mismatch'' (
     Inr ()))))"

fun insert_records :: "crypto \<Rightarrow> 'v snapshot_json \<Rightarrow> string \<Rightarrow> Record list \<Rightarrow> (string \<rightharpoonup> bytes) \<Rightarrow>
    (string \<rightharpoonup> bytes) result" where
  "insert_records C J pre [] m = Inr m"
| "insert_records C J pre (r # rs) m =
     (let obj = pre @ ''/'' @ show_u64 (rec_version r) @ ''.json'' in
      rbind (record_validate C J obj r) (\<lambda>_.
      ensure (m obj = None) ''duplicate indexed record'' (
      insert_records C J pre rs (m(obj \<mapsto> rec_state r)))))"

definition decode_records :: "crypto \<Rightarrow> 'v snapshot_json \<Rightarrow> string \<Rightarrow> bytes \<Rightarrow> (string \<rightharpoonup> bytes) result" where
  "decode_records C J pre bs =
     rbind (frames_decode C bs) (\<lambda>rs.
     rbind (insert_records C J pre rs Map.empty) (\<lambda>m.
     ensure (sum_list (map (\<lambda>r. HEADER + length (rec_state r)) rs) = length bs) ''incomplete indexed range'' (
     Inr m)))"

section \<open>Frames are self-delimiting\<close>

lemma length_frame_prefix: "length (frame_prefix r) = 16"
  by (simp add: frame_prefix_def RLG1_def str_bytes_def)

lemma record_encode_Inr:
  assumes "crypto_ok C" "record_encode C r = Inr b"
  shows "b = frame_prefix r @ frame_checksum C (frame_prefix r) (rec_state r) @ rec_state r"
    "length b = HEADER + length (rec_state r)" "length (rec_state r) < 2 ^ 32" "rec_version r > 0"
proof -
  let ?h = "frame_prefix r @ frame_checksum C (frame_prefix r) (rec_state r)"
  have h: "length ?h = 48" using assms(1) by (simp add: length_frame_prefix frame_checksum_def crypto_ok_def)
  from assms(2) have c: "payload_copy [?h, rec_state r] = Inr b" and l: "length (rec_state r) < 2 ^ 32"
    and v: "rec_version r > 0" by (auto simp: record_encode_def result_simps)
  have "\<forall>c \<in> set [?h, rec_state r]. length c < 2 ^ 63" using h l by simp
  from payload_copy_result [OF this] c show b: "b = frame_prefix r @ frame_checksum C (frame_prefix r) (rec_state r) @ rec_state r"
    by (auto split: if_splits)
  with h show "length b = HEADER + length (rec_state r)" by (simp add: HEADER_def)
qed (use assms(2) in \<open>auto simp: record_encode_def result_simps\<close>)

lemma frame_fields:
  assumes C: "crypto_ok C" and e: "record_encode C r = Inr b"
  shows "take HEADER (b @ rest) = frame_prefix r @ frame_checksum C (frame_prefix r) (rec_state r)"
    "frame_length (frame_prefix r @ frame_checksum C (frame_prefix r) (rec_state r)) = Inr (length b)"
    "u64_from_le_bytes (take 8 (drop 8 (frame_prefix r @ x))) = rec_version r"
    "take (length b - HEADER) (drop HEADER (b @ rest)) = rec_state r"
proof -
  note b = record_encode_Inr [OF C e]
  have k: "length (frame_checksum C (frame_prefix r) (rec_state r)) = 32"
    using C by (simp add: frame_checksum_def crypto_ok_def)
  show "take HEADER (b @ rest) = frame_prefix r @ frame_checksum C (frame_prefix r) (rec_state r)"
    unfolding b(1) by (simp add: HEADER_def length_frame_prefix k)
  show "take (length b - HEADER) (drop HEADER (b @ rest)) = rec_state r"
    unfolding b(2) unfolding b(1) by (simp add: HEADER_def length_frame_prefix k)
  have 4: "length RLG1 = 4" by (simp add: RLG1_def str_bytes_def)
  show "u64_from_le_bytes (take 8 (drop 8 (frame_prefix r @ x))) = rec_version r"
    by (simp add: frame_prefix_def 4)
  have "unat (of_nat (length (rec_state r)) :: u32) = length (rec_state r)"
    using b(3) by (simp add: unat_of_nat)
  then show "frame_length (frame_prefix r @ frame_checksum C (frame_prefix r) (rec_state r)) = Inr (length b)"
    unfolding b(2) by (simp add: frame_length_def HEADER_def length_frame_prefix k) (simp add: frame_prefix_def 4)
qed

definition follows_version :: "u64 option \<Rightarrow> u64 \<Rightarrow> bool" where
  "follows_version prev v \<longleftrightarrow> (case prev of None \<Rightarrow> True | Some p \<Rightarrow> checked_add p 1 = Some v)"

lemma frames_from_frame:
  assumes C: "crypto_ok C" and e: "record_encode C r = Inr b" and p: "follows_version prev (rec_version r)"
  shows "frames_from C prev (b @ rest) = rbind (frames_from C (Some (rec_version r)) rest) (\<lambda>rs. Inr (r # rs))"
proof -
  note b = record_encode_Inr [OF C e]
  define bs where "bs = b @ rest"
  have l: "\<not> length bs < HEADER" "\<not> length bs < length b" "drop (length b) bs = rest"
    using b(2) by (simp_all add: bs_def)
  have 16: "take 16 (frame_prefix r @ x) = frame_prefix r" "drop 16 (frame_prefix r @ x) = x" for x
    by (simp_all add: length_frame_prefix)
  have eta: "\<lparr>rec_version = rec_version r, rec_state = rec_state r\<rparr> = r" by simp
  note f = frame_fields(1,4) [OF C e, of rest, folded bs_def] frame_fields(2) [OF C e]
  have "frames_from C prev bs = rbind (frames_from C (Some (rec_version r)) rest) (\<lambda>rs. Inr (r # rs))"
    using b(4) p
    by (subst frames_from.simps)
      (simp add: l f eta 16 Let_def follows_version_def frame_fields(3) [OF C e] del: take_append drop_append)
  then show ?thesis by (simp add: bs_def)
qed

lemma frames_from_torn:
  assumes C: "crypto_ok C" and e: "record_encode C r = Inr b" and n: "n < length b"
  shows "frames_from C prev (take n b) = Inr []"
proof (cases "n < HEADER")
  case True
  with n show ?thesis by (subst frames_from.simps) simp
next
  case False
  note f = frame_fields(1) [OF C e, of "[]"] frame_fields(2) [OF C e]
  have h: "frame_length (take HEADER b) = Inr (length b)" using f by simp
  from False n show ?thesis by (subst frames_from.simps) (simp add: h min_def Let_def)
qed

fun consecutive :: "u64 option \<Rightarrow> Record list \<Rightarrow> bool" where
  "consecutive prev [] = True"
| "consecutive prev (r # rs) \<longleftrightarrow> follows_version prev (rec_version r) \<and> consecutive (Some (rec_version r)) rs"

definition encoded :: "crypto \<Rightarrow> Record list \<Rightarrow> bytes list \<Rightarrow> bool" where
  "encoded C rs bs \<longleftrightarrow> list_all2 (\<lambda>r b. record_encode C r = Inr b) rs bs"

lemma encoded_simps [simp]:
  "encoded C [] bs \<longleftrightarrow> bs = []" "encoded C (r # rs) bs \<longleftrightarrow> (\<exists>b bs'. bs = b # bs' \<and> record_encode C r = Inr b \<and> encoded C rs bs')"
  by (auto simp: encoded_def list_all2_Cons1)

text \<open>A log that is cut anywhere decodes to the records whose frames are complete.\<close>

lemma frames_from_log:
  "crypto_ok C \<Longrightarrow> encoded C rs bs \<Longrightarrow> consecutive prev rs \<Longrightarrow>
   \<exists>k \<le> length rs. frames_from C prev (take n (concat bs)) = Inr (take k rs) \<and> length (concat (take k bs)) \<le> n \<and>
     (k < length rs \<longrightarrow> n < length (concat (take (Suc k) bs)))"
proof (induction rs arbitrary: bs prev n)
  case Nil
  then show ?case by (subst frames_from.simps) (simp add: HEADER_def)
next
  case (Cons r rs)
  from Cons.prems obtain b bs' where b: "bs = b # bs'" "record_encode C r = Inr b" "encoded C rs bs'"
    "follows_version prev (rec_version r)" "consecutive (Some (rec_version r)) rs" by auto
  show ?case
  proof (cases "n < length b")
    case True
    with frames_from_torn [OF Cons.prems(1) b(2) True] show ?thesis by (intro exI [of _ 0]) (simp add: b(1))
  next
    case False
    from Cons.IH [OF Cons.prems(1) b(3,5), of "n - length b"] obtain k where
      k: "k \<le> length rs" "frames_from C (Some (rec_version r)) (take (n - length b) (concat bs')) = Inr (take k rs)"
      "length (concat (take k bs')) \<le> n - length b" "k < length rs \<longrightarrow> n - length b < length (concat (take (Suc k) bs'))"
      by blast
    have "take n (concat bs) = b @ take (n - length b) (concat bs')" using False by (simp add: b(1))
    with k False frames_from_frame [OF Cons.prems(1) b(2,4)] show ?thesis
      by (intro exI [of _ "Suc k"]) (auto simp: b(1))
  qed
qed

lemma frames_decode_log:
  assumes "crypto_ok C" "encoded C rs bs" "consecutive prev rs"
  shows "frames_from C prev (concat bs) = Inr rs"
proof -
  have len: "length bs = length rs" using assms(2) by (simp add: encoded_def list_all2_lengthD)
  obtain k where k: "k \<le> length rs" "frames_from C prev (concat bs) = Inr (take k rs)"
    "k < length rs \<longrightarrow> length (concat bs) < length (concat (take (Suc k) bs))"
    using frames_from_log [OF assms, of "length (concat bs)"] by auto
  have "length (concat (take (Suc k) bs)) \<le> length (concat bs)"
    by (metis append_take_drop_id concat_append length_append le_add1)
  with k have "k = length rs" by auto
  with k(2) show ?thesis by simp
qed

section \<open>An index finds the bytes of a record\<close>

lemma consecutive_version:
  "consecutive prev rs \<Longrightarrow> i < length rs \<Longrightarrow> unat (rec_version (rs ! i)) = unat (rec_version (rs ! 0)) + i"
proof (induction rs arbitrary: prev i)
  case (Cons r rs)
  show ?case
  proof (cases i)
    case (Suc j)
    with Cons.prems have j: "j < length rs" and c: "consecutive (Some (rec_version r)) rs" by auto
    from j obtain q qs where rs: "rs = q # qs" by (cases rs) auto
    with c have "unat (rec_version q) = unat (rec_version r) + 1"
      by (simp add: follows_version_def checked_add_Some_iff)
    with Cons.IH [OF c j] Suc rs show ?thesis by simp
  qed simp
qed simp

lemma binary_search_finds:
  assumes "\<And>a b. a < b \<Longrightarrow> b < length xs \<Longrightarrow> key (xs ! a) < key (xs ! b)" and "i < length xs"
  shows "lo \<le> i \<Longrightarrow> i < hi \<Longrightarrow> hi \<le> length xs \<Longrightarrow> binary_search key (key (xs ! i)) xs lo hi = Some i"
proof (induction "hi - lo" arbitrary: lo hi rule: less_induct)
  case less
  let ?mid = "lo + (hi - lo) div 2"
  have mid: "lo \<le> ?mid" "?mid < hi" using less.prems by linarith+
  consider "?mid = i" | "?mid < i" | "i < ?mid" by linarith
  then show ?case
  proof cases
    case 1
    with less.prems show ?thesis by (subst binary_search.simps) (simp add: Let_def)
  next
    case 2
    with assms have "key (xs ! ?mid) < key (xs ! i)" by blast
    with 2 less.prems less.hyps [of hi "Suc ?mid"] show ?thesis
      by (subst binary_search.simps) (auto simp: Let_def)
  next
    case 3
    with assms(1) less.prems mid have "key (xs ! i) < key (xs ! ?mid)" by simp
    with 3 less.prems less.hyps [of ?mid lo] mid show ?thesis
      by (subst binary_search.simps) (auto simp: Let_def)
  qed
qed

definition frame_size :: "Record \<Rightarrow> nat" where
  "frame_size r = HEADER + length (rec_state r)"

definition frame_offset :: "Record list \<Rightarrow> nat \<Rightarrow> nat" where
  "frame_offset rs i = sum_list (map frame_size (take i rs))"

lemma frame_offset_Cons [simp]: "frame_offset (r # rs) (Suc i) = frame_size r + frame_offset rs i"
  "frame_offset rs 0 = 0"
  by (simp_all add: frame_offset_def)

lemma index_entries_nth:
  "index_entries start rs = (es, end) \<Longrightarrow> length es = length rs \<and> end = start + of_nat (frame_offset rs (length rs)) \<and>
    (\<forall>i < length rs. es ! i = \<lparr>en_version = rec_version (rs ! i), en_start = start + of_nat (frame_offset rs i),
       en_length = of_nat (frame_size (rs ! i))\<rparr>)"
proof (induction start rs arbitrary: es "end" rule: index_entries.induct)
  case (2 start r rs)
  let ?len = "of_nat (frame_size r) :: u64"
  obtain es' where es: "index_entries (start + ?len) rs = (es', end)"
    "es = \<lparr>en_version = rec_version r, en_start = start, en_length = ?len\<rparr> # es'"
    using "2.prems" by (auto simp: Let_def frame_size_def split: prod.splits)
  note IH = "2.IH" [OF refl, folded frame_size_def, OF es(1)]
  have "es ! i = \<lparr>en_version = rec_version ((r # rs) ! i), en_start = start + of_nat (frame_offset (r # rs) i),
       en_length = of_nat (frame_size ((r # rs) ! i))\<rparr>" if "i < length (r # rs)" for i
    using that IH by (cases i) (auto simp: es(2) add.assoc)
  with IH es(2) show ?case by (auto simp: add.assoc)
qed simp

lemma encoded_offset:
  assumes "crypto_ok C"
  shows "encoded C rs bs \<Longrightarrow> i \<le> length rs \<Longrightarrow> length (concat (take i bs)) = frame_offset rs i"
proof (induction rs arbitrary: bs i)
  case (Cons r rs)
  from Cons.prems obtain b bs' where b: "bs = b # bs'" "record_encode C r = Inr b" "encoded C rs bs'" by auto
  show ?case
  proof (cases i)
    case (Suc j)
    with Cons b record_encode_Inr(2) [OF assms b(2)] show ?thesis by (simp add: frame_size_def)
  qed simp
qed simp

lemma range_back_stops:
  "i \<le> length es \<Longrightarrow> \<exists>j \<le> i. range_back first limit end start (rev (take i es)) = (if j < i then en_start (es ! j) else start) \<and>
    (\<forall>k. j \<le> k \<and> k < i \<longrightarrow> first \<le> en_version (es ! k) \<and> end - en_start (es ! k) \<le> limit)"
proof (induction i arbitrary: start)
  case (Suc i)
  then have i: "i < length es" by simp
  then have r: "rev (take (Suc i) es) = es ! i # rev (take i es)" by (simp add: take_Suc_conv_app_nth)
  show ?case
  proof (cases "en_version (es ! i) < first \<or> limit < end - en_start (es ! i)")
    case True
    then show ?thesis by (intro exI [of _ "Suc i"]) (auto simp: r)
  next
    case False
    from Suc.IH [of "en_start (es ! i)"] i obtain j where j: "j \<le> i"
      "range_back first limit end (en_start (es ! i)) (rev (take i es)) = (if j < i then en_start (es ! j) else en_start (es ! i))"
      "\<forall>k. j \<le> k \<and> k < i \<longrightarrow> first \<le> en_version (es ! k) \<and> end - en_start (es ! k) \<le> limit" by auto
    with False r show ?thesis
      by (intro exI [of _ j]) (auto simp: less_Suc_eq not_less)
  qed
qed simp

lemma encoded_slice:
  "encoded C rs bs \<Longrightarrow> encoded C (take n (drop j rs)) (take n (drop j bs))"
  by (simp add: encoded_def list_all2_takeI list_all2_dropI)

lemma consecutive_take: "consecutive prev rs \<Longrightarrow> consecutive prev (take n rs)"
  by (induction rs arbitrary: prev n) (auto simp: take_Cons')

lemma consecutive_drop: "consecutive prev rs \<Longrightarrow> consecutive None (drop n rs)"
  by (induction rs arbitrary: prev n) (auto simp: drop_Cons' follows_version_def)

lemma frame_offset_mono: "i \<le> j \<Longrightarrow> frame_offset rs i \<le> frame_offset rs j"
proof -
  assume "i \<le> j"
  then obtain d where "j = i + d" using le_Suc_ex by blast
  then show ?thesis by (simp add: frame_offset_def take_add)
qed

lemma frame_offset_Suc: "i < length rs \<Longrightarrow> frame_offset rs (Suc i) = frame_offset rs i + frame_size (rs ! i)"
  by (simp add: frame_offset_def take_Suc_conv_app_nth)

lemma concat_slice:
  assumes "length (concat (take a bs)) = x" "length (concat (take b bs)) = y" "a \<le> b"
  shows "take (y - x) (drop x (concat bs)) = concat (take (b - a) (drop a bs))"
proof -
  have "concat bs = concat (take a bs) @ concat (take (b - a) (drop a bs)) @ concat (drop b bs)"
  proof -
    have "bs = take a bs @ take (b - a) (drop a bs) @ drop b bs"
      using assms(3) by (metis append_take_drop_id drop_drop le_add_diff_inverse2)
    then show ?thesis by (metis concat_append)
  qed
  moreover have "length (concat (take (b - a) (drop a bs))) = y - x"
  proof -
    have "take b bs = take a bs @ take (b - a) (drop a bs)"
      using assms(3) by (metis le_add_diff_inverse take_add)
    then have "concat (take b bs) = concat (take a bs) @ concat (take (b - a) (drop a bs))" by simp
    with assms(1,2) show ?thesis by simp
  qed
  ultimately show ?thesis using assms(1) by simp
qed

section \<open>Correctness of the log format\<close>

text \<open>C18. A log cut at any byte loses only the frame it was cut in: decoding the first \<open>n\<close>
  bytes of a log of consecutive records returns exactly the records whose frames end within
  them. An interrupted append is never read as a record, and no complete record before it is
  lost.\<close>

theorem torn_log_keeps_complete_records:
  assumes "crypto_ok C" and "encoded C rs bs" and "consecutive None rs"
  shows "\<exists>k \<le> length rs. frames_decode C (take n (concat bs)) = Inr (take k rs) \<and>
    length (concat (take k bs)) \<le> n \<and> (k < length rs \<longrightarrow> n < length (concat (take (Suc k) bs)))"
  unfolding frames_decode_def by (rule frames_from_log [OF assms])

text \<open>C37. The index of a batch finds every record of it: the binary search returns a range that
  decodes to consecutive records ending with the one asked for, none of them before \<open>first\<close>,
  and more than that one only within the size limit.\<close>

theorem index_range_reads_records:
  assumes "crypto_ok C" and "encoded C rs bs" and "consecutive None rs" and "length (concat bs) < 2 ^ 64"
    and "index_entries 0 rs = (es, off)" and "i < length rs"
  shows "\<exists>j start len. j \<le> i \<and>
    index_range \<lparr>ix_batch = batch, ix_records = es\<rparr> first (rec_version (rs ! i)) limit = Inr (start, len) \<and>
    unat start + unat len \<le> length (concat bs) \<and>
    frames_decode C (take (unat len) (drop (unat start) (concat bs))) = Inr (take (Suc i - j) (drop j rs)) \<and>
    (\<forall>k. j \<le> k \<and> k < i \<longrightarrow> first \<le> rec_version (rs ! k)) \<and> (j < i \<longrightarrow> len \<le> limit)"
proof -
  note E = index_entries_nth [OF assms(5)]
  have lb: "length bs = length rs" using assms(2) by (simp add: encoded_def list_all2_lengthD)
  note off = encoded_offset [OF assms(1,2)]
  have total: "frame_offset rs k < 2 ^ 64" if "k \<le> length rs" for k
    using frame_offset_mono [OF that, of rs] off [of "length rs"] assms(4) lb by simp
  have st: "unat (en_start (es ! k)) = frame_offset rs k" if "k < length rs" for k
    using E that total [of k] by (simp add: unat_of_nat)
  have sorted: "en_version (es ! a) < en_version (es ! b)" if "a < b" "b < length es" for a b
    using that E consecutive_version [OF assms(3)] by (simp add: word_less_nat_alt)
  have v: "en_version (es ! i) = rec_version (rs ! i)" using E assms(6) by simp
  have found: "binary_search en_version (rec_version (rs ! i)) es 0 (length es) = Some i"
    using binary_search_finds [of es en_version i 0 "length es"] sorted v E assms(6) by simp
  let ?stop = "en_start (es ! i) + en_length (es ! i)"
  have "?stop = of_nat (frame_offset rs (Suc i))"
    using E assms(6) by (simp add: frame_offset_Suc)
  then have fin: "unat ?stop = frame_offset rs (Suc i)" using total [of "Suc i"] assms(6) by (simp add: unat_of_nat)
  obtain j where j: "j \<le> i" and rb: "range_back first limit ?stop (en_start (es ! i)) (rev (take i es)) =
      (if j < i then en_start (es ! j) else en_start (es ! i))"
    and bk: "\<forall>k. j \<le> k \<and> k < i \<longrightarrow> first \<le> en_version (es ! k) \<and> ?stop - en_start (es ! k) \<le> limit"
    using range_back_stops [of i es first limit ?stop "en_start (es ! i)"] E assms(6) by auto
  have rb': "range_back first limit ?stop (en_start (es ! i)) (rev (take i es)) = en_start (es ! j)"
    using rb j by (auto simp: not_less)
  let ?start = "en_start (es ! j)" and ?len = "?stop - en_start (es ! j)"
  have s: "unat ?start = frame_offset rs j" using st j assms(6) by simp
  have le: "frame_offset rs j \<le> frame_offset rs (Suc i)" using j frame_offset_mono by simp
  then have l: "unat ?len = frame_offset rs (Suc i) - frame_offset rs j"
    using fin s by (simp add: unat_sub word_le_nat_alt)
  have slice: "take (unat ?len) (drop (unat ?start) (concat bs)) = concat (take (Suc i - j) (drop j bs))"
    unfolding l s using off [of j] off [of "Suc i"] j assms(6) by (intro concat_slice) simp_all
  have 1: "frames_decode C (take (unat ?len) (drop (unat ?start) (concat bs))) = Inr (take (Suc i - j) (drop j rs))"
    unfolding slice frames_decode_def
    by (rule frames_decode_log [OF assms(1) encoded_slice [OF assms(2)] consecutive_take [OF consecutive_drop [OF assms(3)]]])
  have 2: "index_range \<lparr>ix_batch = batch, ix_records = es\<rparr> first (rec_version (rs ! i)) limit = Inr (?start, ?len)"
    by (simp add: index_range_def found rb' Let_def)
  have 3: "unat ?start + unat ?len \<le> length (concat bs)"
    using l s le frame_offset_mono [of "Suc i" "length rs" rs] off [of "length rs"] lb assms(6) by simp
  have 4: "\<forall>k. j \<le> k \<and> k < i \<longrightarrow> first \<le> rec_version (rs ! k)" "j < i \<longrightarrow> ?len \<le> limit"
    using bk E assms(6) j by auto
  show ?thesis by (rule exI [of _ j], rule exI [of _ ?start], rule exI [of _ ?len]) (intro conjI j 1 2 3 4)
qed

section \<open>Concrete records\<close>

lemma record_encode_ok:
  assumes "crypto_ok C" "rec_version r > 0" "length (rec_state r) \<le> 2 ^ 30"
  shows "\<exists>b. record_encode C r = Inr b"
proof -
  let ?h = "frame_prefix r @ frame_checksum C (frame_prefix r) (rec_state r)"
  have h: "length ?h = 48" using assms(1) by (simp add: length_frame_prefix frame_checksum_def crypto_ok_def)
  have "\<forall>c \<in> set [?h, rec_state r]. length c < 2 ^ 63" using h assms(3) by simp
  from payload_copy_result [OF this] assms h show ?thesis
    by (simp add: record_encode_def fits_def MAX_FILE_BYTES_def)
qed

definition sample_records :: "Record list" where
  "sample_records = [\<lparr>rec_version = 1, rec_state = [7]\<rparr>, \<lparr>rec_version = 2, rec_state = [8, 9]\<rparr>]"

lemma sample_log: "\<exists>bs. encoded hex_crypto sample_records bs \<and> length (concat bs) = 99"
proof -
  obtain a b where e: "record_encode hex_crypto \<lparr>rec_version = 1, rec_state = [7]\<rparr> = Inr a"
    "record_encode hex_crypto \<lparr>rec_version = 2, rec_state = [8, 9]\<rparr> = Inr b"
    using record_encode_ok [OF crypto_ok_hex, of "\<lparr>rec_version = 1, rec_state = [7]\<rparr>"]
      record_encode_ok [OF crypto_ok_hex, of "\<lparr>rec_version = 2, rec_state = [8, 9]\<rparr>"] by auto
  have "length a = 49" "length b = 50"
    using record_encode_Inr(2) [OF crypto_ok_hex e(1)] record_encode_Inr(2) [OF crypto_ok_hex e(2)]
    by (simp_all add: HEADER_def)
  with e show ?thesis by (intro exI [of _ "[a, b]"]) (simp add: sample_records_def)
qed

lemma sample_consecutive: "consecutive None sample_records"
  by (simp add: sample_records_def follows_version_def checked_add_def)

theorem torn_log_keeps_complete_records_witness:
  "\<exists>bs. encoded hex_crypto sample_records bs \<and> (\<exists>k \<le> 2. frames_decode hex_crypto (take 60 (concat bs)) = Inr (take k sample_records))"
proof -
  obtain bs where bs: "encoded hex_crypto sample_records bs" using sample_log by blast
  have "length sample_records = 2" by (simp add: sample_records_def)
  from torn_log_keeps_complete_records [OF crypto_ok_hex bs sample_consecutive, of 60, unfolded this] bs show ?thesis
    by blast
qed

theorem index_range_reads_records_witness:
  "\<exists>bs es off start len j. encoded hex_crypto sample_records bs \<and> index_entries 0 sample_records = (es, off) \<and>
     index_range \<lparr>ix_batch = ''b'', ix_records = es\<rparr> 1 2 1000 = Inr (start, len) \<and>
     frames_decode hex_crypto (take (unat len) (drop (unat start) (concat bs))) = Inr (take (2 - j) (drop j sample_records))"
proof -
  obtain bs where bs: "encoded hex_crypto sample_records bs" "length (concat bs) = 99" using sample_log by blast
  obtain es off where es: "index_entries 0 sample_records = (es, off)" by (cases "index_entries 0 sample_records")
  have l: "length (concat bs) < 2 ^ 64" "1 < length sample_records" using bs(2) by (simp_all add: sample_records_def)
  have v: "rec_version (sample_records ! 1) = 2" "Suc 1 = 2" by (simp_all add: sample_records_def)
  from index_range_reads_records [OF crypto_ok_hex bs(1) sample_consecutive l(1) es l(2), of "''b''" 1 1000, unfolded v]
  show ?thesis using bs(1) es by blast
qed

end
