(* ===== verification/Rapid_Storage.thy ===== *)
theory Rapid_Storage
  imports Rapid_Frames Runtime_Storage
begin

text \<open>
  The Rapid log (\<open>bucket/rapid.rs\<close>, \<open>bucket/rapid/reader.rs\<close>,
  \<open>bucket/rapid/archive.rs\<close>, \<open>bucket/rapid/index.rs\<close>). A session appends the records
  of an actor to a segment, which is a log object in one or two zones; a manifest in the archive
  bucket names the replicas. Batches of complete frames are copied to the archive, and the
  replicas may be deleted once a marker says that the archive covers the segment. A reader
  merges the archive with whatever replica it can read.

  A zone is the record of the operations of the trait \<open>LogZone\<close>; they act on the same
  state as the bucket and may fail in any state. An operation that exceeds its time limit is
  one that fails. Operations that run concurrently on different zones are run one after the
  other. Telemetry is left out.
\<close>

section \<open>Manifests\<close>

record Replica =
  rl_bucket :: string
  rl_object :: string
  rl_generation :: int

record Manifest =
  mf_format :: u32
  mf_id :: string
  mf_stream :: StateStream
  mf_first_version :: u64
  mf_replicas :: "Replica list"

record ClosedSegment =
  cs_last_version :: u64
  cs_end_offset :: u64

record 's log_zone =
  zn_bucket :: string
  zn_open :: "string \<Rightarrow> ('s, Replica) op"
  zn_append :: "Replica \<Rightarrow> bytes \<Rightarrow> ('s, u64) op"
  zn_read :: "Replica \<Rightarrow> bool \<Rightarrow> ('s, bytes) op"
  zn_read_range :: "Replica \<Rightarrow> u64 \<Rightarrow> u64 \<Rightarrow> ('s, bytes) op"
  zn_delete :: "Replica \<Rightarrow> ('s, unit) op"

record ('s, 'v) log_storage =
  lg_crypto :: crypto
  lg_json :: "'v snapshot_json"
  lg_archive :: "'s bucket"
  lg_snapshots :: "'s snapshot_store"
  lg_zones :: "'s log_zone list"
  lg_placement :: RapidPlacement
  lg_batch_bytes :: u64
  lg_batch_interval :: nat
  lg_compact :: "LtxFile list \<Rightarrow> LtxFile result"
  lg_checkpoint_json :: checkpoint_json
  lg_manifest_encode :: "Manifest \<Rightarrow> bytes result"
  lg_manifest_decode :: "bytes \<Rightarrow> Manifest result"
  lg_closed_encode :: "ClosedSegment \<Rightarrow> bytes result"
  lg_closed_decode :: "bytes \<Rightarrow> ClosedSegment result"
  lg_index_encode :: "Index \<Rightarrow> bytes result"
  lg_index_decode :: "bytes \<Rightarrow> Index result"
  lg_parse_uuid :: "string \<Rightarrow> unit result"

definition object_name :: "crypto \<Rightarrow> string \<Rightarrow> string result" where
  "object_name C logical =
     rbind (context_opt ''invalid snapshot root'' (strip_prefix (ROOT @ ''snapshots/'') logical)) (\<lambda>relative.
     let parts = splitn 5 (CHR ''/'') relative in
     ensure (length parts = 5 \<and> list_all (\<lambda>p. p \<noteq> []) (take 4 parts)) ''invalid snapshot actor prefix'' (
     let actor = join_with (CHR ''/'') (take 4 parts) in
     Inr (''durable-actors-v3-snapshots-'' @ b64url_encode C (sha256 C (str_bytes actor)) @ ''~'' @
          str_replace ''/'' ''~'' (parts ! 4))))"

definition manifest_key :: "crypto \<Rightarrow> Manifest \<Rightarrow> string result" where
  "manifest_key C M =
     rbind (object_name C (ss_prefix (mf_stream M))) (\<lambda>name. Inr (name @ ''log~'' @ mf_id M @ ''.manifest''))"

definition manifest_marker :: "crypto \<Rightarrow> Manifest \<Rightarrow> string \<Rightarrow> string result" where
  "manifest_marker C M kind =
     rbind (manifest_key C M) (\<lambda>key. Inr (str_replace ''.manifest'' (''.'' @ kind) key))"

definition manifest_object :: "crypto \<Rightarrow> Manifest \<Rightarrow> string result" where
  "manifest_object C M =
     rbind (actor_from_snapshot C (stream_object (mf_stream M) (mf_first_version M))) (\<lambda>actor.
     rbind (snapshots C actor) (\<lambda>pre.
     rbind (object_name C pre) (\<lambda>name.
     Inr (replace_first ''snapshots-'' ''logs-'' name @ mf_id M @ ''.segment''))))"

fun validate_replicas :: "crypto \<Rightarrow> Manifest \<Rightarrow> string list \<Rightarrow> string list \<Rightarrow> Replica list \<Rightarrow> unit result" where
  "validate_replicas C M zones seen [] = Inr ()"
| "validate_replicas C M zones seen (r # rs) =
     (if rl_bucket r \<in> set seen \<or> rl_bucket r \<notin> set zones then Inl ''invalid log replica descriptor''
      else rbind (manifest_object C M) (\<lambda>obj.
        ensure (rl_object r = obj \<and> rl_generation r > 0) ''invalid log replica descriptor'' (
        validate_replicas C M zones (rl_bucket r # seen) rs)))"

definition manifest_validate :: "('s, 'v) log_storage \<Rightarrow> Manifest \<Rightarrow> string \<Rightarrow> string \<Rightarrow> unit result" where
  "manifest_validate L M key pre =
     (let C = lg_crypto L in
     ensure (mf_format M = 1 \<and> mf_first_version M > ss_base_version (mf_stream M)) ''invalid log manifest'' (
     rbind (lg_parse_uuid L (mf_id M)) (\<lambda>_.
     rbind (manifest_key C M) (\<lambda>k.
     ensure (k = key \<and> starts_with pre (ss_prefix (mf_stream M))) ''manifest escaped its stream'' (
     let obj = stream_object (mf_stream M) (mf_first_version M) in
     rbind (actor_from_snapshot C obj) (\<lambda>actor.
     rbind (validate_snapshot_object_name C actor (mf_first_version M) obj) (\<lambda>_.
     ensure (case rsplit_on (CHR ''/'') obj of _ # e # _ \<Rightarrow> e = show_u64_032x (ss_owner_epoch (mf_stream M)) | _ \<Rightarrow> False)
       ''manifest epoch mismatch'' (
     ensure (mf_replicas M \<noteq> []) ''missing log replicas'' (
     validate_replicas C M (map zn_bucket (lg_zones L)) [] (mf_replicas M))))))))))"

definition zone_of :: "('s, 'v) log_storage \<Rightarrow> Replica \<Rightarrow> 's log_zone result" where
  "zone_of L r = context_opt ''log replica names an unconfigured zone''
     (find (\<lambda>z. zn_bucket z = rl_bucket r) (lg_zones L))"

fun replica_zones :: "('s, 'v) log_storage \<Rightarrow> Replica list \<Rightarrow> 's log_zone list result" where
  "replica_zones L [] = Inr []"
| "replica_zones L (r # rs) =
     rbind (zone_of L r) (\<lambda>z. rbind (replica_zones L rs) (\<lambda>zs. Inr (z # zs)))"

definition closed_validate :: "ClosedSegment \<Rightarrow> Manifest \<Rightarrow> u64 \<Rightarrow> Record list \<Rightarrow> unit result" where
  "closed_validate c M end records =
     ensure (cs_end_offset c = end \<and> mf_first_version M - 1 \<le> cs_last_version c \<and>
             (records = [] \<or> rec_version (last records) = cs_last_version c))
       ''incomplete replicated segment'' (Inr ())"

section \<open>The archive\<close>

definition archive_get :: "('s, 'v) log_storage \<Rightarrow> string \<Rightarrow> ('s, BucketObject option) op" where
  "archive_get L key s = (bk_get (lg_archive L) key s, s)"

definition archive_list :: "('s, 'v) log_storage \<Rightarrow> string \<Rightarrow> ('s, string list) op" where
  "archive_list L pre s = (bk_list (lg_archive L) pre s, s)"

definition batch_prefix :: "crypto \<Rightarrow> Manifest \<Rightarrow> string result" where
  "batch_prefix C M = rbind (manifest_key C M) (\<lambda>key. Inr (trim_end_matches ''.manifest'' key @ ''~''))"

definition batch_range :: "string \<Rightarrow> string \<Rightarrow> (u64 \<times> u64) result" where
  "batch_range pre key =
     rbind (context_opt ''invalid archive batch key''
       (Option.bind (strip_prefix pre key) (strip_suffix ''.batch''))) (\<lambda>range.
     rbind (context_opt ''invalid archive batch range'' (split_once (CHR ''~'') range)) (\<lambda>(start, end).
     rbind (context_opt ''invalid digit found in string'' (parse_u64 start)) (\<lambda>start.
     rbind (context_opt ''invalid digit found in string'' (parse_u64 end)) (\<lambda>end.
     ensure (start < end) ''invalid archive batch boundary'' (Inr (start, end))))))"

text \<open>The records of one batch, entered under the offsets they start at.\<close>

fun archive_records :: "('s, 'v) log_storage \<Rightarrow> Manifest \<Rightarrow> Record list \<Rightarrow> u64 \<Rightarrow> (u64, Record) btree \<Rightarrow>
    (u64 \<times> (u64, Record) btree) result" where
  "archive_records L M [] offset m = Inr (offset, m)"
| "archive_records L M (r # rs) offset m =
     rbind (stream_snapshot (lg_crypto L) (lg_json L) (mf_stream M) (rec_state r)) (\<lambda>ref.
     ensure (sr_object ref = stream_object (mf_stream M) (rec_version r) \<and> mf_first_version M \<le> rec_version r)
       ''archive record identity mismatch'' (
     ensure (case map_of m offset of None \<Rightarrow> True | Some prior \<Rightarrow> prior = r) ''conflicting archive overlap'' (
     archive_records L M rs (offset + of_nat (frame_size r)) (bt_insert offset r m))))"

fun archive_batches :: "('s, 'v) log_storage \<Rightarrow> Manifest \<Rightarrow> string \<Rightarrow> string list \<Rightarrow> (u64, Record) btree \<Rightarrow>
    ('s, (u64, Record) btree) op" where
  "archive_batches L M pre [] m = ret_op m"
| "archive_batches L M pre (key # keys) m =
     bind_op (lift_op (batch_range pre key)) (\<lambda>(offset, end).
     bind_op (archive_get L key) (\<lambda>found.
     bind_op (lift_op (context_opt ''archive batch missing'' found)) (\<lambda>obj.
     ensure_op (of_nat (length (obj_bytes obj)) = end - offset) ''archive batch length mismatch'' (
     bind_op (lift_op (frames_decode (lg_crypto L) (obj_bytes obj))) (\<lambda>rs.
     bind_op (lift_op (archive_records L M rs offset m)) (\<lambda>(offset, m).
     ensure_op (offset = end) ''incomplete archive batch'' (
     archive_batches L M pre keys m)))))))"

fun archive_walk :: "u64 \<Rightarrow> u64 option \<Rightarrow> (u64, Record) btree \<Rightarrow> (u64 \<times> Record list) result" where
  "archive_walk through prev [] = Inr (through, [])"
| "archive_walk through prev ((offset, r) # m) =
     ensure (offset = through) ''gap in archived segment'' (
     ensure (follows_version prev (rec_version r)) ''nonconsecutive archived versions'' (
     rbind (archive_walk (through + of_nat (frame_size r)) (Some (rec_version r)) m) (\<lambda>(end, rs).
     Inr (end, r # rs))))"

definition archived :: "('s, 'v) log_storage \<Rightarrow> Manifest \<Rightarrow> ('s, u64 \<times> Record list) op" where
  "archived L M =
     bind_op (lift_op (batch_prefix (lg_crypto L) M)) (\<lambda>pre.
     bind_op (archive_list L pre) (\<lambda>keys.
     bind_op (archive_batches L M pre keys []) (\<lambda>offsets.
     lift_op (archive_walk 0 None offsets))))"

section \<open>Reading segments\<close>

text \<open>\<open>read_replicas\<close>: the copies that could be read, then the longest of them when they
  agree.\<close>

fun read_copies :: "('s, 'v) log_storage \<Rightarrow> bool \<Rightarrow> Replica list \<Rightarrow> 's \<Rightarrow> bytes list \<times> 's" where
  "read_copies L fence [] s = ([], s)"
| "read_copies L fence (r # rs) s =
     (case bind_op (lift_op (zone_of L r)) (\<lambda>z. zn_read z r fence) s of
        (Inl e, s') \<Rightarrow> read_copies L fence rs s'
      | (Inr b, s') \<Rightarrow> (case read_copies L fence rs s' of (bs, s'') \<Rightarrow> (b # bs, s'')))"

fun decode_copies :: "crypto \<Rightarrow> bytes list \<Rightarrow> Record list list result" where
  "decode_copies C [] = Inr []"
| "decode_copies C (b # bs) = rbind (frames_decode C b) (\<lambda>rs. rbind (decode_copies C bs) (\<lambda>rss. Inr (rs # rss)))"

fun select_copy :: "Record list \<Rightarrow> Record list list \<Rightarrow> Record list result" where
  "select_copy selected [] = Inr selected"
| "select_copy selected (records # copies) =
     ensure (list_all (\<lambda>(left, right). left = right) (zip selected records)) ''divergent log replicas'' (
     select_copy (if length selected < length records then records else selected) copies)"

definition read_replicas :: "('s, 'v) log_storage \<Rightarrow> Manifest \<Rightarrow> bool \<Rightarrow> ('s, Record list) op" where
  "read_replicas L M fence s =
     (case read_copies L fence (mf_replicas M) s of (bs, s') \<Rightarrow>
       (rbind (decode_copies (lg_crypto L) bs) (\<lambda>copies.
        ensure (copies \<noteq> []) ''acknowledged log is unavailable in all configured zones'' (
        select_copy [] copies)), s'))"

fun merge_records :: "Record list \<Rightarrow> (u64, Record) btree \<Rightarrow> (u64, Record) btree result" where
  "merge_records [] m = Inr m"
| "merge_records (r # rs) m =
     ensure (case map_of m (rec_version r) of None \<Rightarrow> True | Some prior \<Rightarrow> prior = r) ''conflicting archived record'' (
     merge_records rs (bt_insert (rec_version r) r m))"

definition replicated_records :: "('s, 'v) log_storage \<Rightarrow> Manifest \<Rightarrow> BucketObject \<Rightarrow> u64 \<times> Record list \<Rightarrow> Record list result" where
  "replicated_records L M marker = (\<lambda>(end, records).
     rbind (lg_closed_decode L (obj_bytes marker)) (\<lambda>closed.
     rbind (closed_validate closed M end records) (\<lambda>_. Inr records)))"

text \<open>When no replica can be read, the archive is consulted again: a cleanup may have finished
  in between.\<close>

definition read_segment :: "('s, 'v) log_storage \<Rightarrow> Manifest \<Rightarrow> bool \<Rightarrow> ('s, Record list) op" where
  "read_segment L M fence =
     bind_op (lift_op (manifest_marker (lg_crypto L) M ''replicated'')) (\<lambda>mark.
     bind_op (archive_get L mark) (\<lambda>marker.
     bind_op (archived L M) (\<lambda>(end, stored).
     case marker of
       Some marker \<Rightarrow> lift_op (replicated_records L M marker (end, stored))
     | None \<Rightarrow>
         bind_op (try_op (read_replicas L M fence)) (\<lambda>rapid.
         case rapid of
           Inl e \<Rightarrow>
             bind_op (archive_get L mark) (\<lambda>marker.
             case marker of
               Some marker \<Rightarrow>
                 bind_op (lift_op (lg_closed_decode L (obj_bytes marker))) (\<lambda>closed.
                 bind_op (archived L M) (\<lambda>(end, records).
                 bind_op (lift_op (closed_validate closed M end records)) (\<lambda>_. ret_op records)))
             | None \<Rightarrow> lift_op (Inl e))
         | Inr rapid \<Rightarrow>
             lift_op (rbind (merge_records (stored @ rapid) []) (\<lambda>m. Inr (map snd m)))))))"

definition read_manifest :: "('s, 'v) log_storage \<Rightarrow> string \<Rightarrow> string \<Rightarrow> bool \<Rightarrow> ('s, Manifest \<times> Record list) op" where
  "read_manifest L key pre fence =
     bind_op (archive_get L key) (\<lambda>found.
     bind_op (lift_op (context_opt ''log manifest disappeared'' found)) (\<lambda>obj.
     bind_op (lift_op (lg_manifest_decode L (obj_bytes obj))) (\<lambda>M.
     bind_op (lift_op (manifest_validate L M key pre)) (\<lambda>_.
     bind_op (read_segment L M fence) (\<lambda>rs. ret_op (M, rs))))))"

definition insert_state :: "string \<Rightarrow> bytes \<Rightarrow> (string, bytes) btree \<Rightarrow> (string, bytes) btree result" where
  "insert_state key b m =
     ensure (case map_of m key of None \<Rightarrow> True | Some prior \<Rightarrow> prior = b) ''conflicting state records'' (
     Inr (bt_insert key b m))"

fun insert_segment :: "('s, 'v) log_storage \<Rightarrow> Manifest \<Rightarrow> Record list \<Rightarrow> (string, bytes) btree \<Rightarrow> (string, bytes) btree result" where
  "insert_segment L M [] m = Inr m"
| "insert_segment L M (r # rs) m =
     rbind (stream_snapshot (lg_crypto L) (lg_json L) (mf_stream M) (rec_state r)) (\<lambda>ref.
     ensure (sr_object ref = stream_object (mf_stream M) (rec_version r) \<and> mf_first_version M \<le> rec_version r)
       ''log record identity mismatch'' (
     rbind (insert_state (stream_object (mf_stream M) (rec_version r)) (rec_state r) m) (insert_segment L M rs)))"

fun insert_segments :: "('s, 'v) log_storage \<Rightarrow> string \<Rightarrow> bool \<Rightarrow> string list \<Rightarrow> (string, bytes) btree \<Rightarrow>
    ('s, (string, bytes) btree) op" where
  "insert_segments L pre fence [] m = ret_op m"
| "insert_segments L pre fence (key # keys) m =
     bind_op (read_manifest L key pre fence) (\<lambda>(M, rs).
     bind_op (lift_op (insert_segment L M rs m)) (insert_segments L pre fence keys))"

definition log_records :: "('s, 'v) log_storage \<Rightarrow> string \<Rightarrow> bool \<Rightarrow> ('s, (string, bytes) btree) op" where
  "log_records L pre fence =
     bind_op (lift_op (object_name (lg_crypto L) pre)) (\<lambda>physical.
     bind_op (archive_list L physical) (\<lambda>keys.
     insert_segments L pre fence (filter (ends_with ''.manifest'') keys) []))"

definition log_latest :: "('s, 'v) log_storage \<Rightarrow> string \<Rightarrow> bool \<Rightarrow> ('s, (string \<times> bytes) option) op" where
  "log_latest L pre fence =
     bind_op (\<lambda>s. (st_latest (lg_snapshots L) pre s, s)) (\<lambda>checkpoint.
     bind_op (log_records L pre fence) (\<lambda>records.
     bind_op (lift_op (case checkpoint of None \<Rightarrow> Inr records | Some (key, b) \<Rightarrow> insert_state key b records)) (\<lambda>records.
     ret_op (max_by_key (\<lambda>(key, _). version key) records))))"

section \<open>Writing the archive\<close>

definition archive_create :: "('s, 'v) log_storage \<Rightarrow> string \<Rightarrow> bytes \<Rightarrow> string \<Rightarrow> ('s, unit) op" where
  "archive_create L key b msg =
     bind_op (replace (lg_archive L) key None b) (\<lambda>ok. ensure_op ok msg (ret_op ()))"

definition index_batch :: "('s, 'v) log_storage \<Rightarrow> Manifest \<Rightarrow> string \<Rightarrow> bytes \<Rightarrow> ('s, unit) op" where
  "index_batch L M batch b =
     bind_op (lift_op (frames_decode (lg_crypto L) b)) (\<lambda>rs.
     let (entries, start) = index_entries 0 rs in
     ensure_op (start = of_nat (length b)) ''incomplete indexed batch'' (
     bind_op (lift_op (case entries of [] \<Rightarrow> Inl ''empty indexed batch'' | e # _ \<Rightarrow> Inr (en_version e))) (\<lambda>first.
     bind_op (lift_op (object_name (lg_crypto L) (ss_prefix (mf_stream M)))) (\<lambda>name.
     let key = name @ ''index~'' @ show_u64_020 first @ ''~'' @ show_u64_020 (en_version (last entries)) @ ''~'' @ mf_id M @ ''.idx'' in
     bind_op (lift_op (lg_index_encode L \<lparr>ix_batch = batch, ix_records = entries\<rparr>)) (\<lambda>bytes.
     archive_create L key bytes ''conflicting archive index'')))))"

definition batch_key :: "crypto \<Rightarrow> Manifest \<Rightarrow> u64 \<Rightarrow> u64 \<Rightarrow> string result" where
  "batch_key C M start end = rbind (batch_prefix C M) (\<lambda>pre. Inr (pre @ show_u64_020 start @ ''~'' @ show_u64_020 end @ ''.batch''))"

definition put_batch :: "('s, 'v) log_storage \<Rightarrow> Manifest \<Rightarrow> u64 \<Rightarrow> bytes \<Rightarrow> ('s, unit) op" where
  "put_batch L M start b =
     bind_op (lift_op (context_opt ''batch offset overflow'' (checked_add start (of_nat (length b))))) (\<lambda>end.
     bind_op (lift_op (batch_key (lg_crypto L) M start end)) (\<lambda>key.
     bind_op (archive_create L key b ''conflicting archive batch'') (\<lambda>_.
     index_batch L M key b)))"

fun read_range_from :: "('s, 'v) log_storage \<Rightarrow> Replica list \<Rightarrow> u64 \<Rightarrow> u64 \<Rightarrow> ('s, bytes) op" where
  "read_range_from L [] start len = lift_op (Inl ''all Rapid archive sources unavailable'')"
| "read_range_from L (r # rs) start len =
     bind_op (lift_op (zone_of L r)) (\<lambda>z.
     bind_op (try_op (zn_read_range z r start len)) (\<lambda>res.
     case res of Inr b \<Rightarrow> ret_op b | Inl _ \<Rightarrow> read_range_from L rs start len))"

definition log_read_range :: "('s, 'v) log_storage \<Rightarrow> Manifest \<Rightarrow> u64 \<Rightarrow> u64 \<Rightarrow> ('s, bytes) op" where
  "log_read_range L M start len = read_range_from L (mf_replicas M) start len"

definition read_batch :: "('s, 'v) log_storage \<Rightarrow> Manifest \<Rightarrow> u64 \<Rightarrow> u64 \<Rightarrow> ('s, bytes) op" where
  "read_batch L M start end =
     (let requested = min (end - start) (max (lg_batch_bytes L) (of_nat HEADER)) in
      bind_op (log_read_range L M start requested) (\<lambda>b.
      bind_op (lift_op (frame_length b)) (\<lambda>n.
      let len = of_nat n in
      if len \<le> requested then ret_op b
      else
        ensure_op (len \<le> end - start) ''incomplete committed record'' (
        bind_op (log_read_range L M (start + requested) (len - requested)) (\<lambda>tail.
        lift_op (payload_copy [b, tail]))))))"

text \<open>The length of the leading records that make up one batch.\<close>

fun batch_length :: "('s, 'v) log_storage \<Rightarrow> Manifest \<Rightarrow> nat \<Rightarrow> Record list \<Rightarrow> nat result" where
  "batch_length L M len [] = Inr len"
| "batch_length L M len (r # rs) =
     rbind (stream_snapshot (lg_crypto L) (lg_json L) (mf_stream M) (rec_state r)) (\<lambda>ref.
     ensure (sr_object ref = stream_object (mf_stream M) (rec_version r) \<and> mf_first_version M \<le> rec_version r)
       ''archive record identity mismatch'' (
     let len = len + frame_size r in
     if unat (lg_batch_bytes L) \<le> len then Inr len else batch_length L M len rs))"

text \<open>When the replicas cannot be read, another worker may have archived the range.\<close>

definition archive_source :: "('s, 'v) log_storage \<Rightarrow> Manifest \<Rightarrow> u64 \<Rightarrow> u64 \<Rightarrow> bytes option \<Rightarrow> ('s, u64 + bytes) op" where
  "archive_source L M start end cached =
     (case cached of
        Some b \<Rightarrow> ret_op (Inr b)
      | None \<Rightarrow>
          bind_op (try_op (read_batch L M start end)) (\<lambda>res.
          case res of
            Inr b \<Rightarrow> ret_op (Inr b)
          | Inl e \<Rightarrow>
              bind_op (archived L M) (\<lambda>(through, _).
              if start < through then ret_op (Inl (min through end)) else lift_op (Inl e))))"

definition upload :: "('s, 'v) log_storage \<Rightarrow> Manifest \<Rightarrow> u64 \<Rightarrow> u64 \<Rightarrow> bytes option \<Rightarrow> ('s, u64) op" where
  "upload L M start end cached =
     bind_op (archive_source L M start end cached) (\<lambda>src.
     case src of
       Inl through \<Rightarrow> ret_op through
     | Inr b \<Rightarrow>
         bind_op (lift_op (frames_decode (lg_crypto L) b)) (\<lambda>rs.
         bind_op (lift_op (batch_length L M 0 rs)) (\<lambda>len.
         ensure_op (0 < len) ''archive range has no complete record'' (
         bind_op (put_batch L M start (take len b)) (\<lambda>_.
         ret_op (start + of_nat len))))))"

definition close_segment :: "('s, 'v) log_storage \<Rightarrow> Manifest \<Rightarrow> ClosedSegment \<Rightarrow> ('s, unit) op" where
  "close_segment L M closed =
     bind_op (lift_op (manifest_marker (lg_crypto L) M ''closed'')) (\<lambda>key.
     bind_op (lift_op (lg_closed_encode L closed)) (\<lambda>b.
     archive_create L key b ''conflicting closed segment''))"

definition mark_replicated :: "('s, 'v) log_storage \<Rightarrow> Manifest \<Rightarrow> ClosedSegment \<Rightarrow> ('s, unit) op" where
  "mark_replicated L M closed =
     bind_op (lift_op (manifest_marker (lg_crypto L) M ''replicated'')) (\<lambda>key.
     bind_op (lift_op (lg_closed_encode L closed)) (\<lambda>b.
     archive_create L key b ''conflicting replication coverage''))"

text \<open>The loop that uploads the rest of a closed segment. That it ends is not evident from its
  shape; \<open>None\<close> is running for ever.\<close>

partial_function (option) upload_rest :: "('s, 'v) log_storage \<Rightarrow> Manifest \<Rightarrow> u64 \<Rightarrow> u64 \<Rightarrow> 's \<Rightarrow> (u64 result \<times> 's) option" where
  "upload_rest L M end through s =
     (if through < end then
        (case upload L M through end None s of
           (Inl e, s') \<Rightarrow> Some (Inl e, s')
         | (Inr t, s') \<Rightarrow> upload_rest L M end t s')
      else Some (Inr through, s))"

definition delete_replicas :: "('s, 'v) log_storage \<Rightarrow> Replica list \<Rightarrow> ('s, unit) op" where
  "delete_replicas L rs =
     foldr (\<lambda>r rest. bind_op (lift_op (zone_of L r)) (\<lambda>z. bind_op (zn_delete z r) (\<lambda>_. rest))) rs (ret_op ())"

definition cleanup_segment :: "('s, 'v) log_storage \<Rightarrow> Manifest \<Rightarrow> ('s, unit) op" where
  "cleanup_segment L M =
     bind_op (lift_op (manifest_marker (lg_crypto L) M ''replicated'')) (\<lambda>key.
     bind_op (archive_get L key) (\<lambda>found.
     ensure_op (found \<noteq> None) ''cannot delete unreplicated segment'' (
     bind_op (delete_replicas L (mf_replicas M)) (\<lambda>_.
     bind_op (lift_op (manifest_marker (lg_crypto L) M ''cleaned'')) (\<lambda>key.
     archive_create L key (str_bytes ''{}'') ''conflicting cleanup marker'')))))"

definition complete_segment :: "('s, 'v) log_storage \<Rightarrow> Manifest \<Rightarrow> ClosedSegment \<Rightarrow> 's \<Rightarrow> (unit result \<times> 's) option" where
  "complete_segment L M closed s =
     (case archived L M s of
        (Inl e, s) \<Rightarrow> Some (Inl e, s)
      | (Inr (through, _), s) \<Rightarrow>
          if cs_end_offset closed < through then Some (Inl ''archive exceeds closed segment'', s)
          else case upload_rest L M (cs_end_offset closed) through s of
            None \<Rightarrow> None
          | Some (Inl e, s) \<Rightarrow> Some (Inl e, s)
          | Some (Inr _, s) \<Rightarrow>
              Some (bind_op (archived L M) (\<lambda>(end, records).
                bind_op (lift_op (closed_validate closed M end records)) (\<lambda>_.
                mark_replicated L M closed)) s))"

definition sweep_manifest :: "('s, 'v) log_storage \<Rightarrow> string \<Rightarrow> ('s, (Manifest \<times> ClosedSegment \<times> bool) option) op" where
  "sweep_manifest L key =
     bind_op (archive_get L (str_replace ''.closed'' ''.cleaned'' key)) (\<lambda>cleaned.
     if cleaned \<noteq> None then ret_op None
     else
       let manifest_key = str_replace ''.closed'' ''.manifest'' key in
       bind_op (archive_get L manifest_key) (\<lambda>found.
       bind_op (lift_op (context_opt ''closed segment manifest missing'' found)) (\<lambda>obj.
       bind_op (lift_op (lg_manifest_decode L (obj_bytes obj))) (\<lambda>M.
       bind_op (lift_op (manifest_validate L M manifest_key (ss_prefix (mf_stream M)))) (\<lambda>_.
       bind_op (archive_get L key) (\<lambda>found.
       bind_op (lift_op (context_opt ''closed segment marker missing'' found)) (\<lambda>obj.
       bind_op (lift_op (lg_closed_decode L (obj_bytes obj))) (\<lambda>closed.
       bind_op (lift_op (manifest_marker (lg_crypto L) M ''replicated'')) (\<lambda>mark.
       bind_op (archive_get L mark) (\<lambda>marker.
       ret_op (Some (M, closed, marker \<noteq> None))))))))))))"

definition sweep_segment :: "('s, 'v) log_storage \<Rightarrow> string \<Rightarrow> 's \<Rightarrow> (unit result \<times> 's) option" where
  "sweep_segment L key s =
     (case sweep_manifest L key s of
        (Inl e, s) \<Rightarrow> Some (Inl e, s)
      | (Inr None, s) \<Rightarrow> Some (Inr (), s)
      | (Inr (Some (M, closed, replicated)), s) \<Rightarrow>
          (case if replicated then Some (Inr (), s) else complete_segment L M closed s of
             None \<Rightarrow> None
           | Some (Inl e, s) \<Rightarrow> Some (Inl e, s)
           | Some (Inr _, s) \<Rightarrow> Some (cleanup_segment L M s)))"

fun sweep_keys :: "('s, 'v) log_storage \<Rightarrow> string list \<Rightarrow> 's \<Rightarrow> 's option" where
  "sweep_keys L [] s = Some s"
| "sweep_keys L (key # keys) s =
     (case sweep_segment L key s of None \<Rightarrow> None | Some (_, s) \<Rightarrow> sweep_keys L keys s)"

text \<open>The errors of the segments are logged only.\<close>

definition sweep :: "('s, 'v) log_storage \<Rightarrow> string \<Rightarrow> 's \<Rightarrow> (unit result \<times> 's) option" where
  "sweep L pre s =
     (case bk_list (lg_archive L) pre s of
        Inl e \<Rightarrow> Some (Inl e, s)
      | Inr keys \<Rightarrow>
          let keys = sorted_list_of_set (set keys) in
          map_option (\<lambda>s. (Inr (), s))
            (sweep_keys L (filter (\<lambda>k. ends_with ''.closed'' k \<and> str_replace ''.closed'' ''.cleaned'' k \<notin> set keys) keys) s))"

section \<open>Recovering a segment\<close>

text \<open>The batches that the records beyond \<open>through\<close> make up: \<open>offset\<close> is the end of the
  current record, \<open>pieces\<close> the frames collected so far.\<close>

fun recovery_batches :: "('s, 'v) log_storage \<Rightarrow> Manifest \<Rightarrow> Record list \<Rightarrow> u64 \<Rightarrow> u64 \<Rightarrow> bytes list \<Rightarrow> ('s, unit) op" where
  "recovery_batches L M [] offset through pieces =
     (if length (concat pieces) > 0 then bind_op (lift_op (payload_copy pieces)) (put_batch L M through) else ret_op ())"
| "recovery_batches L M (r # rs) offset through pieces =
     bind_op (lift_op (record_encode (lg_crypto L) r)) (\<lambda>frame.
     let offset = offset + of_nat (length frame) in
     if offset \<le> through then recovery_batches L M rs offset through pieces
     else
       let pieces = pieces @ [frame]; len = length (concat pieces) in
       bind_op (lift_op (payload_copy pieces)) (\<lambda>b.
       if unat (lg_batch_bytes L) \<le> len then
         bind_op (put_batch L M through b) (\<lambda>_.
         recovery_batches L M rs offset (through + of_nat len) [])
       else recovery_batches L M rs offset through pieces))"

definition recover_segment :: "('s, 'v) log_storage \<Rightarrow> Manifest \<Rightarrow> ('s, unit) op" where
  "recover_segment L M =
     bind_op (read_segment L M True) (\<lambda>records.
     bind_op (lift_op (manifest_marker (lg_crypto L) M ''replicated'')) (\<lambda>mark.
     bind_op (archive_get L mark) (\<lambda>marker.
     if marker \<noteq> None then ret_op ()
     else
       bind_op (archived L M) (\<lambda>(through, _).
       let end_offset = sum_list (map (\<lambda>r. of_nat (frame_size r)) records);
           closed = \<lparr>cs_last_version = (if records = [] then mf_first_version M - 1 else rec_version (last records)),
                     cs_end_offset = end_offset\<rparr> in
       bind_op (lift_op (manifest_marker (lg_crypto L) M ''closed'')) (\<lambda>key.
       bind_op (archive_get L key) (\<lambda>found.
       bind_op (case found of
           None \<Rightarrow> ret_op closed
         | Some obj \<Rightarrow>
             bind_op (lift_op (lg_closed_decode L (obj_bytes obj))) (\<lambda>closed.
             bind_op (lift_op (closed_validate closed M end_offset records)) (\<lambda>_. ret_op closed))) (\<lambda>closed.
       bind_op (recovery_batches L M records 0 through []) (\<lambda>_.
       bind_op (archive_get L key) (\<lambda>found.
       bind_op (if found = None then close_segment L M closed else ret_op ()) (\<lambda>_.
       mark_replicated L M closed))))))))))"

fun recover_segments :: "('s, 'v) log_storage \<Rightarrow> string \<Rightarrow> string list \<Rightarrow> ('s, unit) op" where
  "recover_segments L pre [] = ret_op ()"
| "recover_segments L pre (key # keys) =
     (if \<not> ends_with ''.manifest'' key then recover_segments L pre keys
      else
        bind_op (archive_get L key) (\<lambda>found.
        bind_op (lift_op (context_opt ''manifest disappeared'' found)) (\<lambda>obj.
        bind_op (lift_op (lg_manifest_decode L (obj_bytes obj))) (\<lambda>M.
        bind_op (lift_op (manifest_validate L M key pre)) (\<lambda>_.
        bind_op (recover_segment L M) (\<lambda>_.
        recover_segments L pre keys))))))"

definition log_recover :: "('s, 'v) log_storage \<Rightarrow> string \<Rightarrow> ('s, (string \<times> bytes) option) op" where
  "log_recover L pre =
     bind_op (lift_op (object_name (lg_crypto L) pre)) (\<lambda>physical.
     bind_op (archive_list L physical) (\<lambda>keys.
     bind_op (recover_segments L pre keys) (\<lambda>_.
     bind_op (log_latest L pre False) (\<lambda>found.
     case found of
       None \<Rightarrow> ret_op None
     | Some (obj, b) \<Rightarrow> bind_op (st_put (lg_snapshots L) obj b) (\<lambda>_. ret_op (Some (obj, b)))))))"

section \<open>Reading by index\<close>

record LiveRecord =
  lr_manifest :: Manifest
  lr_start :: u64
  lr_length :: u64

text \<open>The newest 128 records of the session stay known by their place in the log.\<close>

definition live_remember :: "Manifest \<Rightarrow> u64 \<Rightarrow> u64 \<Rightarrow> nat \<Rightarrow> (u64, LiveRecord) btree \<Rightarrow> (u64, LiveRecord) btree" where
  "live_remember M offset v len m =
     (let m = bt_insert v \<lparr>lr_manifest = M, lr_start = offset - of_nat len, lr_length = of_nat len\<rparr> m
      in drop (length m - 128) m)"

fun live_extend :: "u64 \<Rightarrow> LiveRecord list \<Rightarrow> LiveRecord \<Rightarrow> LiveRecord" where
  "live_extend limit [] r = r"
| "live_extend limit (p # ps) r =
     (if mf_id (lr_manifest p) \<noteq> mf_id (lr_manifest r) \<or> lr_start p + lr_length p \<noteq> lr_start r \<or>
         limit < lr_length r + lr_length p then r
      else live_extend limit ps (r\<lparr>lr_start := lr_start p, lr_length := lr_length r + lr_length p\<rparr>))"

definition live_range :: "('s, 'v) log_storage \<Rightarrow> (u64, LiveRecord) btree \<Rightarrow> string \<Rightarrow> u64 \<Rightarrow> LiveRecord option" where
  "live_range L m obj first =
     Option.bind (version obj) (\<lambda>v.
     Option.bind (map_of m v) (\<lambda>r.
     if stream_object (mf_stream (lr_manifest r)) v = obj
     then Some (live_extend (lg_batch_bytes L) (rev (map snd (bt_range first v m))) r) else None))"

definition live_records :: "('s, 'v) log_storage \<Rightarrow> (u64, LiveRecord) btree \<Rightarrow> string \<Rightarrow> u64 \<Rightarrow>
    ('s, (string \<rightharpoonup> bytes) option) op" where
  "live_records L m obj first =
     (case live_range L m obj first of
        None \<Rightarrow> ret_op None
      | Some r \<Rightarrow>
          bind_op (try_op (log_read_range L (lr_manifest r) (lr_start r) (lr_length r))) (\<lambda>res.
          case res of
            Inl _ \<Rightarrow> ret_op None
          | Inr b \<Rightarrow>
              bind_op (lift_op (context_opt ''invalid snapshot object'' (rsplit_once (CHR ''/'') obj))) (\<lambda>(pre, _).
              bind_op (lift_op (decode_records (lg_crypto L) (lg_json L) pre b)) (\<lambda>records.
              ensure_op (records obj \<noteq> None) ''live record missing'' (ret_op (Some records))))))"

definition index_keys :: "('s, 'v) log_storage \<Rightarrow> string \<Rightarrow> ('s, string list) op" where
  "index_keys L pre =
     bind_op (lift_op (object_name (lg_crypto L) pre)) (\<lambda>name.
     bind_op (try_op (archive_list L (name @ ''index~''))) (\<lambda>res.
     ret_op (case res of Inr keys \<Rightarrow> keys | Inl _ \<Rightarrow> [])))"

fun read_index_keys :: "('s, 'v) log_storage \<Rightarrow> string \<Rightarrow> string \<Rightarrow> string \<Rightarrow> u64 \<Rightarrow> u64 \<Rightarrow> string list \<Rightarrow>
    ('s, (string \<rightharpoonup> bytes) option) op" where
  "read_index_keys L obj pre physical first v [] = ret_op None"
| "read_index_keys L obj pre physical first v (key # keys) =
     bind_op (lift_op (index_segment key physical v)) (\<lambda>segment.
     case segment of
       None \<Rightarrow> read_index_keys L obj pre physical first v keys
     | Some segment \<Rightarrow>
         bind_op (archive_get L key) (\<lambda>found.
         bind_op (lift_op (context_opt ''archive index missing'' found)) (\<lambda>stored.
         bind_op (lift_op (lg_index_decode L (obj_bytes stored))) (\<lambda>index.
         bind_op (lift_op (index_validate index (physical @ ''log~'' @ segment @ ''~''))) (\<lambda>_.
         bind_op (lift_op (index_range index first v (lg_batch_bytes L))) (\<lambda>(start, len).
         bind_op (\<lambda>s. (bk_range (lg_archive L) (ix_batch index) start len s, s)) (\<lambda>found.
         bind_op (lift_op (context_opt ''indexed archive batch missing'' found)) (\<lambda>batch.
         bind_op (lift_op (decode_records (lg_crypto L) (lg_json L) pre (obj_bytes batch))) (\<lambda>records.
         ensure_op (records obj \<noteq> None) ''indexed record missing'' (ret_op (Some records)))))))))))"

definition read_indexed :: "('s, 'v) log_storage \<Rightarrow> string \<Rightarrow> u64 \<Rightarrow> string list \<Rightarrow> ('s, (string \<rightharpoonup> bytes) option) op" where
  "read_indexed L obj first keys =
     bind_op (lift_op (context_opt ''invalid snapshot version'' (version obj))) (\<lambda>v.
     bind_op (lift_op (context_opt ''invalid snapshot object'' (rsplit_once (CHR ''/'') obj))) (\<lambda>(pre, _).
     bind_op (lift_op (object_name (lg_crypto L) (pre @ ''/''))) (\<lambda>physical.
     read_index_keys L obj pre physical first v keys)))"

definition indexed_records :: "('s, 'v) log_storage \<Rightarrow> string \<Rightarrow> u64 \<Rightarrow> string list \<Rightarrow> ('s, (string \<rightharpoonup> bytes) option) op" where
  "indexed_records L obj first keys =
     bind_op (try_op (read_indexed L obj first keys)) (\<lambda>res.
     ret_op (case res of Inr records \<Rightarrow> records | Inl _ \<Rightarrow> None))"

section \<open>Uploading a closed segment ends\<close>

text \<open>A byte slice is shorter than \<open>2 ^ 63\<close> bytes.\<close>

definition zones_bounded :: "('s, 'v) log_storage \<Rightarrow> bool" where
  "zones_bounded L \<longleftrightarrow> (\<forall>z \<in> set (lg_zones L). \<forall>r start len s b s'.
     zn_read_range z r start len s = (Inr b, s') \<longrightarrow> length b < 2 ^ 63)"

lemma frames_from_size: "frames_from C prev bs = Inr rs \<Longrightarrow> sum_list (map frame_size rs) \<le> length bs"
proof (induction C prev bs arbitrary: rs rule: frames_from.induct)
  case (1 C prev bs)
  show ?case
  proof (cases "length bs < HEADER")
    case True
    with "1.prems" show ?thesis by (subst (asm) frames_from.simps) simp
  next
    case False
    note F = "1.prems" [unfolded frames_from.simps [of C prev bs] Let_def if_not_P [OF False]]
    then obtain n where n: "frame_length (take HEADER bs) = Inr n" by (auto split: sum.splits)
    then have h: "HEADER \<le> n" by (auto simp: frame_length_def result_simps)
    show ?thesis
    proof (cases "length bs < n")
      case True
      with F n show ?thesis by simp
    next
      case nl: False
      let ?v = "u64_from_le_bytes (take 8 (drop 8 (take HEADER bs)))"
      from F n nl obtain rs' where rs: "frames_from C (Some ?v) (drop n bs) = Inr rs'"
        "rs = \<lparr>rec_version = ?v, rec_state = take (n - HEADER) (drop HEADER bs)\<rparr> # rs'"
        by (auto simp: result_simps)
      have "sum_list (map frame_size rs') \<le> length (drop n bs)"
        by (rule "1.IH" [OF False refl n nl refl refl rs(1)])
      moreover have "frame_size \<lparr>rec_version = ?v, rec_state = take (n - HEADER) (drop HEADER bs)\<rparr> = n"
        using nl h by (simp add: frame_size_def)
      ultimately show ?thesis using rs(2) nl by simp
    qed
  qed
qed

lemma batch_length_bound:
  "batch_length L M n rs = Inr len \<Longrightarrow> len \<le> n + sum_list (map frame_size rs)"
  by (induction L M n rs rule: batch_length.induct) (fastforce simp: result_simps Let_def split: if_splits)+

lemma read_range_bounded:
  assumes "zones_bounded L"
  shows "read_range_from L rs start len s = (Inr b, s') \<Longrightarrow> length b < 2 ^ 63"
proof (induction rs arbitrary: s)
  case (Cons r rs)
  then obtain z t res t' where z: "zone_of L r = Inr z" "zn_read_range z r start len s = (res, t')"
    "(case res of Inr b \<Rightarrow> ret_op b | Inl _ \<Rightarrow> read_range_from L rs start len) t' = (Inr b, s')"
    by (auto simp: op_simps)
  have "z \<in> set (lg_zones L)" using z(1) by (auto simp: zone_of_def result_simps find_Some_iff)
  then have bd: "zn_read_range z r start len s = (Inr b, t') \<Longrightarrow> length b < 2 ^ 63"
    using assms unfolding zones_bounded_def by blast
  show ?case
  proof (cases res)
    case (Inl e)
    with z(3) Cons.IH show ?thesis by simp
  next
    case (Inr c)
    with z(2,3) bd show ?thesis by (simp add: op_simps)
  qed
qed (simp add: op_simps)

lemma payload_copy_bound: "payload_copy [b, c] = Inr x \<Longrightarrow> length b < 2 ^ 63 \<Longrightarrow> length c < 2 ^ 63 \<Longrightarrow> length x < 2 ^ 63"
  using payload_copy_result [of "[b, c]"] by (auto simp: fits_def MAX_FILE_BYTES_def split: if_splits)

lemma read_batch_bounded:
  assumes "zones_bounded L" "read_batch L M start end s = (Inr b, s')"
  shows "length b < 2 ^ 63"
proof -
  let ?q = "min (end - start) (max (lg_batch_bytes L) (of_nat HEADER))"
  from assms(2) obtain b0 t n where b0: "log_read_range L M start ?q s = (Inr b0, t)"
    and rest: "(if of_nat n \<le> ?q then ret_op b0 else ensure_op (of_nat n \<le> end - start) ''incomplete committed record''
       (bind_op (log_read_range L M (start + ?q) (of_nat n - ?q)) (\<lambda>tail. lift_op (payload_copy [b0, tail])))) t = (Inr b, s')"
    by (auto simp: read_batch_def Let_def op_simps)
  note b = read_range_bounded [OF assms(1)]
  have l0: "length b0 < 2 ^ 63" using b b0 unfolding log_read_range_def by blast
  show ?thesis
  proof (cases "of_nat n \<le> ?q")
    case True
    with rest l0 show ?thesis by (simp add: op_simps)
  next
    case False
    with rest obtain tail u where "log_read_range L M (start + ?q) (of_nat n - ?q) t = (Inr tail, u)"
      "payload_copy [b0, tail] = Inr b" by (auto simp: op_simps)
    with payload_copy_bound l0 b show ?thesis unfolding log_read_range_def by blast
  qed
qed

lemma archive_source_Inl:
  assumes "archive_source L M start end None s = (Inr (Inl through), u)" "start < end"
  shows "start < through"
proof -
  from assms(1) obtain res t where "read_batch L M start end s = (res, t)"
    and rest: "(case res of Inr b \<Rightarrow> ret_op (Inr b)
          | Inl e \<Rightarrow> bind_op (archived L M) (\<lambda>(through, _).
              if start < through then ret_op (Inl (min through end)) else lift_op (Inl e))) t = (Inr (Inl through), u)"
    by (auto simp: archive_source_def op_simps)
  from rest obtain e where "res = Inl e" by (cases res) (auto simp: op_simps)
  with rest assms(2) show ?thesis by (auto simp: op_simps split: if_splits)
qed

lemma archive_source_Inr:
  assumes "archive_source L M start end None s = (Inr (Inr b), u)"
  shows "\<exists>t. read_batch L M start end s = (Inr b, t)"
proof -
  from assms obtain res t where r: "read_batch L M start end s = (res, t)"
    and rest: "(case res of Inr b \<Rightarrow> ret_op (Inr b)
          | Inl e \<Rightarrow> bind_op (archived L M) (\<lambda>(through, _).
              if start < through then ret_op (Inl (min through end)) else lift_op (Inl e))) t = (Inr (Inr b), u)"
    by (auto simp: archive_source_def op_simps)
  from rest have "res = Inr b" by (cases res) (auto simp: op_simps split: if_splits)
  with r show ?thesis by blast
qed

lemma upload_advances:
  assumes "zones_bounded L" "upload L M start end None s = (Inr t, s')" "start < end"
  shows "start < t"
proof -
  from assms(2) obtain src u where src: "archive_source L M start end None s = (Inr src, u)"
    and rest: "(case src of Inl through \<Rightarrow> ret_op through
     | Inr b \<Rightarrow>
         bind_op (lift_op (frames_decode (lg_crypto L) b)) (\<lambda>rs.
         bind_op (lift_op (batch_length L M 0 rs)) (\<lambda>len.
         ensure_op (0 < len) ''archive range has no complete record'' (
         bind_op (put_batch L M start (take len b)) (\<lambda>_. ret_op (start + of_nat len)))))) u = (Inr t, s')"
    by (auto simp: upload_def op_simps)
  show ?thesis
  proof (cases src)
    case (Inl through)
    have "start < through" by (rule archive_source_Inl [OF src [unfolded Inl] assms(3)])
    with rest Inl show ?thesis by (simp add: op_simps)
  next
    case (Inr b)
    obtain u' where "read_batch L M start end s = (Inr b, u')" using archive_source_Inr [OF src [unfolded Inr]] by blast
    then have b: "length b < 2 ^ 63" by (rule read_batch_bounded [OF assms(1)])
    from rest Inr obtain rs len w where rs: "frames_decode (lg_crypto L) b = Inr rs" "batch_length L M 0 rs = Inr len"
      "0 < len" "put_batch L M start (take len b) u = (Inr (), w)" "t = start + of_nat len"
      by (auto simp: op_simps)
    have len: "len \<le> length b"
      using batch_length_bound [OF rs(2)] frames_from_size rs(1) unfolding frames_decode_def by fastforce
    from rs(4) obtain e where c: "checked_add start (of_nat (length (take len b))) = Some e"
      by (auto simp: put_batch_def op_simps result_simps)
    then have e: "unat e = unat start + unat (of_nat len :: u64)" using len by (simp add: checked_add_Some_iff)
    have "e = t" using c len rs(5) by (auto simp: checked_add_def split: if_splits)
    have "unat (of_nat len :: u64) = len" using len b by (simp add: unat_of_nat)
    with e \<open>e = t\<close> rs(3) show ?thesis by (simp add: word_less_nat_alt)
  qed
qed

lemma upload_rest_returns:
  assumes "zones_bounded L"
  shows "\<exists>r. upload_rest L M end through s = Some r"
proof (induction "2 ^ 64 - unat through" arbitrary: through s rule: less_induct)
  case less
  show ?case
  proof (cases "through < end")
    case False
    then show ?thesis by (subst upload_rest.simps) simp
  next
    case True
    obtain r s' where u: "upload L M through end None s = (r, s')" by (cases "upload L M through end None s")
    show ?thesis
    proof (cases r)
      case (Inl e)
      with True u show ?thesis by (subst upload_rest.simps) simp
    next
      case (Inr t)
      have "unat through < unat t" using upload_advances [OF assms u [unfolded Inr] True] by (simp add: word_less_nat_alt)
      moreover have "unat through < 2 ^ 64" "unat t < 2 ^ 64" using unsigned_less [of through] unsigned_less [of t] by simp_all
      ultimately have "2 ^ 64 - unat t < 2 ^ 64 - unat through" by linarith
      from less.hyps [OF this] True u Inr show ?thesis by (subst upload_rest.simps) simp
    qed
  qed
qed

lemma sweep_segment_returns: "zones_bounded L \<Longrightarrow> \<exists>r. sweep_segment L key s = Some r"
  using upload_rest_returns [of L]
  by (auto simp: sweep_segment_def complete_segment_def split: prod.splits sum.splits option.splits if_splits)
    (metis option.distinct(1))+

lemma sweep_keys_returns: "zones_bounded L \<Longrightarrow> \<exists>s'. sweep_keys L keys s = Some s'"
proof (induction keys arbitrary: s)
  case (Cons key keys)
  obtain r t where "sweep_segment L key s = Some (r, t)" using sweep_segment_returns [OF Cons.prems, of key s] by auto
  with Cons show ?case by simp
qed simp

section \<open>Copies of a log\<close>

lemma list_all_zip_prefixes: "list_all (\<lambda>(l, r). l = r) (zip (take n rs) (take k rs))"
  by (simp add: list_all_length)

lemma select_copy_prefixes:
  assumes "n \<le> length rs" "\<forall>k \<in> set ks. k \<le> length rs"
  shows "\<exists>m. select_copy (take n rs) (map (\<lambda>k. take k rs) ks) = Inr (take m rs) \<and> n \<le> m \<and> m \<le> length rs \<and> (\<forall>k \<in> set ks. k \<le> m)"
  using assms
proof (induction ks arbitrary: n)
  case (Cons k ks)
  let ?n = "if n < k then k else n"
  have "?n \<le> length rs" "\<forall>k \<in> set ks. k \<le> length rs" using Cons.prems by auto
  from Cons.IH [OF this] obtain m where m: "select_copy (take ?n rs) (map (\<lambda>k. take k rs) ks) = Inr (take m rs)"
    "?n \<le> m" "m \<le> length rs" "\<forall>k \<in> set ks. k \<le> m" by blast
  have "(if length (take n rs) < length (take k rs) then take k rs else take n rs) = take ?n rs"
    using Cons.prems by auto
  with m show ?case by (intro exI [of _ m]) (auto simp: list_all_zip_prefixes split: if_splits)
qed auto

definition log_copy :: "bytes list \<Rightarrow> nat \<Rightarrow> bytes \<Rightarrow> bool" where
  "log_copy bs acked b \<longleftrightarrow> (\<exists>n. length (concat (take acked bs)) \<le> n \<and> b = take n (concat bs))"

lemma decode_copies_prefixes:
  assumes "crypto_ok C" "encoded C rs bs" "consecutive None rs" "acked \<le> length rs"
  shows "\<forall>b \<in> set copies. log_copy bs acked b \<Longrightarrow>
    \<exists>ks. decode_copies C copies = Inr (map (\<lambda>k. take k rs) ks) \<and> length ks = length copies \<and>
      (\<forall>k \<in> set ks. acked \<le> k \<and> k \<le> length rs)"
proof (induction copies)
  case (Cons b copies)
  then obtain ks where ks: "decode_copies C copies = Inr (map (\<lambda>k. take k rs) ks)" "length ks = length copies"
    "\<forall>k \<in> set ks. acked \<le> k \<and> k \<le> length rs" by auto
  from Cons.prems obtain n where n: "length (concat (take acked bs)) \<le> n" "b = take n (concat bs)"
    by (auto simp: log_copy_def)
  obtain k where k: "k \<le> length rs" "frames_decode C b = Inr (take k rs)"
    "k < length rs \<longrightarrow> n < length (concat (take (Suc k) bs))"
    using frames_from_log [OF assms(1-3), of n] unfolding frames_decode_def n(2) by blast
  have "acked \<le> k"
  proof (rule ccontr)
    assume "\<not> acked \<le> k"
    then have "Suc k \<le> acked" "k < length rs" using assms(4) by simp_all
    then obtain d where "acked = Suc k + d" using le_Suc_ex by blast
    then have "length (concat (take (Suc k) bs)) \<le> length (concat (take acked bs))"
      by (simp only: take_add concat_append length_append)
    with k(3) n(1) \<open>k < length rs\<close> show False by simp
  qed
  with ks k show ?case by (intro exI [of _ "k # ks"]) simp
qed simp

lemma read_copies_from:
  "read_copies L fence reps s = (copies, s') \<Longrightarrow>
   (\<And>r z t b t'. r \<in> set reps \<Longrightarrow> zone_of L r = Inr z \<Longrightarrow> zn_read z r fence t = (Inr b, t') \<Longrightarrow> P b) \<Longrightarrow>
   \<forall>b \<in> set copies. P b"
proof (induction reps arbitrary: s copies s')
  case (Cons r reps)
  obtain res t where res: "bind_op (lift_op (zone_of L r)) (\<lambda>z. zn_read z r fence) s = (res, t)"
    by (cases "bind_op (lift_op (zone_of L r)) (\<lambda>z. zn_read z r fence) s")
  obtain cs u where cs: "read_copies L fence reps t = (cs, u)" by (cases "read_copies L fence reps t")
  have IH: "\<forall>b \<in> set cs. P b" by (rule Cons.IH [OF cs]) (rule Cons.prems(2) [OF list.set_intros(2)])
  show ?case
  proof (cases res)
    case (Inl e)
    with Cons.prems(1) res cs IH show ?thesis by simp
  next
    case (Inr b)
    with res obtain z where z: "zone_of L r = Inr z" "zn_read z r fence s = (Inr b, t)" by (auto simp: op_simps)
    have "P b" by (rule Cons.prems(2) [OF list.set_intros(1) z])
    with Cons.prems(1) res cs IH Inr show ?thesis by auto
  qed
qed simp

section \<open>Batches of a log\<close>

lemma tilde_free_u64_020: "CHR ''~'' \<notin> set (show_u64_020 v)"
proof -
  have "(of_char c :: nat) < 58" if "c \<in> set (show_radix 10 n)" for c n
    using that digits_of_less [of 10 _ n] by (fastforce simp: show_radix_def digit_char_def)
  then show ?thesis by (fastforce simp: show_u64_020_def show_u64_def pad_zero_def)
qed

lemma batch_range_key:
  "start < end \<Longrightarrow> batch_range pre (pre @ show_u64_020 start @ ''~'' @ show_u64_020 end @ ''.batch'') = Inr (start, end)"
proof -
  assume "start < end"
  moreover have "strip_suffix ''.batch'' (show_u64_020 start @ ''~'' @ show_u64_020 end @ ''.batch'') =
      Some (show_u64_020 start @ CHR ''~'' # show_u64_020 end)"
    by (simp add: strip_suffix_Some_iff)
  ultimately show ?thesis
    by (simp only: batch_range_def strip_prefix_append Option.bind.simps context_opt_simps rbind_simps
        split_once_append [OF tilde_free_u64_020] prod.case parse_show_u64_020 ensure_simps)
qed

definition belongs :: "('s, 'v) log_storage \<Rightarrow> Manifest \<Rightarrow> Record \<Rightarrow> bool" where
  "belongs L M r \<longleftrightarrow> mf_first_version M \<le> rec_version r \<and>
     (\<exists>ref. stream_snapshot (lg_crypto L) (lg_json L) (mf_stream M) (rec_state r) = Inr ref \<and>
        sr_object ref = stream_object (mf_stream M) (rec_version r))"

text \<open>The offset map that holds the records of the indices \<open>is\<close>.\<close>

definition layout :: "Record list \<Rightarrow> nat set \<Rightarrow> (u64, Record) btree" where
  "layout rs I = map (\<lambda>i. (of_nat (frame_offset rs i), rs ! i)) (sorted_list_of_set I)"

lemma frame_offset_strict: "i < j \<Longrightarrow> j \<le> length rs \<Longrightarrow> frame_offset rs i < frame_offset rs j"
  using frame_offset_Suc [of i rs] frame_offset_mono [of "Suc i" j rs] by (simp add: frame_size_def HEADER_def)

definition fits_offsets :: "Record list \<Rightarrow> bool" where
  "fits_offsets rs \<longleftrightarrow> frame_offset rs (length rs) < 2 ^ 64"

lemma offset_small:
  "fits_offsets rs \<Longrightarrow> i \<le> length rs \<Longrightarrow> unat (of_nat (frame_offset rs i) :: u64) = frame_offset rs i"
  using frame_offset_mono [of i "length rs" rs] by (simp add: unat_of_nat fits_offsets_def)

lemma offset_less:
  "fits_offsets rs \<Longrightarrow> i < j \<Longrightarrow> j \<le> length rs \<Longrightarrow> (of_nat (frame_offset rs i) :: u64) < of_nat (frame_offset rs j)"
  using frame_offset_strict [of i j rs] offset_small [of rs i] offset_small [of rs j] by (simp add: word_less_nat_alt)

lemma offset_inj:
  "fits_offsets rs \<Longrightarrow> i \<le> length rs \<Longrightarrow> j \<le> length rs \<Longrightarrow>
    (of_nat (frame_offset rs i) :: u64) = of_nat (frame_offset rs j) \<longleftrightarrow> i = j"
  using offset_less [of rs i j] offset_less [of rs j i] by (metis linorder_neqE_nat order.strict_iff_not)

lemma layout_ok:
  assumes "fits_offsets rs" "I \<subseteq> {..<length rs}"
  shows "bt_ok (layout rs I)"
proof -
  have "finite I" using assms(2) finite_subset by blast
  then have s: "sorted_wrt (<) (sorted_list_of_set I)" "set (sorted_list_of_set I) \<subseteq> {..<length rs}" using assms(2) by auto
  have "sorted_wrt (\<lambda>i j. (of_nat (frame_offset rs i) :: u64) < of_nat (frame_offset rs j)) (sorted_list_of_set I)"
    by (rule sorted_wrt_mono_rel [OF _ s(1)]) (use s(2) in \<open>auto intro!: offset_less [OF assms(1)]\<close>)
  then show ?thesis by (simp add: bt_ok_def layout_def sorted_wrt_map)
qed

lemma map_of_layout:
  assumes "fits_offsets rs" "I \<subseteq> {..<length rs}" "i < length rs"
  shows "map_of (layout rs I) (of_nat (frame_offset rs i)) = (if i \<in> I then Some (rs ! i) else None)"
proof -
  have fin: "finite I" using assms(2) finite_subset by blast
  have d: "distinct (map fst (layout rs I))" using bt_ok_distinct [OF layout_ok [OF assms(1,2)]] .
  have eq: "(of_nat (frame_offset rs j) :: u64) = of_nat (frame_offset rs i) \<longleftrightarrow> j = i" if "j \<in> I" for j
    using that assms offset_inj [OF assms(1), of j i] by auto
  show ?thesis
  proof (cases "i \<in> I")
    case True
    then have "(of_nat (frame_offset rs i), rs ! i) \<in> set (layout rs I)" using fin by (auto simp: layout_def)
    with True map_of_is_SomeI [OF d] show ?thesis by simp
  next
    case False
    then have "of_nat (frame_offset rs i) \<notin> fst ` set (layout rs I)"
      using eq fin by (force simp: layout_def)
    with False show ?thesis by (simp add: map_of_eq_None_iff)
  qed
qed

lemma keys_layout: "finite I \<Longrightarrow> fst ` set (layout rs I) = (\<lambda>i. of_nat (frame_offset rs i)) ` I"
  by (simp add: layout_def image_image)

lemma layout_insert:
  assumes "fits_offsets rs" "I \<subseteq> {..<length rs}" "i < length rs"
  shows "bt_insert (of_nat (frame_offset rs i)) (rs ! i) (layout rs I) = layout rs (insert i I)"
proof (rule bt_ok_unique)
  have fin: "finite I" using assms(2) finite_subset by blast
  show "bt_ok (bt_insert (of_nat (frame_offset rs i)) (rs ! i) (layout rs I))" using layout_ok [OF assms(1,2)] by simp
  show ok: "bt_ok (layout rs (insert i I))" using layout_ok [OF assms(1), of "insert i I"] assms(2,3) by simp
  show "map_of (bt_insert (of_nat (frame_offset rs i)) (rs ! i) (layout rs I)) = map_of (layout rs (insert i I))"
  proof
    fix o' :: u64
    show "map_of (bt_insert (of_nat (frame_offset rs i)) (rs ! i) (layout rs I)) o' = map_of (layout rs (insert i I)) o'"
    proof (cases "\<exists>j < length rs. o' = of_nat (frame_offset rs j)")
      case True
      then obtain j where "j < length rs" "o' = of_nat (frame_offset rs j)" by blast
      then show ?thesis
        using map_of_layout [OF assms(1), of I j] map_of_layout [OF assms(1), of "insert i I" j]
          offset_inj [OF assms(1), of i j] assms(2,3) by auto
    next
      case False
      then have "o' \<notin> fst ` set (layout rs I)" "o' \<notin> fst ` set (layout rs (insert i I))" "o' \<noteq> of_nat (frame_offset rs i)"
        using assms(2,3) fin keys_layout [of I rs] keys_layout [of "insert i I" rs] by auto
      then have "map_of (layout rs I) o' = None" "map_of (layout rs (insert i I)) o' = None" "o' \<noteq> of_nat (frame_offset rs i)"
        by (simp_all add: map_of_eq_None_iff)
      then show ?thesis by simp
    qed
  qed
qed

lemma archive_records_layout:
  assumes "fits_offsets rs" "\<forall>r \<in> set rs. belongs L M r" "I \<subseteq> {..<length rs}"
  shows "a + n \<le> length rs \<Longrightarrow> archive_records L M (take n (drop a rs)) (of_nat (frame_offset rs a)) (layout rs I) =
    Inr (of_nat (frame_offset rs (a + n)), layout rs (I \<union> {a ..< a + n}))"
  using assms(3)
proof (induction n arbitrary: a I)
  case (Suc n)
  then have a: "a < length rs" by simp
  have d: "take (Suc n) (drop a rs) = rs ! a # take n (drop (Suc a) rs)" using a by (simp add: Cons_nth_drop_Suc [symmetric])
  have b: "belongs L M (rs ! a)" using assms(2) a by simp
  have m: "map_of (layout rs I) (of_nat (frame_offset rs a)) = (if a \<in> I then Some (rs ! a) else None)"
    using map_of_layout [OF assms(1) Suc.prems(2) a] .
  have o: "of_nat (frame_offset rs a) + (of_nat (frame_size (rs ! a)) :: u64) = of_nat (frame_offset rs (Suc a))"
    using frame_offset_Suc [OF a] by simp
  have I: "insert a I \<subseteq> {..<length rs}" "insert a I \<union> {Suc a ..< Suc a + n} = I \<union> {a ..< a + Suc n}"
    using Suc.prems(2) a by auto
  have "archive_records L M (take n (drop (Suc a) rs)) (of_nat (frame_offset rs (Suc a))) (layout rs (insert a I)) =
      Inr (of_nat (frame_offset rs (Suc a + n)), layout rs (insert a I \<union> {Suc a ..< Suc a + n}))"
    using Suc.IH [of "Suc a" "insert a I"] Suc.prems(1) I(1) by simp
  then show ?case
    using b m unfolding d I(2) by (auto simp: belongs_def layout_insert [OF assms(1) Suc.prems(2) a] o)
qed simp

lemma layout_upt: "layout rs {a ..< b} = map (\<lambda>i. (of_nat (frame_offset rs i), rs ! i)) [a ..< b]"
  by (simp add: layout_def sorted_list_of_set_range)

lemma archive_walk_layout:
  "consecutive prev (drop a rs) \<Longrightarrow> a \<le> b \<Longrightarrow> b \<le> length rs \<Longrightarrow>
   archive_walk (of_nat (frame_offset rs a)) prev (map (\<lambda>i. (of_nat (frame_offset rs i), rs ! i)) [a ..< b]) =
     Inr (of_nat (frame_offset rs b), map ((!) rs) [a ..< b])"
proof (induction "b - a" arbitrary: a prev)
  case (Suc n)
  then have a: "a < b" "a < length rs" by simp_all
  have d: "drop a rs = rs ! a # drop (Suc a) rs" using a(2) by (simp add: Cons_nth_drop_Suc)
  have o: "of_nat (frame_offset rs a) + (of_nat (frame_size (rs ! a)) :: u64) = of_nat (frame_offset rs (Suc a))"
    using frame_offset_Suc [OF a(2)] by simp
  have "archive_walk (of_nat (frame_offset rs (Suc a))) (Some (rec_version (rs ! a)))
     (map (\<lambda>i. (of_nat (frame_offset rs i), rs ! i)) [Suc a ..< b]) = Inr (of_nat (frame_offset rs b), map ((!) rs) [Suc a ..< b])"
    using Suc.hyps(1) [of "Suc a"] Suc.hyps(2) Suc.prems d a by simp
  then show ?case using Suc.prems(1) unfolding d by (simp add: upt_conv_Cons [OF a(1)] o)
qed simp

definition batch_at :: "('s, 'v) log_storage \<Rightarrow> string \<Rightarrow> Record list \<Rightarrow> bytes list \<Rightarrow> 's \<Rightarrow> string \<Rightarrow> nat \<times> nat \<Rightarrow> bool" where
  "batch_at L pre rs bs s key = (\<lambda>(a, b). a < b \<and> b \<le> length rs \<and>
     key = pre @ show_u64_020 (of_nat (frame_offset rs a)) @ ''~'' @ show_u64_020 (of_nat (frame_offset rs b)) @ ''.batch'' \<and>
     (\<exists>g. bk_get (lg_archive L) key s = Inr (Some \<lparr>generation = g, obj_bytes = concat (take (b - a) (drop a bs))\<rparr>)))"

lemma archive_batches_layout:
  assumes C: "crypto_ok (lg_crypto L)" and e: "encoded (lg_crypto L) rs bs" and c: "consecutive None rs"
    and f: "fits_offsets rs" and v: "\<forall>r \<in> set rs. belongs L M r"
  shows "list_all2 (batch_at L pre rs bs s) keys ivs \<Longrightarrow> I \<subseteq> {..<length rs} \<Longrightarrow>
    archive_batches L M pre keys (layout rs I) s = (Inr (layout rs (I \<union> (\<Union>(a, b) \<in> set ivs. {a ..< b}))), s)"
proof (induction keys arbitrary: ivs I)
  case Nil
  then show ?case by (simp add: ret_op_def)
next
  case (Cons key keys)
  from Cons.prems(1) obtain a b ivs' where iv: "ivs = (a, b) # ivs'" "list_all2 (batch_at L pre rs bs s) keys ivs'"
    and at: "batch_at L pre rs bs s key (a, b)"
    unfolding list_all2_Cons1 by force
  from at obtain g where ab: "a < b" "b \<le> length rs"
    and key: "key = pre @ show_u64_020 (of_nat (frame_offset rs a)) @ ''~'' @ show_u64_020 (of_nat (frame_offset rs b)) @ ''.batch''"
    and g: "bk_get (lg_archive L) key s = Inr (Some \<lparr>generation = g, obj_bytes = concat (take (b - a) (drop a bs))\<rparr>)"
    unfolding batch_at_def prod.case by blast
  let ?a = "of_nat (frame_offset rs a) :: u64" and ?b = "of_nat (frame_offset rs b) :: u64"
  let ?bytes = "concat (take (b - a) (drop a bs))"
  have lt: "?a < ?b" using offset_less [OF f ab] .
  have r: "batch_range pre key = Inr (?a, ?b)" unfolding key by (rule batch_range_key [OF lt])
  have d: "frames_decode (lg_crypto L) ?bytes = Inr (take (b - a) (drop a rs))"
    unfolding frames_decode_def
    by (rule frames_decode_log [OF C encoded_slice [OF e] consecutive_take [OF consecutive_drop [OF c]]])
  have off: "length (concat (take n bs)) = frame_offset rs n" if "n \<le> length rs" for n
    using encoded_offset [OF C e that] .
  have "take b bs = take a bs @ take (b - a) (drop a bs)" using ab(1) by (metis le_add_diff_inverse less_imp_le take_add)
  then have "length (concat (take b bs)) = length (concat (take a bs)) + length ?bytes" by simp
  then have "length ?bytes = frame_offset rs b - frame_offset rs a" using off ab by simp
  then have len: "(of_nat (length ?bytes) :: u64) = ?b - ?a"
    using frame_offset_mono [of a b rs] ab by (simp add: of_nat_diff)
  have ar: "archive_records L M (take (b - a) (drop a rs)) ?a (layout rs I) = Inr (?b, layout rs (I \<union> {a ..< b}))"
    using archive_records_layout [OF f v Cons.prems(2), of a "b - a"] ab by simp
  have I: "I \<union> {a ..< b} \<subseteq> {..<length rs}" using Cons.prems(2) ab by auto
  have "archive_batches L M pre keys (layout rs (I \<union> {a ..< b})) s =
      (Inr (layout rs (I \<union> {a ..< b} \<union> (\<Union>(a, b) \<in> set ivs'. {a ..< b}))), s)"
    by (rule Cons.IH [OF iv(2) I])
  then show ?case
    by (simp add: bind_op_def lift_op_def archive_get_def ensure_op_def r g len d ar iv(1) Un_assoc)
qed

lemma take_upt_nth: "k \<le> length xs \<Longrightarrow> map ((!) xs) [0 ..< k] = take k xs"
  by (rule nth_equalityI) simp_all

lemma archived_layout:
  assumes "crypto_ok (lg_crypto L)" and "encoded (lg_crypto L) rs bs" and "consecutive None rs"
    and "length (concat bs) < 2 ^ 64" and "\<forall>r \<in> set rs. belongs L M r"
    and "batch_prefix (lg_crypto L) M = Inr pre" and "bk_list (lg_archive L) pre s = Inr keys"
    and "list_all2 (batch_at L pre rs bs s) keys ivs" and "(\<Union>(a, b) \<in> set ivs. {a ..< b}) = {0 ..< k}"
  shows "archived L M s = (Inr (of_nat (frame_offset rs k), take k rs), s)"
proof -
  have lb: "length bs = length rs" using assms(2) by (simp add: encoded_def list_all2_lengthD)
  have f: "fits_offsets rs" using encoded_offset [OF assms(1,2), of "length rs"] assms(4) lb by (simp add: fits_offsets_def)
  have ub: "b \<le> length rs" if "(a, b) \<in> set ivs" for a b
    using that assms(8) by (auto simp: list_all2_conv_all_nth in_set_conv_nth batch_at_def)
  have k: "k \<le> length rs"
  proof (rule ccontr)
    assume "\<not> k \<le> length rs"
    then have "length rs \<in> {0 ..< k}" by simp
    with assms(9) [symmetric] ub show False by fastforce
  qed
  have "archive_batches L M pre keys (layout rs {}) s = (Inr (layout rs ({} \<union> (\<Union>(a, b) \<in> set ivs. {a ..< b}))), s)"
    by (rule archive_batches_layout [OF assms(1-3) f assms(5,8)]) simp
  then have "archive_batches L M pre keys [] s = (Inr (layout rs {0 ..< k}), s)"
    unfolding assms(9) by (simp add: layout_def [of rs "{}"])
  moreover have "archive_walk 0 None (layout rs {0 ..< k}) = Inr (of_nat (frame_offset rs k), take k rs)"
    using archive_walk_layout [of None 0 rs k] assms(3) k take_upt_nth [OF k] by (simp add: layout_upt)
  ultimately show ?thesis
    by (simp add: archived_def bind_op_def lift_op_def archive_list_def assms(6,7))
qed

text \<open>Copies of a log that were cut behind its acknowledged records decode to a prefix with them.\<close>

lemma read_replicas_copies:
  assumes "crypto_ok (lg_crypto L)" and "encoded (lg_crypto L) rs bs" and "consecutive None rs" and "acked \<le> length rs"
    and "\<forall>b \<in> set (b # copies). log_copy bs acked b"
    and "read_copies L fence (mf_replicas M) s = (b # copies, s')"
  shows "\<exists>m. acked \<le> m \<and> m \<le> length rs \<and> read_replicas L M fence s = (Inr (take m rs), s')"
proof -
  from decode_copies_prefixes [OF assms(1-5)] obtain ks where
    ks: "decode_copies (lg_crypto L) (b # copies) = Inr (map (\<lambda>k. take k rs) ks)" "length ks = length (b # copies)"
    "\<forall>k \<in> set ks. acked \<le> k \<and> k \<le> length rs" by blast
  have kl: "\<forall>k \<in> set ks. k \<le> length rs" using ks(3) by blast
  have "select_copy [] (map (\<lambda>k. take k rs) ks) = select_copy (take 0 rs) (map (\<lambda>k. take k rs) ks)" by simp
  with select_copy_prefixes [OF le0 kl] obtain m where m: "select_copy [] (map (\<lambda>k. take k rs) ks) = Inr (take m rs)"
    "m \<le> length rs" "\<forall>k \<in> set ks. k \<le> m" by metis
  from ks(2) obtain k ks' where k: "ks = k # ks'" by (cases ks) auto
  with m(3) ks(3) have "acked \<le> m" by auto
  have ne: "map (\<lambda>k. take k rs) ks \<noteq> []" using k by simp
  have "read_replicas L M fence s = (Inr (take m rs), s')"
    unfolding read_replicas_def assms(6) prod.case ks(1) rbind_simps using ne m(1) by (simp only: ensure_simps simp_thms)
  with m(2) \<open>acked \<le> m\<close> show ?thesis by blast
qed

section \<open>Correctness of the log\<close>

text \<open>C16. Acknowledged records survive the loss of replicas: when every replica that can be read
  holds a cut of the log behind its first \<open>acked\<close> records and at least one can be read, the
  reader returns a prefix of the log that contains them all. It never finds the replicas
  divergent and never makes up a record.\<close>

theorem replica_loss_keeps_acknowledged:
  assumes "crypto_ok (lg_crypto L)" and "encoded (lg_crypto L) rs bs" and "consecutive None rs" and "acked \<le> length rs"
    and "\<forall>r \<in> set (mf_replicas M). \<forall>z s b s'. zone_of L r = Inr z \<longrightarrow> zn_read z r fence s = (Inr b, s') \<longrightarrow> log_copy bs acked b"
    and "read_copies L fence (mf_replicas M) s = (b # copies, s')"
  shows "\<exists>m. acked \<le> m \<and> m \<le> length rs \<and> read_replicas L M fence s = (Inr (take m rs), s')"
proof (rule read_replicas_copies [OF assms(1-4) _ assms(6)])
  show "\<forall>b \<in> set (b # copies). log_copy bs acked b"
    by (rule read_copies_from [OF assms(6)]) (use assms(5) in blast)
qed

text \<open>C17. The archive reads back what was copied to it: when the batches of a segment hold runs of
  frames of its log, stored under the offsets they cover, in any order and however they
  overlap, and together they cover the first \<open>k\<close> records, then reading the archive
  returns exactly these records and the offset after them.\<close>

theorem archive_returns_copied_records:
  assumes "crypto_ok (lg_crypto L)" and "encoded (lg_crypto L) rs bs" and "consecutive None rs"
    and "length (concat bs) < 2 ^ 64" and "\<forall>r \<in> set rs. belongs L M r"
    and "batch_prefix (lg_crypto L) M = Inr pre" and "bk_list (lg_archive L) pre s = Inr keys"
    and "list_all2 (batch_at L pre rs bs s) keys ivs" and "(\<Union>(a, b) \<in> set ivs. {a ..< b}) = {0 ..< k}"
  shows "archived L M s = (Inr (of_nat (frame_offset rs k), take k rs), s)"
  by (rule archived_layout [OF assms])

text \<open>C38. Sweeping the closed segments of an actor always ends, although every segment uploads in
  a loop whose progress depends on what other workers have archived.\<close>

theorem sweep_returns:
  assumes "zones_bounded L"
  shows "\<exists>r s'. sweep L pre s = Some (r, s')"
proof (cases "bk_list (lg_archive L) pre s")
  case (Inl e)
  then show ?thesis by (simp add: sweep_def)
next
  case (Inr keys)
  obtain s' where "sweep_keys L (filter (\<lambda>k. ends_with ''.closed'' k \<and>
      str_replace ''.closed'' ''.cleaned'' k \<notin> set (sorted_list_of_set (set keys))) (sorted_list_of_set (set keys))) s = Some s'"
    using sweep_keys_returns [OF assms] by blast
  with Inr show ?thesis by (simp add: sweep_def Let_def)
qed


section \<open>A concrete segment\<close>

definition log_record :: Record where
  "log_record = \<lparr>rec_version = 1, rec_state = sample_bytes\<rparr>"

definition log_manifest :: Manifest where
  "log_manifest = \<lparr>mf_format = 1, mf_id = ''id'', mf_stream = sample_stream, mf_first_version = 1,
     mf_replicas = [\<lparr>rl_bucket = ''z1'', rl_object = ''o'', rl_generation = 1\<rparr>, \<lparr>rl_bucket = ''z2'', rl_object = ''o'', rl_generation = 1\<rparr>]\<rparr>"

text \<open>Of the two zones the first does not answer, and the second reads \<open>b\<close>; the archive holds
  \<open>objects\<close>.\<close>

definition log_zone_with :: "string \<Rightarrow> bytes result \<Rightarrow> unit log_zone" where
  "log_zone_with name b =
     \<lparr>zn_bucket = name, zn_open = (\<lambda>_ s. (Inl ''down'', s)), zn_append = (\<lambda>_ _ s. (Inl ''down'', s)),
      zn_read = (\<lambda>_ _ s. (b, s)), zn_read_range = (\<lambda>_ _ _ s. (Inl ''down'', s)), zn_delete = (\<lambda>_ s. (Inr (), s))\<rparr>"

definition no_checkpoint_json :: checkpoint_json where
  "no_checkpoint_json =
     \<lparr>cj_envelope = \<lparr>to_vec = (\<lambda>_. Inl ''none''), from_slice = (\<lambda>_. Inl ''none'')\<rparr>, cj_plain = (\<lambda>_. Inl ''none'')\<rparr>"

definition sample_log_storage :: "bytes \<Rightarrow> (string \<times> bytes) list \<Rightarrow> (unit, string) log_storage" where
  "sample_log_storage b objects =
     \<lparr>lg_crypto = hex_crypto, lg_json = sample_json,
      lg_archive = \<lparr>bk_get = (\<lambda>k s. Inr (map_option (\<lambda>b. \<lparr>generation = 1, obj_bytes = b\<rparr>) (map_of objects k))),
        bk_range = (\<lambda>_ _ _ s. Inr None), bk_cas = (\<lambda>_ _ _ s. (Inr False, s)), bk_list = (\<lambda>p s. Inr (map fst objects))\<rparr>,
      lg_snapshots = \<lparr>st_get = (\<lambda>_ s. Inr None), st_list = (\<lambda>_ s. Inr []), st_latest = (\<lambda>_ s. Inr None),
        st_put = (\<lambda>_ _ s. (Inr (), s)), st_prefetch = (\<lambda>_ s. Inr None), st_start = (\<lambda>_ s. (Inr (), s)),
        st_recover = (\<lambda>_ s. (Inr None, s)), st_finish = (\<lambda>_ s. (Inr (), s))\<rparr>,
      lg_zones = [log_zone_with ''z1'' (Inl ''down''), log_zone_with ''z2'' (Inr b)], lg_placement = All, lg_batch_bytes = 1000,
      lg_batch_interval = 0, lg_compact = (\<lambda>_. Inl ''none''), lg_checkpoint_json = no_checkpoint_json,
      lg_manifest_encode = (\<lambda>_. Inr []), lg_manifest_decode = (\<lambda>_. Inr log_manifest),
      lg_closed_encode = (\<lambda>_. Inr []), lg_closed_decode = (\<lambda>_. Inl ''none''),
      lg_index_encode = (\<lambda>_. Inr []), lg_index_decode = (\<lambda>_. Inl ''none''), lg_parse_uuid = (\<lambda>_. Inr ())\<rparr>"

lemma sample_log_storage_simps [simp]:
  "lg_crypto (sample_log_storage b objects) = hex_crypto" "lg_json (sample_log_storage b objects) = sample_json"
  by (simp_all add: sample_log_storage_def)

lemma log_record_encoded: "\<exists>bs. encoded hex_crypto [log_record] bs \<and> length (concat bs) < 2 ^ 64"
proof -
  have l: "length sample_bytes \<le> 2 ^ 30" by (simp add: sample_bytes_def str_bytes_def)
  obtain b where b: "record_encode hex_crypto log_record = Inr b"
    using record_encode_ok [OF crypto_ok_hex, of log_record] l by (auto simp: log_record_def)
  then have "length b < 2 ^ 64" using record_encode_Inr(2,3) [OF crypto_ok_hex b] by (simp add: HEADER_def)
  with b show ?thesis by (intro exI [of _ "[b]"]) simp
qed

lemma log_record_consecutive: "consecutive None [log_record]"
  by (simp add: follows_version_def)

lemma log_record_belongs: "belongs (sample_log_storage b objects) log_manifest log_record"
  by (simp add: belongs_def log_manifest_def log_record_def sample_stream_snapshot)
    (simp add: sample_ref_def snapshot_ref_new_def sample_object_def stream_object_def sample_stream_def)

lemma sample_path_name: "\<exists>b. object_name hex_crypto (ROOT @ ''snapshots/'' @ actor_path hex_crypto sample_actor @ CHR ''/'' # rest) =
    Inr (''durable-actors-v3-snapshots-'' @ b @ ''~'' @ str_replace ''/'' ''~'' rest)"
proof -
  let ?c = "b64_component hex_crypto" and ?a = sample_actor
  let ?shard = "pad_zero 2 (show_radix 16 (unat (sha256 hex_crypto (str_bytes (as_str (storage_key ?a))) ! 0)))"
  have ns: "CHR ''/'' \<notin> set (?c x)" for x using b64_component_no_slash [OF crypto_ok_hex] .
  have ne: "?shard \<noteq> []" "?c (project_id ?a) \<noteq> []" "?c (actor_name ?a) \<noteq> []" "?c (actor_id ?a) \<noteq> []"
    by (simp_all add: pad_zero_def show_radix_ne b64_component_def hex_crypto_def sample_actor_def hex_byte_def str_bytes_def)
  have 5: "(5 :: nat) = Suc (Suc (Suc (Suc (Suc 0))))" by simp
  have sp: "splitn 5 (CHR ''/'') (actor_path hex_crypto ?a @ CHR ''/'' # rest) =
      [?shard, ?c (project_id ?a), ?c (actor_name ?a), ?c (actor_id ?a), rest]"
    unfolding 5 by (simp add: actor_path_def split_once_append [OF shard_no_slash] split_once_append [OF ns])
  have "strip_prefix (ROOT @ ''snapshots/'') (ROOT @ ''snapshots/'' @ actor_path hex_crypto ?a @ CHR ''/'' # rest) =
      Some (actor_path hex_crypto ?a @ CHR ''/'' # rest)"
    unfolding strip_prefix_Some_iff by simp
  then show ?thesis using ne by (simp add: object_name_def sp Let_def)
qed

lemma log_manifest_key: "\<exists>key. manifest_key hex_crypto log_manifest = Inr key"
  using sample_path_name [of "show_u64_032x 1 @ ''/''"]
  by (auto simp: manifest_key_def log_manifest_def sample_stream_def stream_prefix_def)

theorem replica_loss_keeps_acknowledged_witness:
  "\<exists>b. \<exists>m \<ge> 1. read_replicas (sample_log_storage b []) log_manifest True () = (Inr (take m [log_record]), ())"
proof -
  obtain bs where bs: "encoded hex_crypto [log_record] bs" using log_record_encoded by blast
  let ?L = "sample_log_storage (concat bs) []"
  have e: "encoded (lg_crypto ?L) [log_record] bs" and C: "crypto_ok (lg_crypto ?L)" using bs crypto_ok_hex by simp_all
  have copy: "log_copy bs 1 (concat bs)"
    using bs by (auto simp: log_copy_def intro!: exI [of _ "length (concat bs)"])
  have z: "\<forall>r \<in> set (mf_replicas log_manifest). \<forall>z s b s'. zone_of ?L r = Inr z \<longrightarrow> zn_read z r True s = (Inr b, s') \<longrightarrow>
      log_copy bs 1 b"
    using copy by (auto simp: log_manifest_def zone_of_def sample_log_storage_def log_zone_with_def)
  have r: "read_copies ?L True (mf_replicas log_manifest) () = (concat bs # [], ())"
    by (simp add: log_manifest_def zone_of_def sample_log_storage_def log_zone_with_def bind_op_def lift_op_def)
  have "1 \<le> length [log_record]" by simp
  from replica_loss_keeps_acknowledged [OF C e log_record_consecutive this z r] show ?thesis by blast
qed

theorem archive_returns_copied_records_witness:
  "\<exists>objects. archived (sample_log_storage [] objects) log_manifest () =
     (Inr (of_nat (frame_offset [log_record] 1), [log_record]), ())"
proof -
  obtain bs where bs: "encoded hex_crypto [log_record] bs" "length (concat bs) < 2 ^ 64" using log_record_encoded by blast
  obtain k where "manifest_key hex_crypto log_manifest = Inr k" using log_manifest_key by blast
  then obtain pre where pre: "batch_prefix hex_crypto log_manifest = Inr pre" by (simp add: batch_prefix_def)
  define key where "key = pre @ show_u64_020 (of_nat (frame_offset [log_record] 0)) @ ''~'' @
    show_u64_020 (of_nat (frame_offset [log_record] 1)) @ ''.batch''"
  let ?L = "sample_log_storage [] [(key, concat bs)]"
  have e: "encoded (lg_crypto ?L) [log_record] bs" and C: "crypto_ok (lg_crypto ?L)" and p: "batch_prefix (lg_crypto ?L) log_manifest = Inr pre"
    using bs crypto_ok_hex pre by simp_all
  have l: "bk_list (lg_archive ?L) pre () = Inr [key]" by (simp add: sample_log_storage_def)
  have "length bs = 1" using bs(1) by auto
  then have a: "list_all2 (batch_at ?L pre [log_record] bs ()) [key] [(0, 1)]"
    by (simp add: batch_at_def key_def sample_log_storage_def)
  have v: "\<forall>r \<in> set [log_record]. belongs ?L log_manifest r" using log_record_belongs by simp
  have u: "(\<Union>(a, b) \<in> set [(0 :: nat, 1)]. {a ..< b}) = {0 ..< 1}" by simp
  from archive_returns_copied_records [OF C e log_record_consecutive bs(2) v p l a u] show ?thesis by (intro exI) simp
qed

theorem sweep_returns_witness: "\<exists>r s'. sweep (sample_log_storage [] []) ''p'' () = Some (r, s')"
proof -
  have "zones_bounded (sample_log_storage [] [])"
    by (simp add: zones_bounded_def sample_log_storage_def log_zone_with_def)
  then show ?thesis by (rule sweep_returns)
qed


end
