(* ===== verification/Rapid_Archiver.thy ===== *)
theory Rapid_Archiver
  imports Rapid_Storage
begin

text \<open>
  The archive worker (\<open>Archiver\<close>, \<open>run\<close> and \<open>take_cache\<close> of
  \<open>bucket/rapid/archive.rs\<close>). A session hands every frame it has flushed to the zones to
  the worker of its segment, which copies the log to the archive in batches, in the background.
  The two share the mutex around \<open>Pending\<close>; the worker holds it only while it reads or
  updates it, so appends happen between the steps of the worker. A step of the worker is what
  it does between two such points: it looks at \<open>Pending\<close>, it acts on what it saw and may
  take the cached frames, it uploads and records the progress. Waiting for a notification is
  looking again. Time is a number of milliseconds and only decides when a batch is due.
\<close>

section \<open>What the session hands over\<close>

record Pending =
  pn_end :: u64
  pn_version :: u64
  pn_since :: "nat option"
  pn_cache_start :: u64
  pn_cache :: "bytes list"
  pn_cache_bytes :: nat
  pn_closed :: bool

definition pending_new :: "u64 \<Rightarrow> Pending" where
  "pending_new v =
     \<lparr>pn_end = 0, pn_version = v, pn_since = None, pn_cache_start = 0, pn_cache = [], pn_cache_bytes = 0,
      pn_closed = False\<rparr>"

definition archiver_batch_bytes :: "('s, 'v) log_storage \<Rightarrow> nat" where
  "archiver_batch_bytes L = min (unat (lg_batch_bytes L)) (1024 * 1024)"

definition get_or_insert :: "nat \<Rightarrow> nat option \<Rightarrow> nat option" where
  "get_or_insert now t = Some (case t of None \<Rightarrow> now | Some t \<Rightarrow> t)"

definition archiver_append :: "nat \<Rightarrow> nat \<Rightarrow> bytes \<Rightarrow> u64 \<Rightarrow> Pending \<Rightarrow> Pending" where
  "archiver_append limit now frame v p =
     (let p = (if pn_cache_start p + of_nat (pn_cache_bytes p) = pn_end p \<and> pn_cache_bytes p < limit
               then p\<lparr>pn_cache_bytes := pn_cache_bytes p + length frame, pn_cache := pn_cache p @ [frame]\<rparr>
               else p)
      in p\<lparr>pn_end := pn_end p + of_nat (length frame), pn_version := v,
           pn_since := get_or_insert now (pn_since p)\<rparr>)"

definition archiver_close :: "Pending \<Rightarrow> Pending" where
  "archiver_close p = p\<lparr>pn_closed := True\<rparr>"

definition take_cache :: "u64 \<Rightarrow> Pending \<Rightarrow> bytes option result \<times> Pending" where
  "take_cache through p =
     (if pn_cache_start p \<noteq> through \<or> pn_cache_bytes p = 0 then (Inr None, p)
      else
        let q = p\<lparr>pn_cache_start := pn_cache_start p + of_nat (pn_cache_bytes p), pn_cache_bytes := 0\<rparr>;
            q = (if pn_cache_start q = pn_end q then q\<lparr>pn_since := None\<rparr> else q)
        in (rbind (payload_copy (pn_cache p)) (\<lambda>b. Inr (Some b)), q\<lparr>pn_cache := []\<rparr>))"

section \<open>The worker\<close>

text \<open>What the worker saw when it last held the mutex.\<close>

record poll =
  po_end :: u64
  po_closed :: bool
  po_due :: "nat option"
  po_version :: u64

datatype worker_at =
    Polling
  | Polled poll
  | Uploading poll "bytes option"
  | Returned "unit result"

record Worker =
  wk_through :: u64
  wk_closed_published :: bool
  wk_retry :: bool
  wk_at :: worker_at

definition worker_new :: Worker where
  "worker_new = \<lparr>wk_through = 0, wk_closed_published = False, wk_retry = False, wk_at = Polling\<rparr>"

definition worker_poll :: "('s, 'v) log_storage \<Rightarrow> Pending \<Rightarrow> Worker \<Rightarrow> Worker" where
  "worker_poll L p w = w\<lparr>wk_at := Polled
     \<lparr>po_end = pn_end p, po_closed = pn_closed p,
      po_due = map_option (\<lambda>t. t + lg_batch_interval L) (pn_since p), po_version = pn_version p\<rparr>\<rparr>"

definition polled_segment :: "poll \<Rightarrow> ClosedSegment" where
  "polled_segment po = \<lparr>cs_last_version = po_version po, cs_end_offset = po_end po\<rparr>"

definition upload_due :: "('s, 'v) log_storage \<Rightarrow> nat \<Rightarrow> poll \<Rightarrow> Worker \<Rightarrow> bool" where
  "upload_due L now po w \<longleftrightarrow>
     wk_through w < po_end po \<and>
     (po_closed po \<or> wk_retry w \<or> lg_batch_bytes L \<le> po_end po - wk_through w \<or>
      (case po_due po of None \<Rightarrow> False | Some t \<Rightarrow> t \<le> now))"

definition publish_closed :: "('s, 'v) log_storage \<Rightarrow> Manifest \<Rightarrow> poll \<Rightarrow> Worker \<Rightarrow> ('s, Worker) op" where
  "publish_closed L M po w =
     (if po_closed po \<and> \<not> wk_closed_published w
      then bind_op (close_segment L M (polled_segment po)) (\<lambda>_. ret_op (w\<lparr>wk_closed_published := True\<rparr>))
      else ret_op w)"

definition worker_decide :: "('s, 'v) log_storage \<Rightarrow> Manifest \<Rightarrow> nat \<Rightarrow> poll \<Rightarrow> Pending \<Rightarrow> Worker \<Rightarrow> 's \<Rightarrow>
    Pending \<times> Worker \<times> 's" where
  "worker_decide L M now po p w s =
     (case publish_closed L M po w s of
        (Inl e, s) \<Rightarrow> (p, w\<lparr>wk_at := Returned (Inl e)\<rparr>, s)
      | (Inr w, s) \<Rightarrow>
          if wk_through w = po_end po \<and> po_closed po then
            (case mark_replicated L M (polled_segment po) s of (r, s) \<Rightarrow> (p, w\<lparr>wk_at := Returned r\<rparr>, s))
          else if upload_due L now po w then
            (case take_cache (wk_through w) p of
               (Inl e, p) \<Rightarrow> (p, w\<lparr>wk_at := Returned (Inl e)\<rparr>, s)
             | (Inr cached, p) \<Rightarrow> (p, w\<lparr>wk_at := Uploading po cached\<rparr>, s))
          else (p, w\<lparr>wk_at := Polling\<rparr>, s))"

definition upload_done :: "nat \<Rightarrow> u64 \<Rightarrow> Pending \<Rightarrow> Pending" where
  "upload_done now through p =
     (let p = (if pn_cache p = [] then p\<lparr>pn_cache_start := through\<rparr> else p)
      in if through = pn_end p then p\<lparr>pn_since := None\<rparr> else p\<lparr>pn_since := get_or_insert now (pn_since p)\<rparr>)"

definition worker_upload :: "('s, 'v) log_storage \<Rightarrow> Manifest \<Rightarrow> nat \<Rightarrow> poll \<Rightarrow> bytes option \<Rightarrow> Pending \<Rightarrow> Worker \<Rightarrow> 's \<Rightarrow>
    Pending \<times> Worker \<times> 's" where
  "worker_upload L M now po cached p w s =
     (case upload L M (wk_through w) (po_end po) cached s of
        (Inr through, s) \<Rightarrow>
          (upload_done now through p, w\<lparr>wk_retry := False, wk_through := through, wk_at := Polling\<rparr>, s)
      | (Inl e, s) \<Rightarrow> (p, w\<lparr>wk_retry := True, wk_at := Polling\<rparr>, s))"

definition worker_step :: "('s, 'v) log_storage \<Rightarrow> Manifest \<Rightarrow> nat \<Rightarrow> Pending \<Rightarrow> Worker \<Rightarrow> 's \<Rightarrow> Pending \<times> Worker \<times> 's" where
  "worker_step L M now p w s =
     (case wk_at w of
        Polling \<Rightarrow> (p, worker_poll L p w, s)
      | Polled po \<Rightarrow> worker_decide L M now po p w s
      | Uploading po cached \<Rightarrow> worker_upload L M now po cached p w s
      | Returned _ \<Rightarrow> (p, w, s))"

section \<open>The segment and its worker\<close>

text \<open>\<open>ar_logged\<close> counts the records that the session has handed over. A session hands over
  the records of its log in order, and none after it closed the worker. The worker that has
  returned leaves the cleanup of the replicas to a task of its own.\<close>

record 's archiver =
  ar_pending :: Pending
  ar_worker :: Worker
  ar_store :: 's
  ar_logged :: nat

definition archiver_init :: "u64 \<Rightarrow> 's \<Rightarrow> 's archiver" where
  "archiver_init v s = \<lparr>ar_pending = pending_new v, ar_worker = worker_new, ar_store = s, ar_logged = 0\<rparr>"

inductive archiver_step :: "('s, 'v) log_storage \<Rightarrow> Manifest \<Rightarrow> Record list \<Rightarrow> bytes list \<Rightarrow> 's archiver \<Rightarrow> 's archiver \<Rightarrow> bool"
  for L M rs bs where
  append: "ar_logged a < length rs \<Longrightarrow> \<not> pn_closed (ar_pending a) \<Longrightarrow>
     archiver_step L M rs bs a
       (a\<lparr>ar_pending := archiver_append (archiver_batch_bytes L) now (bs ! ar_logged a) (rec_version (rs ! ar_logged a)) (ar_pending a),
          ar_logged := Suc (ar_logged a)\<rparr>)"
| close: "archiver_step L M rs bs a (a\<lparr>ar_pending := archiver_close (ar_pending a)\<rparr>)"
| work: "worker_step L M now (ar_pending a) (ar_worker a) (ar_store a) = (p, w, s) \<Longrightarrow>
     archiver_step L M rs bs a (a\<lparr>ar_pending := p, ar_worker := w, ar_store := s\<rparr>)"
| cleanup: "wk_at (ar_worker a) = Returned (Inr ()) \<Longrightarrow> cleanup_segment L M (ar_store a) = (r, s) \<Longrightarrow>
     archiver_step L M rs bs a (a\<lparr>ar_store := s\<rparr>)"

abbreviation archiver_reaches :: "('s, 'v) log_storage \<Rightarrow> Manifest \<Rightarrow> Record list \<Rightarrow> bytes list \<Rightarrow> 's archiver \<Rightarrow> 's archiver \<Rightarrow> bool" where
  "archiver_reaches L M rs bs \<equiv> (archiver_step L M rs bs)\<^sup>*\<^sup>*"

section \<open>What the worker relies on\<close>

text \<open>A zone serves a range of the log exactly or not at all, and its operations leave the archive
  alone.\<close>

definition zones_read_log :: "('s, 'v) log_storage \<Rightarrow> bytes list \<Rightarrow> bool" where
  "zones_read_log L bs \<longleftrightarrow> (\<forall>z \<in> set (lg_zones L). \<forall>r start len s b s'.
     zn_read_range z r start len s = (Inr b, s') \<longrightarrow> unat start + unat len \<le> length (concat bs) \<longrightarrow>
     b = take (unat len) (drop (unat start) (concat bs)))"

definition zones_keep :: "('s, 'v) log_storage \<Rightarrow> ('s \<Rightarrow> bool) \<Rightarrow> ('s \<Rightarrow> string \<rightharpoonup> BucketObject) \<Rightarrow> bool" where
  "zones_keep L binv view \<longleftrightarrow> (\<forall>z \<in> set (lg_zones L). \<forall>r s s'. binv s \<longrightarrow>
     (\<forall>start len b. zn_read_range z r start len s = (b, s') \<longrightarrow> binv s' \<and> view s' = view s) \<and>
     (\<forall>u. zn_delete z r s = (u, s') \<longrightarrow> binv s' \<and> view s' = view s))"

text \<open>The records \<open>rs\<close> with the frames \<open>bs\<close> are the log of the segment of \<open>M\<close>; its
  objects in the archive have names that begin with \<open>base\<close>.\<close>

definition segment_log :: "('s, 'v) log_storage \<Rightarrow> Manifest \<Rightarrow> string \<Rightarrow> ('s \<Rightarrow> bool) \<Rightarrow> ('s \<Rightarrow> string \<rightharpoonup> BucketObject) \<Rightarrow>
    Record list \<Rightarrow> bytes list \<Rightarrow> bool" where
  "segment_log L M base binv view rs bs \<longleftrightarrow>
     bucket_laws (lg_archive L) binv view \<and> crypto_ok (lg_crypto L) \<and> encoded (lg_crypto L) rs bs \<and>
     consecutive None rs \<and> length (concat bs) < 2 ^ 64 \<and> (\<forall>r \<in> set rs. belongs L M r) \<and>
     manifest_key (lg_crypto L) M = Inr (base @ ''.manifest'') \<and> CHR ''.'' \<notin> set base \<and>
     zones_read_log L bs \<and> zones_keep L binv view"

lemma segment_logD:
  assumes "segment_log L M base binv view rs bs"
  shows "bucket_laws (lg_archive L) binv view" "crypto_ok (lg_crypto L)" "encoded (lg_crypto L) rs bs"
    "consecutive None rs" "length (concat bs) < 2 ^ 64" "\<forall>r \<in> set rs. belongs L M r"
    "manifest_key (lg_crypto L) M = Inr (base @ ''.manifest'')" "CHR ''.'' \<notin> set base"
    "zones_read_log L bs" "zones_keep L binv view"
    "length bs = length rs" "fits_offsets rs"
proof -
  show "length bs = length rs" using assms by (auto simp: segment_log_def encoded_def dest: list_all2_lengthD)
  with assms show "fits_offsets rs"
    using encoded_offset [of "lg_crypto L" rs bs "length rs"] by (simp add: segment_log_def fits_offsets_def)
qed (use assms in \<open>simp_all add: segment_log_def\<close>)

section \<open>Names of the objects of a segment\<close>

lemma trim_manifest: "CHR ''.'' \<notin> set base \<Longrightarrow> trim_end_matches ''.manifest'' (base @ ''.manifest'') = base"
proof -
  assume b: "CHR ''.'' \<notin> set base"
  have "strip_suffix ''.manifest'' base = None"
  proof (rule ccontr)
    assume "strip_suffix ''.manifest'' base \<noteq> None"
    then obtain t where "base = t @ ''.manifest''" by (auto simp: strip_suffix_Some_iff)
    with b show False by simp
  qed
  then have "trim_end_matches ''.manifest'' base = base" by (subst trim_end_matches.simps) simp
  then show ?thesis by (subst trim_end_matches.simps) (simp add: strip_suffix_append)
qed

lemma replace_skip: "CHR ''.'' \<notin> set base \<Longrightarrow>
    str_replace (CHR ''.'' # p) to (base @ rest) = base @ str_replace (CHR ''.'' # p) to rest"
  by (induction base) (auto simp: str_replace_def starts_with_def)

lemma replace_manifest: "CHR ''.'' \<notin> set base \<Longrightarrow> str_replace ''.manifest'' to (base @ ''.manifest'') = base @ to"
  unfolding replace_skip by (simp add: str_replace_def starts_with_def)

lemma segment_names:
  assumes "segment_log L M base binv view rs bs"
  shows "batch_prefix (lg_crypto L) M = Inr (base @ ''~'')"
    and "manifest_marker (lg_crypto L) M kind = Inr (base @ ''.'' @ kind)"
  using segment_logD(7,8) [OF assms] by (simp_all add: batch_prefix_def manifest_marker_def trim_manifest replace_manifest)

text \<open>The names of markers and of indexes are not those of batches.\<close>

lemma not_batch_marker: "\<not> starts_with (base @ ''~'') (base @ ''.'' @ kind)"
  by (simp add: starts_with_iff)

lemma not_batch_index:
  assumes "segment_log L M base binv view rs bs" "object_name (lg_crypto L) (ss_prefix (mf_stream M)) = Inr name"
  shows "\<not> starts_with (base @ ''~'') (name @ ''index~'' @ rest)"
proof -
  have "base @ ''.manifest'' = name @ ''log~'' @ mf_id M @ ''.manifest''"
    using segment_logD(7) [OF assms(1)] assms(2) by (simp add: manifest_key_def)
  then have "base = name @ ''log~'' @ mf_id M"
    using append_same_eq [of base "''.manifest''" "name @ ''log~'' @ mf_id M"] by (simp only: append_assoc simp_thms)
  then show ?thesis by (simp add: starts_with_iff)
qed

definition batch_name :: "string \<Rightarrow> Record list \<Rightarrow> nat \<Rightarrow> nat \<Rightarrow> string" where
  "batch_name base rs a b = base @ ''~'' @ show_u64_020 (of_nat (frame_offset rs a)) @ ''~'' @
     show_u64_020 (of_nat (frame_offset rs b)) @ ''.batch''"

lemma batch_key_name:
  assumes "segment_log L M base binv view rs bs"
  shows "batch_key (lg_crypto L) M (of_nat (frame_offset rs a)) (of_nat (frame_offset rs b)) = Inr (batch_name base rs a b)"
  by (simp add: batch_key_def batch_name_def segment_names(1) [OF assms])

section \<open>What the archive holds\<close>

text \<open>The batches hold runs of frames of the log, stored under the offsets they cover, and together
  they cover the first \<open>c\<close> records and no more.\<close>

definition archive_holds :: "string \<Rightarrow> Record list \<Rightarrow> bytes list \<Rightarrow> (string \<rightharpoonup> BucketObject) \<Rightarrow> nat \<Rightarrow> bool" where
  "archive_holds base rs bs v c \<longleftrightarrow> c \<le> length rs \<and>
     (\<forall>key x. v key = Some x \<longrightarrow> starts_with (base @ ''~'') key \<longrightarrow>
        (\<exists>a b. a < b \<and> b \<le> c \<and> key = batch_name base rs a b \<and> obj_bytes x = concat (take (b - a) (drop a bs)))) \<and>
     (\<forall>i < c. \<exists>a b. a \<le> i \<and> i < b \<and> b \<le> c \<and> v (batch_name base rs a b) \<noteq> None)"

lemma batch_name_inj:
  assumes "fits_offsets rs" "a < b" "b \<le> length rs" "a' < b'" "b' \<le> length rs" "batch_name base rs a b = batch_name base rs a' b'"
  shows "a = a' \<and> b = b'"
proof -
  have "batch_range (base @ ''~'') (batch_name base rs i j) = Inr (of_nat (frame_offset rs i), of_nat (frame_offset rs j))"
    if "i < j" "j \<le> length rs" for i j
    using batch_range_key [OF offset_less [OF assms(1) that], of "base @ ''~''"] by (simp only: batch_name_def append_assoc)
  from this [OF assms(2,3)] this [OF assms(4,5)] assms(6)
  have "(of_nat (frame_offset rs a) :: u64) = of_nat (frame_offset rs a')" "(of_nat (frame_offset rs b) :: u64) = of_nat (frame_offset rs b')"
    by simp_all
  with offset_inj [OF assms(1), of a a'] offset_inj [OF assms(1), of b b'] assms(2-5) show ?thesis by simp
qed

lemma starts_batch_name: "starts_with (base @ ''~'') (batch_name base rs a b)"
  by (simp add: batch_name_def starts_with_iff)

lemma archive_batches_state: "archive_batches L M pre keys m s = (Inr r, s') \<Longrightarrow>
    s' = s \<and> (\<forall>key \<in> set keys. \<exists>x. bk_get (lg_archive L) key s = Inr (Some x))"
proof (induction keys arbitrary: m)
  case (Cons key keys)
  from Cons.prems obtain x y where "bk_get (lg_archive L) key s = Inr (Some x)" "archive_batches L M pre keys y s = (Inr r, s')"
    by (auto simp: op_simps archive_get_def result_simps split: prod.splits)
  with Cons.IH show ?case by auto
qed (simp add: ret_op_def)

lemma archived_complete:
  assumes "segment_log L M base binv view rs bs" "binv s" "archive_holds base rs bs (view s) c"
    and keys: "bk_list (lg_archive L) (base @ ''~'') s = Inr keys" "\<forall>key \<in> set keys. \<exists>x. bk_get (lg_archive L) key s = Inr (Some x)"
  shows "archived L M s = (Inr (of_nat (frame_offset rs c), take c rs), s)"
proof -
  note log = segment_logD [OF assms(1)]
  let ?pre = "base @ ''~''"
  have ks: "set keys = {k \<in> dom (view s). starts_with ?pre k}"
    using bucket_laws.list_view [OF log(1) assms(2) keys(1)] .
  have "\<exists>iv. batch_at L ?pre rs bs s key iv \<and> snd iv \<le> c" if key: "key \<in> set keys" for key
  proof -
    from assms(5) key obtain x where x: "bk_get (lg_archive L) key s = Inr (Some x)" by blast
    then have "view s key = Some x" using bucket_laws.get_view [OF log(1) assms(2)] by blast
    with assms(3) key ks obtain a b where ab: "a < b" "b \<le> c" "key = batch_name base rs a b"
      "obj_bytes x = concat (take (b - a) (drop a bs))" "c \<le> length rs"
      unfolding archive_holds_def by blast
    then have "x = \<lparr>generation = generation x, obj_bytes = concat (take (b - a) (drop a bs))\<rparr>" by simp
    with x ab have "batch_at L ?pre rs bs s key (a, b)" by (auto simp: batch_at_def batch_name_def intro!: exI [of _ "generation x"])
    with ab(2) show ?thesis by (intro exI [of _ "(a, b)"]) simp
  qed
  then obtain f where f: "batch_at L ?pre rs bs s key (f key)" "snd (f key) \<le> c" if "key \<in> set keys" for key by metis
  have all: "list_all2 (batch_at L ?pre rs bs s) keys (map f keys)" using f(1) by (simp add: list_all2_conv_all_nth)
  have "(\<Union>(a, b) \<in> set (map f keys). {a ..< b}) = {0 ..< c}"
  proof (intro equalityI subsetI)
    fix i
    assume "i \<in> (\<Union>(a, b) \<in> set (map f keys). {a ..< b})"
    then obtain key where "key \<in> set keys" "i < snd (f key)" by auto
    with f(2) [of key] show "i \<in> {0 ..< c}" by simp
  next
    fix i
    assume "i \<in> {0 ..< c}"
    then obtain a b where ab: "a \<le> i" "i < b" "b \<le> c" "view s (batch_name base rs a b) \<noteq> None"
      using assms(3) unfolding archive_holds_def by auto
    then have k: "batch_name base rs a b \<in> set keys" unfolding ks by (auto simp: starts_batch_name)
    obtain a' b' where ab': "f (batch_name base rs a b) = (a', b')" by (cases "f (batch_name base rs a b)")
    have n: "batch_name base rs a b = batch_name base rs a' b'" "a' < b'" "b' \<le> length rs"
      using f(1) [OF k] unfolding ab' batch_at_def by (auto simp: batch_name_def)
    have "a < b" "b \<le> length rs" using ab assms(3) by (simp_all add: archive_holds_def)
    from batch_name_inj [OF log(12) this n(2,3,1)] have "a' = a \<and> b' = b" by simp
    with ab(1,2) ab' k show "i \<in> (\<Union>(a, b) \<in> set (map f keys). {a ..< b})" by (force intro!: bexI [of _ "(a, b)"])
  qed
  from archived_layout [OF log(2-6) segment_names(1) [OF assms(1)] keys(1) all this] show ?thesis .
qed

lemma archived_holds:
  assumes "segment_log L M base binv view rs bs" "binv s" "archive_holds base rs bs (view s) c"
    and "archived L M s = (Inr (e, out), s')"
  shows "e = of_nat (frame_offset rs c) \<and> out = take c rs \<and> s' = s"
proof -
  from assms(4) obtain keys m where keys: "bk_list (lg_archive L) (base @ ''~'') s = Inr keys"
    and m: "archive_batches L M (base @ ''~'') keys [] s = (Inr m, s')"
    by (auto simp: archived_def op_simps archive_list_def segment_names(1) [OF assms(1)])
  have "\<forall>key \<in> set keys. \<exists>x. bk_get (lg_archive L) key s = Inr (Some x)" using archive_batches_state [OF m] by blast
  from archived_complete [OF assms(1-3) keys this] assms(4) show ?thesis by simp
qed

text \<open>The archive answers every request in the state \<open>s\<close>.\<close>

definition archive_answers :: "('s, 'v) log_storage \<Rightarrow> 's \<Rightarrow> bool" where
  "archive_answers L s \<longleftrightarrow> (\<forall>k. is_ok (bk_get (lg_archive L) k s)) \<and> (\<forall>p. is_ok (bk_list (lg_archive L) p s))"

lemma archived_answers:
  assumes "segment_log L M base binv view rs bs" "binv s" "archive_holds base rs bs (view s) c" "archive_answers L s"
  shows "archived L M s = (Inr (of_nat (frame_offset rs c), take c rs), s)"
proof -
  note log = segment_logD [OF assms(1)]
  from assms(4) obtain keys where keys: "bk_list (lg_archive L) (base @ ''~'') s = Inr keys"
    by (auto simp: archive_answers_def is_ok_iff)
  have "\<exists>x. bk_get (lg_archive L) key s = Inr (Some x)" if "key \<in> set keys" for key
  proof -
    from assms(4) obtain got where got: "bk_get (lg_archive L) key s = Inr got" unfolding archive_answers_def is_ok_iff by blast
    moreover have "view s key \<noteq> None" using bucket_laws.list_view [OF log(1) assms(2) keys] that by auto
    ultimately show ?thesis using bucket_laws.get_view [OF log(1) assms(2) got] by auto
  qed
  then show ?thesis by (intro archived_complete [OF assms(1-3) keys]) blast
qed

section \<open>Writing to the archive\<close>

lemma archive_create_view:
  assumes "bucket_laws (lg_archive L) binv view" "binv s" "archive_create L key b msg s = (r, s')"
  shows "binv s'"
    and "view s' = view s \<or> view s key = None \<and> (\<exists>g. view s' = (view s)(key \<mapsto> \<lparr>generation = g, obj_bytes = b\<rparr>))"
    and "r = Inr () \<Longrightarrow> \<exists>x. view s' key = Some x \<and> obj_bytes x = b"
proof -
  obtain c where c: "replace (lg_archive L) key None b s = (c, s')" and r: "r = Inr () \<longrightarrow> c = Inr True"
    using assms(3) by (cases "replace (lg_archive L) key None b s")
      (auto simp: archive_create_def bind_op_def ensure_op_def ret_op_def split: sum.splits if_splits)
  show "binv s'" using bucket_laws.replace_inv [OF assms(1,2) c] .
  show "view s' = view s \<or> view s key = None \<and> (\<exists>g. view s' = (view s)(key \<mapsto> \<lparr>generation = g, obj_bytes = b\<rparr>))"
    using bucket_laws.replace_view [OF assms(1,2) c] by (auto simp: swapped_def)
  assume "r = Inr ()"
  then show "\<exists>x. view s' key = Some x \<and> obj_bytes x = b"
    using bucket_laws.replace_True(1) [OF assms(1,2)] c r by simp
qed

lemma archive_create_other:
  assumes "segment_log L M base binv view rs bs" "binv s" "archive_create L key b msg s = (r, s')"
    and "archive_holds base rs bs (view s) c" "\<not> starts_with (base @ ''~'') key"
  shows "binv s' \<and> view s \<subseteq>\<^sub>m view s' \<and> archive_holds base rs bs (view s') c"
proof -
  note v = archive_create_view [OF segment_logD(1) [OF assms(1)] assms(2,3)]
  have ne: "batch_name base rs x y \<noteq> key" for x y using assms(5) starts_batch_name by metis
  have "archive_holds base rs bs ((view s)(key \<mapsto> y)) c" for y
    using assms(4,5) unfolding archive_holds_def by (simp add: ne)
  with v(1,2) assms(4) show ?thesis by (auto simp: map_le_def)
qed

lemma index_batch_holds:
  assumes "segment_log L M base binv view rs bs" "binv s" "index_batch L M key b s = (r, s')"
    and "archive_holds base rs bs (view s) c"
  shows "binv s' \<and> view s \<subseteq>\<^sub>m view s' \<and> archive_holds base rs bs (view s') c"
proof (cases "s' = s")
  case True
  with assms show ?thesis by simp
next
  case False
  obtain es start where es: "index_entries 0 (projr (frames_decode (lg_crypto L) b)) = (es, start)" by fastforce
  from assms(3) False obtain name bytes n1 n2 msg where
    "object_name (lg_crypto L) (ss_prefix (mf_stream M)) = Inr name"
    and "archive_create L (name @ ''index~'' @ show_u64_020 n1 @ ''~'' @ show_u64_020 n2 @ ''~'' @ mf_id M @ ''.idx'') bytes msg s = (r, s')"
    using es by (simp add: index_batch_def bind_op_def lift_op_def ensure_op_def Let_def split: sum.splits if_splits prod.splits list.splits)
  with archive_create_other [OF assms(1,2) _ assms(4)] not_batch_index [OF assms(1)] show ?thesis by blast
qed

lemma slice_length:
  assumes "segment_log L M base binv view rs bs" "a \<le> b" "b \<le> length rs"
  shows "length (concat (take (b - a) (drop a bs))) = frame_offset rs b - frame_offset rs a"
    and "take (frame_offset rs b - frame_offset rs a) (concat (drop a bs)) = concat (take (b - a) (drop a bs))"
proof -
  have "take b bs = take a bs @ take (b - a) (drop a bs)" using assms(2) by (metis le_add_diff_inverse take_add)
  then have "length (concat (take b bs)) = length (concat (take a bs)) + length (concat (take (b - a) (drop a bs)))" by simp
  then show l: "length (concat (take (b - a) (drop a bs))) = frame_offset rs b - frame_offset rs a"
    using encoded_offset [OF segment_logD(2,3) [OF assms(1)]] assms(2,3) by simp
  have "concat (drop a bs) = concat (take (b - a) (drop a bs)) @ concat (drop (b - a) (drop a bs))"
    by (metis append_take_drop_id concat_append)
  with l show "take (frame_offset rs b - frame_offset rs a) (concat (drop a bs)) = concat (take (b - a) (drop a bs))" by simp
qed

lemma offset_add:
  assumes "fits_offsets rs" "a \<le> b" "b \<le> length rs"
  shows "checked_add (of_nat (frame_offset rs a)) (of_nat (frame_offset rs b - frame_offset rs a)) =
    Some (of_nat (frame_offset rs b) :: u64)"
proof -
  have le: "frame_offset rs a \<le> frame_offset rs b" "frame_offset rs b < 2 ^ 64"
    using frame_offset_mono [of a b rs] frame_offset_mono [of b "length rs" rs] assms by (simp_all add: fits_offsets_def)
  from le(1) obtain d where "frame_offset rs b = frame_offset rs a + d" using le_Suc_ex by blast
  with le show ?thesis by (simp add: checked_add_Some_iff unat_of_nat flip: of_nat_add)
qed

lemma holds_batch:
  assumes "archive_holds base rs bs v c" "t \<le> c" "t < t'" "t' \<le> length rs"
    and "obj_bytes x = concat (take (t' - t) (drop t bs))"
  shows "archive_holds base rs bs (v(batch_name base rs t t' \<mapsto> x)) (max c t')"
proof -
  let ?v = "v(batch_name base rs t t' \<mapsto> x)"
  have "\<exists>a b. a \<le> i \<and> i < b \<and> b \<le> max c t' \<and> ?v (batch_name base rs a b) \<noteq> None" if "i < max c t'" for i
  proof (cases "i < c")
    case True
    with assms(1) obtain a b where "a \<le> i" "i < b" "b \<le> c" "v (batch_name base rs a b) \<noteq> None"
      unfolding archive_holds_def by blast
    then show ?thesis by (intro exI [of _ a] exI [of _ b]) auto
  next
    case False
    with that assms(2) show ?thesis by (intro exI [of _ t] exI [of _ t']) auto
  qed
  moreover have "\<exists>a b. a < b \<and> b \<le> max c t' \<and> key = batch_name base rs a b \<and> obj_bytes y = concat (take (b - a) (drop a bs))"
    if "?v key = Some y" "starts_with (base @ ''~'') key" for key y
  proof (cases "key = batch_name base rs t t'")
    case True
    with that assms(3,5) show ?thesis by (intro exI [of _ t] exI [of _ t']) auto
  next
    case False
    with that(1) have "v key = Some y" by simp
    with that(2) assms(1) obtain a b where "a < b" "b \<le> c" "key = batch_name base rs a b" "obj_bytes y = concat (take (b - a) (drop a bs))"
      unfolding archive_holds_def by blast
    then show ?thesis by (intro exI [of _ a] exI [of _ b]) auto
  qed
  ultimately show ?thesis using assms(1,4) unfolding archive_holds_def by (simp add: max_def)
qed

lemma put_batch_holds:
  assumes "segment_log L M base binv view rs bs" "binv s" "archive_holds base rs bs (view s) c"
    and t: "t \<le> c" "t < t'" "t' \<le> length rs"
    and "put_batch L M (of_nat (frame_offset rs t)) (concat (take (t' - t) (drop t bs))) s = (r, s')"
  shows "binv s' \<and> view s \<subseteq>\<^sub>m view s' \<and>
    (\<exists>c'. c \<le> c' \<and> c' \<le> max c t' \<and> archive_holds base rs bs (view s') c' \<and> (r = Inr () \<longrightarrow> t' \<le> c'))"
proof -
  note log = segment_logD [OF assms(1)]
  let ?b = "concat (take (t' - t) (drop t bs))" and ?key = "batch_name base rs t t'"
  have "put_batch L M (of_nat (frame_offset rs t)) ?b =
      bind_op (archive_create L ?key ?b ''conflicting archive batch'') (\<lambda>_. index_batch L M ?key ?b)"
    using offset_add [OF log(12), of t t'] t
    by (simp add: fun_eq_iff put_batch_def slice_length(1) [OF assms(1)] bind_op_def lift_op_def batch_key_name [OF assms(1)])
  with assms(7) obtain r1 s1 where c: "archive_create L ?key ?b ''conflicting archive batch'' s = (r1, s1)"
    and rest: "r1 = Inr () \<and> index_batch L M ?key ?b s1 = (r, s') \<or> r1 \<noteq> Inr () \<and> r \<noteq> Inr () \<and> s' = s1"
    by (cases "archive_create L ?key ?b ''conflicting archive batch'' s") (auto simp: bind_op_def split: sum.splits)
  note v = archive_create_view [OF log(1) assms(2) c]
  have "\<exists>c'. c \<le> c' \<and> c' \<le> max c t' \<and> archive_holds base rs bs (view s1) c' \<and> (r1 = Inr () \<longrightarrow> t' \<le> c')"
    using v(2)
  proof
    assume same: "view s1 = view s"
    have "t' \<le> c" if "r1 = Inr ()"
    proof -
      from v(3) [OF that] same obtain x where "view s ?key = Some x" by auto
      with assms(3) obtain a b where ab: "a < b" "b \<le> c" "?key = batch_name base rs a b"
        unfolding archive_holds_def using starts_batch_name by blast
      have "b \<le> length rs" using ab(2) assms(3) by (simp add: archive_holds_def)
      from batch_name_inj [OF log(12) t(2,3) ab(1) this ab(3)] ab(2) show ?thesis by simp
    qed
    with same assms(3) show ?thesis by auto
  next
    assume "view s ?key = None \<and> (\<exists>g. view s1 = (view s)(?key \<mapsto> \<lparr>generation = g, obj_bytes = ?b\<rparr>))"
    then obtain g where "view s1 = (view s)(?key \<mapsto> \<lparr>generation = g, obj_bytes = ?b\<rparr>)" by blast
    with holds_batch [OF assms(3) t, of "\<lparr>generation = g, obj_bytes = ?b\<rparr>"] show ?thesis by (intro exI [of _ "max c t'"]) simp
  qed
  then obtain c' where c': "c \<le> c'" "c' \<le> max c t'" "archive_holds base rs bs (view s1) c'" "r1 = Inr () \<longrightarrow> t' \<le> c'" by blast
  have le: "view s \<subseteq>\<^sub>m view s1" using v(2) by (auto simp: map_le_def)
  from rest show ?thesis
  proof
    assume "r1 = Inr () \<and> index_batch L M ?key ?b s1 = (r, s')"
    with index_batch_holds [OF assms(1) v(1) _ c'(3)] c' le show ?thesis by (blast intro: map_le_trans)
  next
    assume "r1 \<noteq> Inr () \<and> r \<noteq> Inr () \<and> s' = s1"
    with v(1) c' le show ?thesis by blast
  qed
qed

section \<open>One upload\<close>

lemma batch_length_records:
  assumes "\<forall>r \<in> set rs. belongs L M r"
  shows "a + k \<le> length rs \<Longrightarrow> \<exists>j \<le> k. (0 < k \<longrightarrow> 0 < j) \<and>
    batch_length L M len (take k (drop a rs)) = Inr (len + (frame_offset rs (a + j) - frame_offset rs a))"
proof (induction k arbitrary: a len)
  case (Suc k)
  then have a: "a < length rs" by simp
  have d: "take (Suc k) (drop a rs) = rs ! a # take k (drop (Suc a) rs)" using a by (simp add: Cons_nth_drop_Suc [symmetric])
  have b: "belongs L M (rs ! a)" using assms a by simp
  note o = frame_offset_Suc [OF a]
  show ?case
  proof (cases "unat (lg_batch_bytes L) \<le> len + frame_size (rs ! a)")
    case True
    with b show ?thesis unfolding d by (intro exI [of _ 1]) (auto simp: belongs_def o)
  next
    case False
    from Suc.IH [of "Suc a" "len + frame_size (rs ! a)"] Suc.prems obtain j where "j \<le> k"
      "batch_length L M (len + frame_size (rs ! a)) (take k (drop (Suc a) rs)) =
        Inr (len + frame_size (rs ! a) + (frame_offset rs (Suc a + j) - frame_offset rs (Suc a)))" by auto
    with b False show ?thesis unfolding d
      using frame_offset_mono [of "Suc a" "Suc a + j" rs] by (intro exI [of _ "Suc j"]) (auto simp: belongs_def o)
  qed
qed simp

text \<open>Bytes of the log from a frame boundary on decode to the records that they hold completely.\<close>

lemma decode_from:
  assumes "segment_log L M base binv view rs bs" "t \<le> length rs"
  shows "\<exists>k. t + k \<le> length rs \<and> frames_decode (lg_crypto L) (take n (concat (drop t bs))) = Inr (take k (drop t rs)) \<and>
    frame_offset rs (t + k) - frame_offset rs t \<le> n"
proof -
  note log = segment_logD [OF assms(1)]
  have e: "encoded (lg_crypto L) (drop t rs) (drop t bs)"
    using encoded_slice [OF log(3), of "length rs - t" t] log(11) assms(2) by simp
  from frames_from_log [OF log(2) e consecutive_drop [OF log(4)], of n] obtain k where
    k: "k \<le> length (drop t rs)" "frames_decode (lg_crypto L) (take n (concat (drop t bs))) = Inr (take k (drop t rs))"
    "length (concat (take k (drop t bs))) \<le> n" unfolding frames_decode_def by blast
  have "length (concat (take k (drop t bs))) = frame_offset rs (t + k) - frame_offset rs t"
    using slice_length(1) [OF assms(1), of t "t + k"] k(1) assms(2) by simp
  with k assms(2) show ?thesis by (intro exI [of _ k]) auto
qed

lemma read_range_log:
  assumes "segment_log L M base binv view rs bs" "binv s"
    and "read_range_from L reps start len s = (r, s')" "unat start + unat len \<le> length (concat bs)"
  shows "binv s' \<and> view s' = view s \<and> (\<forall>b. r = Inr b \<longrightarrow> b = take (unat len) (drop (unat start) (concat bs)))"
  using assms(2,3)
proof (induction reps arbitrary: s)
  case Nil
  then show ?case by (auto simp: lift_op_def)
next
  case (Cons rep reps)
  note log = segment_logD [OF assms(1)]
  show ?case
  proof (cases "zone_of L rep")
    case (Inl e)
    with Cons.prems show ?thesis by (auto simp: bind_op_def lift_op_def)
  next
    case (Inr z)
    then have z: "z \<in> set (lg_zones L)" by (auto simp: zone_of_def context_opt_Inr_iff find_Some_iff)
    obtain r1 s1 where zr: "zn_read_range z rep start len s = (r1, s1)" by fastforce
    have keep: "binv s1" "view s1 = view s"
      using log(10) z zr Cons.prems(1) unfolding zones_keep_def by blast+
    show ?thesis
    proof (cases r1)
      case (Inl e)
      with Inr zr Cons.prems(2) have "read_range_from L reps start len s1 = (r, s')"
        by (simp add: bind_op_def lift_op_def try_op_def)
      from Cons.IH [OF keep(1) this] keep(2) show ?thesis by simp
    next
      case (Inr b)
      with \<open>zone_of L rep = Inr z\<close> zr Cons.prems(2) have "r = Inr b" "s' = s1"
        by (simp_all add: bind_op_def lift_op_def try_op_def ret_op_def)
      moreover have "b = take (unat len) (drop (unat start) (concat bs))"
        using log(9) z zr assms(4) unfolding Inr zones_read_log_def by blast
      ultimately show ?thesis using keep by simp
    qed
  qed
qed

lemma drop_offset:
  assumes "segment_log L M base binv view rs bs" "t \<le> length rs"
  shows "drop (frame_offset rs t) (concat bs) = concat (drop t bs)"
    and "frame_offset rs t \<le> length (concat bs)"
proof -
  have l: "length (concat (take t bs)) = frame_offset rs t"
    using encoded_offset [OF segment_logD(2,3) [OF assms(1)] assms(2)] .
  moreover have c: "concat bs = concat (take t bs) @ concat (drop t bs)" by (metis append_take_drop_id concat_append)
  ultimately show "drop (frame_offset rs t) (concat bs) = concat (drop t bs)" by (metis append_eq_conv_conj)
  show "frame_offset rs t \<le> length (concat bs)" using l c by simp
qed

lemma spool_pieces_concat: "spool_pieces cs sp = Inr sp' \<Longrightarrow> spool_bytes sp' = spool_bytes sp @ concat cs"
proof (induction cs arbitrary: sp)
  case (Cons c cs)
  from Cons.prems obtain sp1 where sp1: "spool_write_all c sp = (Inr (), sp1)" "spool_pieces cs sp1 = Inr sp'"
    by (auto split: prod.splits sum.splits)
  from sp1(1) have "spool_bytes sp1 = spool_bytes sp @ c"
    by (auto simp: spool_write_all_def spool_write_def spool_bytes_def Let_def split: if_splits option.splits)
  with Cons.IH [OF sp1(2)] show ?case by simp
qed simp

lemma payload_copy_concat: "payload_copy cs = Inr b \<Longrightarrow> b = concat cs"
  by (auto simp: payload_copy_def rbind_Inr_iff spool_finish_bytes dest!: spool_pieces_concat)

lemma read_batch_log:
  assumes "segment_log L M base binv view rs bs" "binv s" "t < m" "m \<le> length rs"
    and "read_batch L M (of_nat (frame_offset rs t)) (of_nat (frame_offset rs m)) s = (r, s')"
  shows "binv s' \<and> view s' = view s \<and>
    (\<forall>b. r = Inr b \<longrightarrow> (\<exists>n \<le> frame_offset rs m - frame_offset rs t. b = take n (concat (drop t bs))))"
proof -
  note log = segment_logD [OF assms(1)]
  let ?s = "of_nat (frame_offset rs t) :: u64" and ?e = "of_nat (frame_offset rs m) :: u64"
  define q where "q = min (?e - ?s) (max (lg_batch_bytes L) (of_nat HEADER))"
  have us: "unat ?s = frame_offset rs t" "unat ?e = frame_offset rs m"
    using offset_small [OF log(12)] assms(3,4) by simp_all
  have lt: "?s \<le> ?e" using offset_less [OF log(12) assms(3,4)] by simp
  have ud: "unat (?e - ?s) = frame_offset rs m - frame_offset rs t" using lt us by (simp add: unat_sub)
  have le: "frame_offset rs t \<le> frame_offset rs m" "frame_offset rs m \<le> length (concat bs)"
    using frame_offset_mono [of t m rs] drop_offset(2) [OF assms(1,4)] assms(3) by simp_all
  have q: "unat q \<le> frame_offset rs m - frame_offset rs t" unfolding ud [symmetric] by (simp add: q_def flip: word_le_nat_alt)
  note rb = read_batch_def [of L M ?s ?e, folded q_def, unfolded Let_def]
  obtain r1 s1 where rr: "log_read_range L M ?s q s = (r1, s1)" by fastforce
  have b1: "unat ?s + unat q \<le> length (concat bs)" using q le us by simp
  note R1 = read_range_log [OF assms(1,2) rr [unfolded log_read_range_def] b1]
  show ?thesis
  proof (cases r1)
    case (Inl e)
    with rr assms(5) have "r = Inl e" "s' = s1" by (auto simp: rb bind_op_def)
    with R1 show ?thesis by simp
  next
    case (Inr b)
    with R1 us drop_offset(1) [OF assms(1), of t] assms(3,4) have b: "b = take (unat q) (concat (drop t bs))" by simp
    show ?thesis
    proof (cases "\<exists>n. frame_length b = Inr n \<and> q < of_nat n \<and> (of_nat n :: u64) \<le> ?e - ?s")
      case False
      with rr Inr assms(5) have "s' = s1" "r = Inr b \<or> (\<exists>e. r = Inl e)"
        by (auto simp: rb bind_op_def lift_op_def ret_op_def ensure_op_def not_le split: sum.splits if_splits)
      with R1 b q show ?thesis by auto
    next
      case True
      then obtain n where n: "frame_length b = Inr n" "q < of_nat n" "(of_nat n :: u64) \<le> ?e - ?s" by blast
      then have nq: "\<not> (of_nat n :: u64) \<le> q" by simp
      define len where "len = (of_nat n :: u64)"
      obtain r2 s2 where rr2: "log_read_range L M (?s + q) (len - q) s1 = (r2, s2)" by fastforce
      have ul: "unat q < unat len" "unat len \<le> frame_offset rs m - frame_offset rs t"
        using n(2,3) ud by (simp_all add: len_def word_less_nat_alt word_le_nat_alt)
      have u2: "unat (len - q) = unat len - unat q" using ul(1) by (simp add: unat_sub word_le_nat_alt)
      have u3: "unat (?s + q) = frame_offset rs t + unat q"
        using us q le log(5) by (subst unat_add_lem [THEN iffD1]) simp_all
      have b2: "unat (?s + q) + unat (len - q) \<le> length (concat bs)" unfolding u2 u3 using ul le by simp
      have "binv s1" using R1 by simp
      note R2 = read_range_log [OF assms(1) this rr2 [unfolded log_read_range_def] b2]
      have "drop (frame_offset rs t + unat q) (concat bs) = drop (unat q) (concat (drop t bs))"
        using drop_offset(1) [OF assms(1), of t] assms(3,4) by (metis add.commute drop_drop less_imp_le le_trans)
      with R2 u2 u3 have tail: "tail = take (unat len - unat q) (drop (unat q) (concat (drop t bs)))" if "r2 = Inr tail" for tail
        using that by simp
      have "take (unat q) (concat (drop t bs)) @ take (unat len - unat q) (drop (unat q) (concat (drop t bs))) =
          take (unat len) (concat (drop t bs))"
        using ul(1) take_add [of "unat q" "unat len - unat q" "concat (drop t bs)"] by simp
      with tail b have "x = take (unat len) (concat (drop t bs))" if "r2 = Inr tail" "payload_copy [b, tail] = Inr x" for tail x
        using payload_copy_concat [OF that(2)] that(1) by simp
      moreover have "s' = s2 \<and> (\<forall>x. r = Inr x \<longrightarrow> (\<exists>tail. r2 = Inr tail \<and> payload_copy [b, tail] = Inr x))"
        using assms(5) rr Inr n rr2 unfolding len_def
        by (auto simp: rb bind_op_def lift_op_def ret_op_def ensure_op_def nq split: sum.splits)
      ultimately have "s' = s2" "\<forall>x. r = Inr x \<longrightarrow> x = take (unat len) (concat (drop t bs))" by blast+
      with R1 R2 ul(2) show ?thesis by (auto intro!: exI [of _ "unat len"])
    qed
  qed
qed

lemma archived_state: "archived L M s = (r, s') \<Longrightarrow> s' = s"
proof -
  have "archive_batches L M pre keys m s = (r, s') \<Longrightarrow> s' = s" for pre keys m r
    by (induction keys arbitrary: m)
      (auto simp: bind_op_def lift_op_def archive_get_def ensure_op_def ret_op_def split: sum.splits if_splits prod.splits)
  then show "archived L M s = (r, s') \<Longrightarrow> s' = s"
    by (auto simp: archived_def bind_op_def lift_op_def archive_list_def split: sum.splits prod.splits)
qed

text \<open>The bytes that an upload starts from lie in the log; when the replicas are gone, the archive
  tells how far another worker got.\<close>

lemma archive_source_holds:
  assumes log: "segment_log L M base binv view rs bs" and s: "binv s" "archive_holds base rs bs (view s) c"
    and t: "t \<le> c" "c \<le> n" "t < m" "m \<le> n" "n \<le> length rs"
    and cached: "\<forall>b. cached = Some b \<longrightarrow> (\<exists>k. t + k \<le> n \<and> b = concat (take k (drop t bs)))"
    and src: "archive_source L M (of_nat (frame_offset rs t)) (of_nat (frame_offset rs m)) cached s = (src, s1)"
  shows "binv s1 \<and> view s1 = view s \<and>
    (\<forall>through. src = Inr (Inl through) \<longrightarrow> (\<exists>t'. t < t' \<and> t' \<le> c \<and> through = of_nat (frame_offset rs t'))) \<and>
    (\<forall>b. src = Inr (Inr b) \<longrightarrow> (\<exists>q. b = take q (concat (drop t bs)) \<and> q \<le> frame_offset rs n - frame_offset rs t))"
proof (cases cached)
  case (Some b)
  with cached obtain k where k: "t + k \<le> n" "b = concat (take k (drop t bs))" by blast
  have "frame_offset rs (t + k) - frame_offset rs t \<le> frame_offset rs n - frame_offset rs t"
    using frame_offset_mono [OF k(1), of rs] by simp
  moreover have "b = take (frame_offset rs (t + k) - frame_offset rs t) (concat (drop t bs))"
    using slice_length(2) [OF log, of t "t + k"] k t(5) by simp
  ultimately show ?thesis using Some src s(1) by (auto simp: archive_source_def ret_op_def)
next
  case None
  note facts = segment_logD [OF log]
  let ?s = "of_nat (frame_offset rs t) :: u64" and ?e = "of_nat (frame_offset rs m) :: u64"
  obtain rb s2 where rb: "read_batch L M ?s ?e s = (rb, s2)" by fastforce
  have "m \<le> length rs" using t by simp
  note R = read_batch_log [OF log s(1) t(3) this rb]
  show ?thesis
  proof (cases rb)
    case (Inr b)
    with None rb src have eq: "src = Inr (Inr b)" "s1 = s2"
      by (auto simp: archive_source_def bind_op_def try_op_def ret_op_def)
    from R Inr obtain q where q: "q \<le> frame_offset rs m - frame_offset rs t" "b = take q (concat (drop t bs))" by blast
    moreover have "frame_offset rs m - frame_offset rs t \<le> frame_offset rs n - frame_offset rs t"
      using frame_offset_mono [OF t(4), of rs] by simp
    ultimately have "\<exists>q. b = take q (concat (drop t bs)) \<and> q \<le> frame_offset rs n - frame_offset rs t"
      using le_trans by blast
    with R eq show ?thesis by simp
  next
    case (Inl e)
    obtain ra s3 where ra: "archived L M s2 = (ra, s3)" by fastforce
    have s3: "s3 = s2" using archived_state [OF ra] .
    have res: "archive_source L M ?s ?e cached s = (case ra of
        Inl e' \<Rightarrow> (Inl e', s2) | Inr (x, out) \<Rightarrow> if ?s < x then (Inr (Inl (min x ?e)), s2) else (Inl e, s2))"
      using None rb Inl ra s3
      by (auto simp: archive_source_def bind_op_def try_op_def ret_op_def lift_op_def split: sum.splits prod.splits)
    have st: "s1 = s2" "src \<noteq> Inr (Inr b)" for b
      using src res by (auto split: sum.splits prod.splits if_splits)
    have "\<exists>t'. t < t' \<and> t' \<le> c \<and> through = of_nat (frame_offset rs t')" if th: "src = Inr (Inl through)" for through
    proof -
      from src res th obtain x out where x: "ra = Inr (x, out)" "?s < x" "through = min x ?e"
        by (auto split: sum.splits prod.splits if_splits)
      have "archive_holds base rs bs (view s2) c" "binv s2" using R s(2) by simp_all
      from archived_holds [OF log this(2,1) ra [unfolded x(1)]] have xo: "x = of_nat (frame_offset rs c)" by simp
      have tc: "t < c" using t(1) xo x(2) by (cases "t = c") auto
      show ?thesis
      proof (cases "c \<le> m")
        case True
        then have "x \<le> ?e" using offset_less [OF facts(12), of c m] t xo by (cases "c = m") (simp_all add: less_imp_le)
        with x(3) xo tc show ?thesis by (intro exI [of _ c]) (simp add: min_def)
      next
        case False
        then have "?e < x" using offset_less [OF facts(12), of m c] t xo by simp
        with x(3) t(3) False show ?thesis by (intro exI [of _ m]) (simp add: min.absorb2 less_imp_le)
      qed
    qed
    with st R show ?thesis by simp
  qed
qed

text \<open>An upload from the record \<open>t\<close> on, of what the session had logged up to the record
  \<open>m\<close> or of the cached frames, archives at least one more record or fails; either way the
  archive holds a beginning of the log.\<close>

lemma upload_holds:
  assumes log: "segment_log L M base binv view rs bs" and s: "binv s" "archive_holds base rs bs (view s) c"
    and t: "t \<le> c" "c \<le> n" "t < m" "m \<le> n" "n \<le> length rs"
    and cached: "\<forall>b. cached = Some b \<longrightarrow> (\<exists>k. t + k \<le> n \<and> b = concat (take k (drop t bs)))"
    and u: "upload L M (of_nat (frame_offset rs t)) (of_nat (frame_offset rs m)) cached s = (r, s')"
  shows "binv s' \<and> view s \<subseteq>\<^sub>m view s' \<and> (\<exists>c'. c \<le> c' \<and> c' \<le> n \<and> archive_holds base rs bs (view s') c' \<and>
    (\<forall>through. r = Inr through \<longrightarrow> (\<exists>t'. t < t' \<and> t' \<le> c' \<and> through = of_nat (frame_offset rs t'))))"
proof -
  note facts = segment_logD [OF log]
  let ?s = "of_nat (frame_offset rs t) :: u64" and ?e = "of_nat (frame_offset rs m) :: u64"
  obtain src s1 where src: "archive_source L M ?s ?e cached s = (src, s1)" by fastforce
  note S = archive_source_holds [OF log s t cached src]
  have same: ?thesis if "s' = s1"
    "\<forall>through. r = Inr through \<longrightarrow> (\<exists>t'. t < t' \<and> t' \<le> c \<and> through = of_nat (frame_offset rs t'))"
    using S that s(2) t(2) by (intro conjI exI [of _ c]) simp_all
  consider e where "src = Inl e" | th where "src = Inr (Inl th)" | b where "src = Inr (Inr b)"
    by (metis sum.exhaust)
  then show ?thesis
  proof cases
    case 1
    with src u have "s' = s1" "r = Inl e" by (simp_all add: upload_def bind_op_def)
    then show ?thesis using same by simp
  next
    case 2
    with src u have "s' = s1" "r = Inr th" by (simp_all add: upload_def bind_op_def ret_op_def)
    then show ?thesis using same S 2 by simp
  next
    case 3
    with S obtain q where q: "b = take q (concat (drop t bs))" "q \<le> frame_offset rs n - frame_offset rs t" by blast
    have "t \<le> length rs" using t by simp
    from decode_from [OF log this, of q] obtain k where k: "t + k \<le> length rs"
      "frames_decode (lg_crypto L) b = Inr (take k (drop t rs))" "frame_offset rs (t + k) - frame_offset rs t \<le> q"
      unfolding q(1) by blast
    obtain j where j: "j \<le> k" "0 < k \<longrightarrow> 0 < j"
      "batch_length L M 0 (take k (drop t rs)) = Inr (0 + (frame_offset rs (t + j) - frame_offset rs t))"
      using batch_length_records [OF facts(6) k(1), of 0] by blast
    have tk: "t + j \<le> length rs" using k(1) j(1) by simp
    let ?len = "frame_offset rs (t + j) - frame_offset rs t"
    show ?thesis
    proof (cases "j = 0")
      case True
      with 3 src u k(2) j(3) have "s' = s1" "r \<noteq> Inr x" for x
        by (auto simp: upload_def bind_op_def lift_op_def ensure_op_def)
      then show ?thesis using same by simp
    next
      case False
      have pos: "0 < ?len" using frame_offset_strict [of t "t + j" rs] False tk by simp
      have jn: "t + j \<le> n"
      proof (rule ccontr)
        assume "\<not> t + j \<le> n"
        then have "frame_offset rs n < frame_offset rs (t + j)" using frame_offset_strict [of n "t + j" rs] tk by simp
        moreover have "frame_offset rs (t + j) \<le> frame_offset rs (t + k)" using frame_offset_mono [of "t + j" "t + k" rs] j(1) by simp
        ultimately show False using k(3) q(2) frame_offset_mono [of t n rs] t by simp
      qed
      have "?len \<le> q" using frame_offset_mono [of "t + j" "t + k" rs] j(1) k(3) by simp
      then have "take ?len b = take ?len (concat (drop t bs))" unfolding q(1) by (simp add: min_def)
      then have tb: "take ?len b = concat (take (t + j - t) (drop t bs))" using slice_length(2) [OF log, of t "t + j"] tk by simp
      obtain pr s2 where pb: "put_batch L M ?s (concat (take (t + j - t) (drop t bs))) s1 = (pr, s2)" by fastforce
      have hold1: "archive_holds base rs bs (view s1) c" and b1: "binv s1" using S s(2) by simp_all
      have "t < t + j" using False by simp
      note P = put_batch_holds [OF log b1 hold1 t(1) this tk pb]
      have r: "s' = s2 \<and> (\<forall>x. r = Inr x \<longrightarrow> pr = Inr () \<and> x = ?s + of_nat ?len)"
        using 3 src u k(2) j(3) pos pb tb
        by (auto simp: upload_def bind_op_def lift_op_def ensure_op_def ret_op_def split: sum.splits)
      have "?s + of_nat ?len = of_nat (frame_offset rs (t + j))"
        using frame_offset_mono [of t "t + j" rs] by (simp flip: of_nat_add)
      then have "\<exists>t'. t < t' \<and> t' \<le> c' \<and> through = of_nat (frame_offset rs t')" if "r = Inr through" "pr = Inr () \<longrightarrow> t + j \<le> c'" for through c'
        using r that \<open>t < t + j\<close> by (intro exI [of _ "t + j"]) simp
      note through = this
      from P obtain c' where c': "c \<le> c'" "c' \<le> max c (t + j)" "archive_holds base rs bs (view s2) c'" "pr = Inr () \<longrightarrow> t + j \<le> c'"
        by blast
      have "c' \<le> n" using c'(2) jn t(2) by simp
      with c' through r have "\<exists>c'. c \<le> c' \<and> c' \<le> n \<and> archive_holds base rs bs (view s') c' \<and>
          (\<forall>through. r = Inr through \<longrightarrow> (\<exists>t'. t < t' \<and> t' \<le> c' \<and> through = of_nat (frame_offset rs t')))" by blast
      with P S r show ?thesis by simp
    qed
  qed
qed

section \<open>The invariant\<close>

definition logged_version :: "u64 \<Rightarrow> Record list \<Rightarrow> nat \<Rightarrow> u64" where
  "logged_version v rs n = (if n = 0 then v else rec_version (rs ! (n - 1)))"

text \<open>The cache is a run of frames of the log that starts at the record \<open>i\<close>.\<close>

definition segment_pending_ok :: "u64 \<Rightarrow> Record list \<Rightarrow> bytes list \<Rightarrow> nat \<Rightarrow> nat \<Rightarrow> Pending \<Rightarrow> bool" where
  "segment_pending_ok v rs bs n i p \<longleftrightarrow>
     n \<le> length rs \<and> pn_end p = of_nat (frame_offset rs n) \<and> pn_version p = logged_version v rs n \<and>
     i + length (pn_cache p) \<le> n \<and> pn_cache p = take (length (pn_cache p)) (drop i bs) \<and>
     pn_cache_start p = of_nat (frame_offset rs i) \<and> pn_cache_bytes p = length (concat (pn_cache p))"

lemma pending_ok_new: "segment_pending_ok v rs bs 0 0 (pending_new v)"
  by (simp add: segment_pending_ok_def pending_new_def logged_version_def)

lemma pending_ok_close [simp]: "segment_pending_ok v rs bs n i (archiver_close p) \<longleftrightarrow> segment_pending_ok v rs bs n i p"
  by (simp add: segment_pending_ok_def archiver_close_def)

lemma cache_end:
  assumes "segment_log L M base binv view rs bs" "segment_pending_ok v rs bs n i p"
  shows "pn_cache_start p + of_nat (pn_cache_bytes p) = of_nat (frame_offset rs (i + length (pn_cache p)))"
    and "concat (pn_cache p) = concat (take (length (pn_cache p)) (drop i bs))"
proof -
  let ?k = "length (pn_cache p)"
  have k: "i + ?k \<le> length rs" and c: "pn_cache p = take ?k (drop i bs)" using assms(2) by (simp_all add: segment_pending_ok_def)
  show "concat (pn_cache p) = concat (take ?k (drop i bs))" using c by simp
  have "frame_offset rs i + length (concat (pn_cache p)) = frame_offset rs (i + ?k)"
    using slice_length(1) [OF assms(1), of i "i + ?k"] k c frame_offset_mono [of i "i + ?k" rs] by simp
  then show "pn_cache_start p + of_nat (pn_cache_bytes p) = of_nat (frame_offset rs (i + ?k))"
    using assms(2) by (simp add: segment_pending_ok_def flip: of_nat_add)
qed

lemma pending_ok_append:
  assumes "segment_log L M base binv view rs bs" "segment_pending_ok v rs bs n i p" "n < length rs"
  shows "segment_pending_ok v rs bs (Suc n) i (archiver_append limit now (bs ! n) (rec_version (rs ! n)) p)"
proof -
  note facts = segment_logD [OF assms(1)]
  let ?k = "length (pn_cache p)"
  have "length (bs ! n) = frame_size (rs ! n)"
    using slice_length(1) [OF assms(1), of n "Suc n"] assms(3) facts(11) by (simp add: frame_offset_Suc take_Suc_conv_app_nth)
  then have e: "pn_end p + of_nat (length (bs ! n)) = of_nat (frame_offset rs (Suc n))"
    using assms(2,3) by (simp add: segment_pending_ok_def frame_offset_Suc)
  have app: "take (Suc ?k) (drop i bs) = pn_cache p @ [bs ! n]" if "pn_cache_start p + of_nat (pn_cache_bytes p) = pn_end p"
  proof -
    have "(of_nat (frame_offset rs (i + ?k)) :: u64) = of_nat (frame_offset rs n)"
      using that cache_end(1) [OF assms(1,2)] assms(2) by (simp add: segment_pending_ok_def)
    then have n: "n = i + ?k" using offset_inj [OF facts(12), of "i + ?k" n] assms(2,3) by (simp add: segment_pending_ok_def)
    have "pn_cache p = take ?k (drop i bs)" using assms(2) by (simp add: segment_pending_ok_def)
    then show ?thesis using n assms(3) facts(11) by (simp add: take_Suc_conv_app_nth)
  qed
  show ?thesis
  proof (cases "pn_cache_start p + of_nat (pn_cache_bytes p) = pn_end p \<and> pn_cache_bytes p < limit")
    case True
    with app have "take (Suc ?k) (drop i bs) = pn_cache p @ [bs ! n]" by simp
    with True assms(2,3) e show ?thesis by (simp add: segment_pending_ok_def archiver_append_def logged_version_def)
  next
    case False
    then have "archiver_append limit now (bs ! n) (rec_version (rs ! n)) p =
        p\<lparr>pn_end := pn_end p + of_nat (length (bs ! n)), pn_version := rec_version (rs ! n), pn_since := get_or_insert now (pn_since p)\<rparr>"
      by (simp only: archiver_append_def Let_def if_not_P if_False)
    with assms(2,3) e show ?thesis by (simp add: segment_pending_ok_def logged_version_def)
  qed
qed

lemma pending_ok_take_cache:
  assumes "segment_log L M base binv view rs bs" "segment_pending_ok v rs bs n i p" "t \<le> length rs"
    and "take_cache (of_nat (frame_offset rs t)) p = (r, p')"
  shows "(\<exists>i'. segment_pending_ok v rs bs n i' p') \<and> pn_closed p' = pn_closed p \<and>
    (\<forall>b. r = Inr (Some b) \<longrightarrow> (\<exists>k. t + k \<le> n \<and> b = concat (take k (drop t bs))))"
proof (cases "pn_cache_start p \<noteq> of_nat (frame_offset rs t) \<or> pn_cache_bytes p = 0")
  case True
  with assms(2,4) show ?thesis by (auto simp: take_cache_def)
next
  case False
  note facts = segment_logD [OF assms(1)]
  let ?k = "length (pn_cache p)"
  have i: "i + ?k \<le> n" "n \<le> length rs" using assms(2) by (simp_all add: segment_pending_ok_def)
  have "(of_nat (frame_offset rs i) :: u64) = of_nat (frame_offset rs t)" using False assms(2) by (simp add: segment_pending_ok_def)
  then have t: "i = t" using offset_inj [OF facts(12), of i t] i assms(3) by simp
  have p': "r = rbind (payload_copy (pn_cache p)) (\<lambda>b. Inr (Some b))" "pn_cache p' = []" "pn_cache_bytes p' = 0"
    "pn_end p' = pn_end p" "pn_version p' = pn_version p" "pn_closed p' = pn_closed p"
    "pn_cache_start p' = pn_cache_start p + of_nat (pn_cache_bytes p)"
    using assms(4) False by (auto simp: take_cache_def Let_def split: if_splits)
  then have "segment_pending_ok v rs bs n (i + ?k) p'"
    using assms(2) i cache_end(1) [OF assms(1,2)] by (simp add: segment_pending_ok_def)
  moreover have "b = concat (take ?k (drop t bs))" if "r = Inr (Some b)" for b
    using that p'(1) cache_end(2) [OF assms(1,2)] t by (auto simp: rbind_Inr_iff dest: payload_copy_concat)
  ultimately show ?thesis using i t p'(6) by auto
qed

lemma pending_ok_done:
  assumes "segment_pending_ok v rs bs n i p" "t \<le> n"
  shows "\<exists>i'. segment_pending_ok v rs bs n i' (upload_done now (of_nat (frame_offset rs t)) p)"
    and "pn_closed (upload_done now x p) = pn_closed p"
proof -
  let ?p = "upload_done now (of_nat (frame_offset rs t)) p"
  have "segment_pending_ok v rs bs n (if pn_cache p = [] then t else i) ?p"
    using assms by (simp add: segment_pending_ok_def upload_done_def Let_def)
  then show "\<exists>i'. segment_pending_ok v rs bs n i' ?p" by blast
qed (simp add: upload_done_def Let_def)

text \<open>\<open>t\<close> records are archived as far as the worker knows.\<close>

fun worker_ok :: "('s, 'v) log_storage \<Rightarrow> string \<Rightarrow> u64 \<Rightarrow> Record list \<Rightarrow> bytes list \<Rightarrow> (string \<rightharpoonup> BucketObject) \<Rightarrow>
    nat \<Rightarrow> bool \<Rightarrow> nat \<Rightarrow> worker_at \<Rightarrow> bool" where
  "worker_ok L base v rs bs vw n closed t Polling \<longleftrightarrow> True"
| "worker_ok L base v rs bs vw n closed t (Polled po) \<longleftrightarrow>
     (\<exists>m. po_end po = of_nat (frame_offset rs m) \<and> t \<le> m \<and> m \<le> n \<and>
        (po_closed po \<longrightarrow> closed \<and> m = n \<and> po_version po = logged_version v rs n))"
| "worker_ok L base v rs bs vw n closed t (Uploading po cached) \<longleftrightarrow>
     (\<exists>m. po_end po = of_nat (frame_offset rs m) \<and> t < m \<and> m \<le> n) \<and>
     (\<forall>b. cached = Some b \<longrightarrow> (\<exists>k. t + k \<le> n \<and> b = concat (take k (drop t bs))))"
| "worker_ok L base v rs bs vw n closed t (Returned r) \<longleftrightarrow>
     (r = Inr () \<longrightarrow> closed \<and> t = n \<and> (\<exists>x. vw (base @ ''.replicated'') = Some x \<and>
        lg_closed_encode L \<lparr>cs_last_version = logged_version v rs n, cs_end_offset = of_nat (frame_offset rs n)\<rparr> = Inr (obj_bytes x)))"

definition archiver_inv :: "('s, 'v) log_storage \<Rightarrow> string \<Rightarrow> ('s \<Rightarrow> bool) \<Rightarrow> ('s \<Rightarrow> string \<rightharpoonup> BucketObject) \<Rightarrow> u64 \<Rightarrow> Record list \<Rightarrow> bytes list \<Rightarrow>
    's archiver \<Rightarrow> bool" where
  "archiver_inv L base binv view v rs bs a \<longleftrightarrow> binv (ar_store a) \<and>
     (\<exists>c t i. archive_holds base rs bs (view (ar_store a)) c \<and> t \<le> c \<and> c \<le> ar_logged a \<and>
        wk_through (ar_worker a) = of_nat (frame_offset rs t) \<and>
        segment_pending_ok v rs bs (ar_logged a) i (ar_pending a) \<and>
        worker_ok L base v rs bs (view (ar_store a)) (ar_logged a) (pn_closed (ar_pending a)) t (wk_at (ar_worker a)))"

lemma worker_ok_grow:
  "worker_ok L base v rs bs vw n closed t w \<Longrightarrow> vw \<subseteq>\<^sub>m vw' \<Longrightarrow> worker_ok L base v rs bs vw' n closed t w"
  by (cases w) (auto simp: map_le_def dom_def)

lemma publish_closed_holds:
  assumes "segment_log L M base binv view rs bs" "binv s" "archive_holds base rs bs (view s) c"
    and "publish_closed L M po w s = (r, s')"
  shows "binv s' \<and> view s \<subseteq>\<^sub>m view s' \<and> archive_holds base rs bs (view s') c \<and>
    (\<forall>w'. r = Inr w' \<longrightarrow> wk_through w' = wk_through w \<and> wk_retry w' = wk_retry w)"
proof (cases "po_closed po \<and> \<not> wk_closed_published w")
  case False
  then have "publish_closed L M po w = ret_op w" unfolding publish_closed_def by (rule if_not_P)
  with assms(4) have "r = Inr w" "s' = s" by (simp_all add: ret_op_def)
  with assms(2,3) show ?thesis by simp
next
  case True
  obtain r1 s1 where c: "close_segment L M (polled_segment po) s = (r1, s1)" by fastforce
  have "publish_closed L M po w s = (rbind r1 (\<lambda>_. Inr (w\<lparr>wk_closed_published := True\<rparr>)), s1)"
    unfolding publish_closed_def if_P [OF True] bind_op_def c by (cases r1) (simp_all add: ret_op_def)
  with assms(4) have r: "s' = s1" "r = Inr w' \<Longrightarrow> w' = w\<lparr>wk_closed_published := True\<rparr>" for w'
    by (simp_all add: rbind_Inr_iff)
  have "binv s1 \<and> view s \<subseteq>\<^sub>m view s1 \<and> archive_holds base rs bs (view s1) c"
  proof (cases "lg_closed_encode L (polled_segment po)")
    case (Inl e)
    with c have "s1 = s" by (simp add: close_segment_def segment_names(2) [OF assms(1)] bind_op_def lift_op_def)
    with assms(2,3) show ?thesis by simp
  next
    case (Inr b)
    with c have "archive_create L (base @ ''.'' @ ''closed'') b ''conflicting closed segment'' s = (r1, s1)"
      by (simp add: close_segment_def segment_names(2) [OF assms(1)] bind_op_def lift_op_def)
    from archive_create_other [OF assms(1,2) this assms(3) not_batch_marker] show ?thesis .
  qed
  moreover have "wk_through w' = wk_through w \<and> wk_retry w' = wk_retry w" if "r = Inr w'" for w'
    using r(2) [OF that] by simp
  ultimately show ?thesis unfolding r(1) by blast
qed

lemma mark_replicated_holds:
  assumes "segment_log L M base binv view rs bs" "binv s" "archive_holds base rs bs (view s) c"
    and "mark_replicated L M closed s = (r, s')"
  shows "binv s' \<and> view s \<subseteq>\<^sub>m view s' \<and> archive_holds base rs bs (view s') c \<and>
    (r = Inr () \<longrightarrow> (\<exists>x. view s' (base @ ''.replicated'') = Some x \<and> lg_closed_encode L closed = Inr (obj_bytes x)))"
proof (cases "lg_closed_encode L closed")
  case (Inl e)
  with assms(4) have "s' = s" "r = Inl e" by (simp_all add: mark_replicated_def segment_names(2) [OF assms(1)] bind_op_def lift_op_def)
  with assms(2,3) show ?thesis by simp
next
  case (Inr b)
  with assms(4) have c: "archive_create L (base @ ''.'' @ ''replicated'') b ''conflicting replication coverage'' s = (r, s')"
    by (simp add: mark_replicated_def segment_names(2) [OF assms(1)] bind_op_def lift_op_def)
  from archive_create_other [OF assms(1,2) c assms(3) not_batch_marker]
    archive_create_view(3) [OF segment_logD(1) [OF assms(1)] assms(2) c] Inr
  show ?thesis by auto
qed

lemma delete_replicas_keep:
  assumes "zones_keep L binv view" "binv s" "delete_replicas L reps s = (r, s')"
  shows "binv s' \<and> view s' = view s"
  using assms(2,3)
proof (induction reps arbitrary: s)
  case Nil
  then show ?case by (simp add: delete_replicas_def ret_op_def)
next
  case (Cons rep reps)
  show ?case
  proof (cases "zone_of L rep")
    case (Inl e)
    with Cons.prems show ?thesis by (simp add: delete_replicas_def bind_op_def lift_op_def)
  next
    case (Inr z)
    then have z: "z \<in> set (lg_zones L)" by (auto simp: zone_of_def context_opt_Inr_iff find_Some_iff)
    obtain u s1 where u: "zn_delete z rep s = (u, s1)" by fastforce
    have k: "binv s1" "view s1 = view s" using assms(1) z u Cons.prems(1) unfolding zones_keep_def by blast+
    from Cons.prems(2) Inr u have "s' = s1 \<or> delete_replicas L reps s1 = (r, s')"
      by (auto simp: delete_replicas_def bind_op_def lift_op_def split: sum.splits)
    with Cons.IH [OF k(1)] k show ?thesis by auto
  qed
qed

lemma cleanup_holds:
  assumes "segment_log L M base binv view rs bs" "binv s" "archive_holds base rs bs (view s) c"
    and "cleanup_segment L M s = (r, s')"
  shows "binv s' \<and> view s \<subseteq>\<^sub>m view s' \<and> archive_holds base rs bs (view s') c"
proof -
  have "s' = s \<or> (\<exists>u s1. delete_replicas L (mf_replicas M) s = (u, s1) \<and>
      (s' = s1 \<or> archive_create L (base @ ''.'' @ ''cleaned'') (str_bytes ''{}'') ''conflicting cleanup marker'' s1 = (r, s')))"
    using assms(4)
    by (simp add: cleanup_segment_def bind_op_def lift_op_def archive_get_def ensure_op_def segment_names(2) [OF assms(1)]
        split: sum.splits if_splits prod.splits)
  then show ?thesis
  proof (elim disjE exE conjE)
    fix u s1
    assume d: "delete_replicas L (mf_replicas M) s = (u, s1)"
      and c: "archive_create L (base @ ''.'' @ ''cleaned'') (str_bytes ''{}'') ''conflicting cleanup marker'' s1 = (r, s')"
    note k = delete_replicas_keep [OF segment_logD(10) [OF assms(1)] assms(2) d]
    have "archive_holds base rs bs (view s1) c" "binv s1" using k assms(3) by simp_all
    from archive_create_other [OF assms(1) this(2) c this(1) not_batch_marker] k show ?thesis by simp
  qed (use assms delete_replicas_keep [OF segment_logD(10) [OF assms(1)] assms(2)] in auto)
qed

lemma archiver_invI:
  assumes "binv (ar_store a)" "archive_holds base rs bs (view (ar_store a)) c" "t \<le> c" "c \<le> ar_logged a"
    "wk_through (ar_worker a) = of_nat (frame_offset rs t)" "\<exists>i. segment_pending_ok v rs bs (ar_logged a) i (ar_pending a)"
    "worker_ok L base v rs bs (view (ar_store a)) (ar_logged a) (pn_closed (ar_pending a)) t (wk_at (ar_worker a))"
  shows "archiver_inv L base binv view v rs bs a"
  using assms unfolding archiver_inv_def by blast

lemma decide_inv:
  assumes log: "segment_log L M base binv view rs bs" and inv: "archiver_inv L base binv view v rs bs a"
    and at: "wk_at (ar_worker a) = Polled po"
    and d: "worker_decide L M now po (ar_pending a) (ar_worker a) (ar_store a) = (p, w, s)"
  shows "archiver_inv L base binv view v rs bs (a\<lparr>ar_pending := p, ar_worker := w, ar_store := s\<rparr>)"
proof -
  let ?n = "ar_logged a" and ?p = "ar_pending a" and ?w = "ar_worker a"
  from inv obtain c t i where b: "binv (ar_store a)" and h: "archive_holds base rs bs (view (ar_store a)) c" "t \<le> c" "c \<le> ?n"
    and th: "wk_through ?w = of_nat (frame_offset rs t)" and pk: "segment_pending_ok v rs bs ?n i ?p"
    and ok: "worker_ok L base v rs bs (view (ar_store a)) ?n (pn_closed ?p) t (Polled po)"
    unfolding archiver_inv_def at by blast
  from ok obtain m where m: "po_end po = of_nat (frame_offset rs m)" "t \<le> m" "m \<le> ?n"
    "po_closed po \<longrightarrow> pn_closed ?p \<and> m = ?n \<and> po_version po = logged_version v rs ?n" by auto
  have px: "\<exists>i. segment_pending_ok v rs bs ?n i ?p" using pk by blast
  have n: "?n \<le> length rs" using pk by (simp add: segment_pending_ok_def)
  note inj = offset_inj [OF segment_logD(12) [OF log]]
  obtain r1 s1 where pc: "publish_closed L M po ?w (ar_store a) = (r1, s1)" by fastforce
  note P = publish_closed_holds [OF log b h(1) pc]
  show ?thesis
  proof (cases r1)
    case (Inl e)
    with d pc have "p = ?p" "w = ?w\<lparr>wk_at := Returned (Inl e)\<rparr>" "s = s1" by (simp_all add: worker_decide_def)
    with P h(2,3) th px show ?thesis by (intro archiver_invI [where c = c and t = t]) simp_all
  next
    case (Inr w1)
    with P have th1: "wk_through w1 = of_nat (frame_offset rs t)" using th by simp
    note D = d [unfolded worker_decide_def pc prod.case Inr sum.case]
    show ?thesis
    proof (cases "wk_through w1 = po_end po \<and> po_closed po")
      case True
      then have tn: "t = ?n" using th1 m n inj [of t ?n] by simp
      obtain r2 s2 where mk: "mark_replicated L M (polled_segment po) s1 = (r2, s2)" by fastforce
      have eq: "p = ?p" "w = w1\<lparr>wk_at := Returned r2\<rparr>" "s = s2" using D True mk by simp_all
      have h1: "binv s1" "archive_holds base rs bs (view s1) c" using P by simp_all
      note K = mark_replicated_holds [OF log h1 mk]
      have "polled_segment po = \<lparr>cs_last_version = logged_version v rs ?n, cs_end_offset = of_nat (frame_offset rs ?n)\<rparr>"
        using True m by (simp add: polled_segment_def)
      with K True m tn have "worker_ok L base v rs bs (view s2) ?n (pn_closed ?p) t (Returned r2)" by simp
      with K eq h(2,3) th1 px show ?thesis by (intro archiver_invI [where c = c and t = t]) simp_all
    next
      case nf: False
      show ?thesis
      proof (cases "upload_due L now po w1")
        case False
        with D nf have "p = ?p" "w = w1\<lparr>wk_at := Polling\<rparr>" "s = s1" by (simp_all add: if_not_P [OF nf])
        with P h(2,3) th1 px show ?thesis by (intro archiver_invI [where c = c and t = t]) simp_all
      next
        case True
        obtain r2 p2 where tc: "take_cache (of_nat (frame_offset rs t)) ?p = (r2, p2)" by fastforce
        have "t \<le> length rs" using m n by simp
        note T = pending_ok_take_cache [OF log pk this tc]
        have "t \<noteq> m" using True th1 m(1) by (auto simp: upload_due_def)
        then have tm: "t < m" using m(2) by simp
        from D have D': "(case (r2, p2) of (Inl e, p) \<Rightarrow> (p, w1\<lparr>wk_at := Returned (Inl e)\<rparr>, s1)
             | (Inr cached, p) \<Rightarrow> (p, w1\<lparr>wk_at := Uploading po cached\<rparr>, s1)) = (p, w, s)"
          unfolding if_not_P [OF nf] if_P [OF True] unfolding th1 tc .
        show ?thesis
        proof (cases r2)
          case (Inl e)
          with D' have "p = p2" "w = w1\<lparr>wk_at := Returned (Inl e)\<rparr>" "s = s1" by simp_all
          with P T h(2,3) th1 show ?thesis by (intro archiver_invI [where c = c and t = t]) simp_all
        next
          case (Inr cached)
          with D' have eq: "p = p2" "w = w1\<lparr>wk_at := Uploading po cached\<rparr>" "s = s1" by simp_all
          have "worker_ok L base v rs bs (view s1) ?n (pn_closed p2) t (Uploading po cached)"
            using m tm T Inr by auto
          with P T eq h(2,3) th1 show ?thesis by (intro archiver_invI [where c = c and t = t]) simp_all
        qed
      qed
    qed
  qed
qed

lemma upload_inv:
  assumes log: "segment_log L M base binv view rs bs" and inv: "archiver_inv L base binv view v rs bs a"
    and at: "wk_at (ar_worker a) = Uploading po cached"
    and d: "worker_upload L M now po cached (ar_pending a) (ar_worker a) (ar_store a) = (p, w, s)"
  shows "archiver_inv L base binv view v rs bs (a\<lparr>ar_pending := p, ar_worker := w, ar_store := s\<rparr>)"
proof -
  let ?n = "ar_logged a" and ?p = "ar_pending a" and ?w = "ar_worker a"
  from inv obtain c t i where b: "binv (ar_store a)" and h: "archive_holds base rs bs (view (ar_store a)) c" "t \<le> c" "c \<le> ?n"
    and th: "wk_through ?w = of_nat (frame_offset rs t)" and pk: "segment_pending_ok v rs bs ?n i ?p"
    and ok: "worker_ok L base v rs bs (view (ar_store a)) ?n (pn_closed ?p) t (Uploading po cached)"
    unfolding archiver_inv_def at by blast
  from ok obtain m where m: "po_end po = of_nat (frame_offset rs m)" "t < m" "m \<le> ?n"
    and cached: "\<forall>b. cached = Some b \<longrightarrow> (\<exists>k. t + k \<le> ?n \<and> b = concat (take k (drop t bs)))" by auto
  have px: "\<exists>i. segment_pending_ok v rs bs ?n i ?p" and n: "?n \<le> length rs" using pk by (auto simp: segment_pending_ok_def)
  obtain r s1 where u: "upload L M (of_nat (frame_offset rs t)) (of_nat (frame_offset rs m)) cached (ar_store a) = (r, s1)" by fastforce
  from upload_holds [OF log b h m(2,3) n cached u] obtain c' where U: "binv s1" "c \<le> c'" "c' \<le> ?n"
    "archive_holds base rs bs (view s1) c'"
    "\<forall>through. r = Inr through \<longrightarrow> (\<exists>t'. t < t' \<and> t' \<le> c' \<and> through = of_nat (frame_offset rs t'))" by blast
  note D = d [unfolded worker_upload_def th m(1) u prod.case]
  show ?thesis
  proof (cases r)
    case (Inl e)
    with D have "p = ?p" "w = ?w\<lparr>wk_retry := True, wk_at := Polling\<rparr>" "s = s1" by simp_all
    with U h(2) th px show ?thesis by (intro archiver_invI [where c = c' and t = t]) simp_all
  next
    case (Inr th')
    with U(5) obtain t' where t': "t < t'" "t' \<le> c'" "th' = of_nat (frame_offset rs t')" by blast
    have eq: "p = upload_done now th' ?p" "w = ?w\<lparr>wk_retry := False, wk_through := th', wk_at := Polling\<rparr>" "s = s1"
      using D Inr by simp_all
    have "t' \<le> ?n" using t'(2) U(3) by simp
    from pending_ok_done(1) [OF pk this] have "\<exists>i. segment_pending_ok v rs bs ?n i p" unfolding eq(1) t'(3) .
    with U t' eq(2,3) show ?thesis by (intro archiver_invI [where c = c' and t = t']) simp_all
  qed
qed

lemma archiver_invE:
  assumes "archiver_inv L base binv view v rs bs a"
  obtains c t i where "binv (ar_store a)" "archive_holds base rs bs (view (ar_store a)) c" "t \<le> c" "c \<le> ar_logged a"
    "wk_through (ar_worker a) = of_nat (frame_offset rs t)" "segment_pending_ok v rs bs (ar_logged a) i (ar_pending a)"
    "worker_ok L base v rs bs (view (ar_store a)) (ar_logged a) (pn_closed (ar_pending a)) t (wk_at (ar_worker a))"
  using assms unfolding archiver_inv_def by blast

lemma worker_ok_append:
  "worker_ok L base v rs bs vw n False t w \<Longrightarrow> worker_ok L base v rs bs vw (Suc n) False t w"
  by (cases w) (auto intro: le_SucI)

lemma worker_ok_close:
  "worker_ok L base v rs bs vw n closed t w \<Longrightarrow> worker_ok L base v rs bs vw n True t w"
  by (cases w) auto

lemma append_inv:
  assumes log: "segment_log L M base binv view rs bs" and inv: "archiver_inv L base binv view v rs bs a"
    and "ar_logged a < length rs" "\<not> pn_closed (ar_pending a)"
  shows "archiver_inv L base binv view v rs bs
    (a\<lparr>ar_pending := archiver_append limit now (bs ! ar_logged a) (rec_version (rs ! ar_logged a)) (ar_pending a),
       ar_logged := Suc (ar_logged a)\<rparr>)" (is "archiver_inv _ _ _ _ _ _ _ ?a")
  using inv
proof (rule archiver_invE)
  fix c t i
  assume h: "binv (ar_store a)" "archive_holds base rs bs (view (ar_store a)) c" "t \<le> c" "c \<le> ar_logged a"
    "wk_through (ar_worker a) = of_nat (frame_offset rs t)" and pk: "segment_pending_ok v rs bs (ar_logged a) i (ar_pending a)"
    and ok: "worker_ok L base v rs bs (view (ar_store a)) (ar_logged a) (pn_closed (ar_pending a)) t (wk_at (ar_worker a))"
  have px: "\<exists>i. segment_pending_ok v rs bs (ar_logged ?a) i (ar_pending ?a)" using pending_ok_append [OF log pk assms(3)] by auto
  have "pn_closed (archiver_append limit now x y (ar_pending a)) = False" for x y
    using assms(4) by (simp add: archiver_append_def Let_def)
  with ok assms(4) have "worker_ok L base v rs bs (view (ar_store ?a)) (ar_logged ?a) (pn_closed (ar_pending ?a)) t (wk_at (ar_worker ?a))"
    by (simp add: worker_ok_append)
  with h px show ?thesis by (intro archiver_invI [where c = c and t = t]) simp_all
qed

lemma close_inv:
  assumes "archiver_inv L base binv view v rs bs a"
  shows "archiver_inv L base binv view v rs bs (a\<lparr>ar_pending := archiver_close (ar_pending a)\<rparr>)"
  using assms
proof (rule archiver_invE)
  fix c t i
  assume h: "binv (ar_store a)" "archive_holds base rs bs (view (ar_store a)) c" "t \<le> c" "c \<le> ar_logged a"
    "wk_through (ar_worker a) = of_nat (frame_offset rs t)" and pk: "segment_pending_ok v rs bs (ar_logged a) i (ar_pending a)"
    and ok: "worker_ok L base v rs bs (view (ar_store a)) (ar_logged a) (pn_closed (ar_pending a)) t (wk_at (ar_worker a))"
  have "worker_ok L base v rs bs (view (ar_store a)) (ar_logged a) (pn_closed (archiver_close (ar_pending a))) t (wk_at (ar_worker a))"
    using worker_ok_close [OF ok] by (simp add: archiver_close_def)
  moreover have "\<exists>i. segment_pending_ok v rs bs (ar_logged a) i (ar_pending a)" using pk by blast
  ultimately show ?thesis using h by (intro archiver_invI [where c = c and t = t]) simp_all
qed

lemma poll_inv:
  assumes "archiver_inv L base binv view v rs bs a"
  shows "archiver_inv L base binv view v rs bs (a\<lparr>ar_worker := worker_poll L (ar_pending a) (ar_worker a)\<rparr>)"
  using assms
proof (rule archiver_invE)
  fix c t i
  assume h: "binv (ar_store a)" "archive_holds base rs bs (view (ar_store a)) c" "t \<le> c" "c \<le> ar_logged a"
    "wk_through (ar_worker a) = of_nat (frame_offset rs t)" and pk: "segment_pending_ok v rs bs (ar_logged a) i (ar_pending a)"
  have "worker_ok L base v rs bs (view (ar_store a)) (ar_logged a) (pn_closed (ar_pending a)) t
      (wk_at (worker_poll L (ar_pending a) (ar_worker a)))"
    using pk h(3,4) by (auto simp: worker_poll_def segment_pending_ok_def intro!: exI [of _ "ar_logged a"])
  moreover have "wk_through (worker_poll L (ar_pending a) (ar_worker a)) = of_nat (frame_offset rs t)"
    using h(5) by (simp add: worker_poll_def)
  moreover have "\<exists>i. segment_pending_ok v rs bs (ar_logged a) i (ar_pending a)" using pk by blast
  ultimately show ?thesis using h by (intro archiver_invI [where c = c and t = t]) simp_all
qed

lemma cleanup_inv:
  assumes log: "segment_log L M base binv view rs bs" and inv: "archiver_inv L base binv view v rs bs a"
    and "cleanup_segment L M (ar_store a) = (r, s)"
  shows "archiver_inv L base binv view v rs bs (a\<lparr>ar_store := s\<rparr>)"
  using inv
proof (rule archiver_invE)
  fix c t i
  assume h: "binv (ar_store a)" "archive_holds base rs bs (view (ar_store a)) c" "t \<le> c" "c \<le> ar_logged a"
    "wk_through (ar_worker a) = of_nat (frame_offset rs t)" and pk: "segment_pending_ok v rs bs (ar_logged a) i (ar_pending a)"
    and ok: "worker_ok L base v rs bs (view (ar_store a)) (ar_logged a) (pn_closed (ar_pending a)) t (wk_at (ar_worker a))"
  note C = cleanup_holds [OF log h(1,2) assms(3)]
  have "\<exists>i. segment_pending_ok v rs bs (ar_logged a) i (ar_pending a)" using pk by blast
  with C h worker_ok_grow [OF ok, of "view s"] show ?thesis by (intro archiver_invI [where c = c and t = t]) simp_all
qed

lemma work_inv:
  assumes log: "segment_log L M base binv view rs bs" and inv: "archiver_inv L base binv view v rs bs a"
    and step: "worker_step L M now (ar_pending a) (ar_worker a) (ar_store a) = (p, w, s)"
  shows "archiver_inv L base binv view v rs bs (a\<lparr>ar_pending := p, ar_worker := w, ar_store := s\<rparr>)"
proof (cases "wk_at (ar_worker a)")
  case Polling
  with step have "a\<lparr>ar_pending := p, ar_worker := w, ar_store := s\<rparr> = a\<lparr>ar_worker := worker_poll L (ar_pending a) (ar_worker a)\<rparr>"
    by (auto simp: worker_step_def)
  with poll_inv [OF inv] show ?thesis by simp
next
  case (Polled po)
  with step decide_inv [OF log inv Polled] show ?thesis by (simp add: worker_step_def)
next
  case (Uploading po cached)
  with step upload_inv [OF log inv Uploading] show ?thesis by (simp add: worker_step_def)
next
  case (Returned r)
  with step have "a\<lparr>ar_pending := p, ar_worker := w, ar_store := s\<rparr> = a" by (auto simp: worker_step_def)
  with inv show ?thesis by simp
qed

lemma archiver_step_inv:
  assumes "segment_log L M base binv view rs bs" "archiver_inv L base binv view v rs bs a" "archiver_step L M rs bs a a'"
  shows "archiver_inv L base binv view v rs bs a'"
  using assms(3)
proof cases
  case (append now)
  then show ?thesis using append_inv [OF assms(1,2)] by simp
next
  case close
  then show ?thesis using close_inv [OF assms(2)] by simp
next
  case (work now p w s)
  then show ?thesis using work_inv [OF assms(1,2)] by simp
next
  case (cleanup r s)
  then show ?thesis using cleanup_inv [OF assms(1,2)] by simp
qed

text \<open>A worker starts on a segment that has no batch in the archive yet.\<close>

definition fresh_segment :: "string \<Rightarrow> ('s \<Rightarrow> bool) \<Rightarrow> ('s \<Rightarrow> string \<rightharpoonup> BucketObject) \<Rightarrow> 's \<Rightarrow> bool" where
  "fresh_segment base binv view s \<longleftrightarrow> binv s \<and> (\<forall>key. starts_with (base @ ''~'') key \<longrightarrow> view s key = None)"

lemma archiver_init_inv: "fresh_segment base binv view s \<Longrightarrow> archiver_inv L base binv view v rs bs (archiver_init v s)"
  by (rule archiver_invI [where c = 0 and t = 0])
    (auto simp: fresh_segment_def archiver_init_def archive_holds_def worker_new_def intro: pending_ok_new)

definition archiver_starts :: "string \<Rightarrow> ('s \<Rightarrow> bool) \<Rightarrow> ('s \<Rightarrow> string \<rightharpoonup> BucketObject) \<Rightarrow> u64 \<Rightarrow> 's archiver \<Rightarrow> bool" where
  "archiver_starts base binv view v a \<longleftrightarrow> (\<exists>s. a = archiver_init v s \<and> fresh_segment base binv view s)"

definition archiver_inv_if_log :: "('s, 'v) log_storage \<Rightarrow> Manifest \<Rightarrow> string \<Rightarrow> ('s \<Rightarrow> bool) \<Rightarrow> ('s \<Rightarrow> string \<rightharpoonup> BucketObject) \<Rightarrow> u64 \<Rightarrow>
    Record list \<Rightarrow> bytes list \<Rightarrow> 's archiver \<Rightarrow> bool" where
  "archiver_inv_if_log L M base binv view v rs bs a \<longleftrightarrow>
     (segment_log L M base binv view rs bs \<longrightarrow> archiver_inv L base binv view v rs bs a)"

interpretation archivers: invariant_of "archiver_starts base binv view v" "archiver_step L M rs bs"
  "archiver_inv_if_log L M base binv view v rs bs" for base binv view v L M rs bs
  by unfold_locales (auto simp: archiver_inv_if_log_def archiver_starts_def archiver_init_inv intro: archiver_step_inv)

lemma reachable_archiver_inv:
  assumes "segment_log L M base binv view rs bs" "fresh_segment base binv view s"
    and "archiver_reaches L M rs bs (archiver_init v s) a"
  shows "archiver_inv L base binv view v rs bs a"
  using archivers.reachable_invar [of base binv view v "archiver_init v s" L M rs bs a] assms
  by (auto simp: archiver_starts_def archiver_inv_if_log_def)

lemma logged_version_first:
  assumes "checked_add v 1 = Some (mf_first_version M)" "\<forall>r \<in> set rs. belongs L M r" "n \<le> length rs"
  shows "mf_first_version M - 1 \<le> logged_version v rs n"
proof (cases n)
  case 0
  from assms(1) have "mf_first_version M = v + 1" by (auto simp: checked_add_def split: if_splits)
  with 0 show ?thesis by (simp add: logged_version_def)
next
  case (Suc k)
  with assms(2,3) have "mf_first_version M \<le> logged_version v rs n" by (simp add: logged_version_def belongs_def)
  moreover from assms(1) have "mf_first_version M = v + 1" by (auto simp: checked_add_def split: if_splits)
  then have "mf_first_version M - 1 = v" by simp
  moreover have "v \<le> mf_first_version M" using assms(1) by (simp add: checked_add_Some_iff word_le_nat_alt)
  ultimately show ?thesis by simp
qed

section \<open>Correctness of the worker\<close>

text \<open>C9. The archive worker loses nothing: once it has returned without an error, however its steps
  were interleaved with the appends of the session and whichever uploads failed and were
  retried, reading the segment returns exactly the records the session logged, and no replica
  is consulted, so all replicas may be gone.\<close>

theorem finished_archive_replaces_replicas:
  assumes "segment_log L M base binv view rs bs" and "fresh_segment base binv view s0"
    and "checked_add v 1 = Some (mf_first_version M)"
    and "archiver_reaches L M rs bs (archiver_init v s0) a" and "wk_at (ar_worker a) = Returned (Inr ())"
    and "\<forall>c b. lg_closed_encode L c = Inr b \<longrightarrow> lg_closed_decode L b = Inr c"
    and "archive_answers L (ar_store a)"
  shows "read_segment L M fence (ar_store a) = (Inr (take (ar_logged a) rs), ar_store a)"
  using reachable_archiver_inv [OF assms(1,2,4)]
proof (rule archiver_invE)
  fix c t i
  let ?s = "ar_store a" and ?n = "ar_logged a" and ?mark = "base @ ''.replicated''"
  let ?closed = "\<lparr>cs_last_version = logged_version v rs ?n, cs_end_offset = of_nat (frame_offset rs ?n)\<rparr>"
  assume h: "binv ?s" "archive_holds base rs bs (view ?s) c" "t \<le> c" "c \<le> ?n"
    and "worker_ok L base v rs bs (view ?s) ?n (pn_closed (ar_pending a)) t (wk_at (ar_worker a))"
  then obtain x where "t = ?n" and x: "view ?s ?mark = Some x" "lg_closed_encode L ?closed = Inr (obj_bytes x)"
    unfolding assms(5) by auto
  with h have c: "c = ?n" "?n \<le> length rs" by (simp_all add: archive_holds_def)
  from assms(7) obtain got where got: "bk_get (lg_archive L) ?mark ?s = Inr got" unfolding archive_answers_def is_ok_iff by blast
  then have get: "bk_get (lg_archive L) ?mark ?s = Inr (Some x)"
    using bucket_laws.get_view [OF segment_logD(1) [OF assms(1)] h(1) got] x(1) by simp
  have arch: "archived L M ?s = (Inr (of_nat (frame_offset rs ?n), take ?n rs), ?s)"
    using archived_answers [OF assms(1) h(1,2) assms(7)] c(1) by simp
  have "rec_version (last (take ?n rs)) = logged_version v rs ?n" if "take ?n rs \<noteq> []"
    using that c(2) by (simp add: last_conv_nth logged_version_def min_def)
  then have "closed_validate ?closed M (of_nat (frame_offset rs ?n)) (take ?n rs) = Inr ()"
    using logged_version_first [OF assms(3) segment_logD(6) [OF assms(1)] c(2)]
    by (auto simp: closed_validate_def ensure_def)
  then have "replicated_records L M x (of_nat (frame_offset rs ?n), take ?n rs) = Inr (take ?n rs)"
    using assms(6) x(2) by (simp add: replicated_records_def)
  with get arch show ?thesis
    by (simp add: read_segment_def bind_op_def lift_op_def archive_get_def segment_names(2) [OF assms(1)])
qed

section \<open>A concrete worker\<close>

text \<open>An archive in memory and two zones that are down: the worker uploads from its cache.\<close>

definition down_zone :: "string \<Rightarrow> 's log_zone" where
  "down_zone name =
     \<lparr>zn_bucket = name, zn_open = (\<lambda>_ s. (Inl ''down'', s)), zn_append = (\<lambda>_ _ s. (Inl ''down'', s)),
      zn_read = (\<lambda>_ _ s. (Inl ''down'', s)), zn_read_range = (\<lambda>_ _ _ s. (Inl ''down'', s)), zn_delete = (\<lambda>_ s. (Inl ''down'', s))\<rparr>"

definition mem_log_storage :: "((string \<times> BucketObject) list, string) log_storage" where
  "mem_log_storage =
     \<lparr>lg_crypto = hex_crypto, lg_json = sample_json, lg_archive = mem_bucket, lg_snapshots = bucket_snapshots mem_bucket,
      lg_zones = [down_zone ''z1'', down_zone ''z2''], lg_placement = All, lg_batch_bytes = 1000,
      lg_batch_interval = 10, lg_compact = (\<lambda>_. Inl ''none''), lg_checkpoint_json = no_checkpoint_json,
      lg_manifest_encode = (\<lambda>_. Inr []), lg_manifest_decode = (\<lambda>_. Inr log_manifest),
      lg_closed_encode = (\<lambda>c. Inr (u64_to_le_bytes (cs_last_version c) @ u64_to_le_bytes (cs_end_offset c))),
      lg_closed_decode = (\<lambda>b. Inr \<lparr>cs_last_version = u64_from_le_bytes (take 8 b), cs_end_offset = u64_from_le_bytes (drop 8 b)\<rparr>),
      lg_index_encode = (\<lambda>_. Inr []), lg_index_decode = (\<lambda>_. Inl ''none''), lg_parse_uuid = (\<lambda>_. Inr ())\<rparr>"

lemma mem_log_storage_simps [simp]:
  "lg_crypto mem_log_storage = hex_crypto" "lg_json mem_log_storage = sample_json" "lg_archive mem_log_storage = mem_bucket"
  "lg_batch_bytes mem_log_storage = 1000" "lg_zones mem_log_storage = [down_zone ''z1'', down_zone ''z2'']"
  "lg_closed_encode mem_log_storage c = Inr (u64_to_le_bytes (cs_last_version c) @ u64_to_le_bytes (cs_end_offset c))"
  "lg_closed_decode mem_log_storage b = Inr \<lparr>cs_last_version = u64_from_le_bytes (take 8 b), cs_end_offset = u64_from_le_bytes (drop 8 b)\<rparr>"
  "lg_index_encode mem_log_storage x = Inr []" "lg_batch_interval mem_log_storage = 10"
  by (simp_all add: mem_log_storage_def)

lemma mem_create:
  assumes "map_of m key = None"
  shows "\<exists>m'. archive_create mem_log_storage key b msg m = (Inr (), m') \<and> dom (map_of m') = insert key (dom (map_of m))"
  using assms
  by (auto simp: archive_create_def replace_def mem_bucket_def replace_after_def bind_op_def ensure_op_def ret_op_def update_conv')

lemma str_replace_chars: "set (str_replace_at k from to x) \<subseteq> set to \<union> set x"
  by (induction k "from" to x rule: str_replace_at.induct) auto

text \<open>The physical name of a stream of an actor has no dot, so that the suffixes of the names of
  its objects are unambiguous.\<close>

lemma object_name_no_dot:
  assumes C: "crypto_ok C" and name: "object_name C (stream_prefix C a e) = Inr name"
  shows "CHR ''.'' \<notin> set name"
proof -
  let ?c = "b64_component C"
  let ?shard = "pad_zero 2 (show_radix 16 (unat (sha256 C (str_bytes (as_str (storage_key a))) ! 0)))"
  have ns: "CHR ''/'' \<notin> set (?c x)" for x using b64_component_no_slash [OF C] .
  have 5: "(5 :: nat) = Suc (Suc (Suc (Suc (Suc 0))))" by simp
  have "splitn 5 (CHR ''/'') (actor_path C a @ CHR ''/'' # rest) = [?shard, ?c (project_id a), ?c (actor_name a), ?c (actor_id a), rest]" for rest
    unfolding 5 by (simp add: actor_path_def split_once_append [OF shard_no_slash] split_once_append [OF ns])
  note sp = this [of "show_u64_032x e @ ''/''"]
  have "strip_prefix (ROOT @ ''snapshots/'') (stream_prefix C a e) = Some (actor_path C a @ CHR ''/'' # (show_u64_032x e @ ''/''))"
    unfolding strip_prefix_Some_iff stream_prefix_def by simp
  with name obtain b where n: "name = ''durable-actors-v3-snapshots-'' @ b64url_encode C b @ ''~'' @ str_replace ''/'' ''~'' (show_u64_032x e @ ''/'')"
    by (auto simp: object_name_def sp Let_def result_simps)
  have "url_safe c" if "c \<in> set (b64url_encode C b)" for c using that C by (simp add: crypto_ok_def)
  moreover have "\<not> url_safe (CHR ''.'')" by (simp add: url_safe_def is_ascii_alphanumeric_def)
  ultimately have b: "c \<noteq> CHR ''.''" if "c \<in> set (b64url_encode C b)" for c using that by blast
  have x: "c \<noteq> CHR ''.''" if "c \<in> set (show_u64_032x e)" for c using show_u64_032x_chars [OF that] by auto
  have "set (str_replace ''/'' ''~'' (show_u64_032x e @ ''/'')) \<subseteq> {CHR ''~'', CHR ''/''} \<union> set (show_u64_032x e)"
    using str_replace_chars [of 0 "''/''" "''~''" "show_u64_032x e @ ''/''"] by (auto simp: str_replace_def)
  with b x show ?thesis unfolding n by auto
qed

lemma log_manifest_base:
  obtains base name where "manifest_key hex_crypto log_manifest = Inr (base @ ''.manifest'')" "CHR ''.'' \<notin> set base"
    "object_name hex_crypto (ss_prefix (mf_stream log_manifest)) = Inr name" "base = name @ ''log~id''"
proof -
  obtain key where key: "manifest_key hex_crypto log_manifest = Inr key" using log_manifest_key by blast
  then obtain name where name: "object_name hex_crypto (ss_prefix (mf_stream log_manifest)) = Inr name"
    by (auto simp: manifest_key_def rbind_Inr_iff)
  then have "CHR ''.'' \<notin> set name"
    using object_name_no_dot [OF crypto_ok_hex, of sample_actor 1] by (simp add: log_manifest_def sample_stream_def)
  with key name show ?thesis
    by (intro that [of "name @ ''log~id''" name]) (auto simp: manifest_key_def log_manifest_def)
qed

lemma mem_segment_log:
  assumes "encoded hex_crypto [log_record] bs" "length (concat bs) < 2 ^ 64"
    and "manifest_key hex_crypto log_manifest = Inr (base @ ''.manifest'')" "CHR ''.'' \<notin> set base"
  shows "segment_log mem_log_storage log_manifest base (\<lambda>_. True) map_of [log_record] bs"
proof -
  have "belongs mem_log_storage log_manifest log_record"
    using log_record_belongs [of "[]" "[]"] by (simp add: belongs_def)
  then show ?thesis
    using assms mem.bucket_laws_axioms crypto_ok_hex log_record_consecutive
    by (simp add: segment_log_def zones_read_log_def zones_keep_def down_zone_def)
qed

text \<open>The upload of the only record.\<close>

lemma mem_upload:
  assumes log: "segment_log mem_log_storage log_manifest base (\<lambda>_. True) map_of [log_record] [b]"
    and name: "object_name hex_crypto (ss_prefix (mf_stream log_manifest)) = Inr name" "base = name @ ''log~id''"
    and fresh: "\<forall>key \<in> dom (map_of m). starts_with (base @ ''.'') key"
  shows "\<exists>m'. upload mem_log_storage log_manifest 0 (of_nat (length b)) (Some b) m = (Inr (of_nat (length b)), m') \<and>
    base @ ''.replicated'' \<notin> dom (map_of m') - dom (map_of m)"
proof -
  let ?L = mem_log_storage and ?M = log_manifest and ?key = "batch_name base [log_record] 0 1"
  note facts = segment_logD [OF log]
  have size: "frame_offset [log_record] 1 = length b" "frame_size log_record = length b"
    using slice_length(1) [OF log, of 0 1] by (simp_all add: frame_offset_def)
  have len: "batch_length ?L ?M 0 [log_record] = Inr (length b)"
    using facts(6) size(2) by (auto simp: belongs_def Let_def)
  have dec: "frames_decode hex_crypto b = Inr [log_record]"
    using frames_decode_log [OF crypto_ok_hex, of "[log_record]" "[b]" None] facts(3,4) by (simp add: frames_decode_def)
  have pos: "0 < length b" using size(2) unfolding frame_size_def HEADER_def by linarith
  have add: "checked_add 0 (of_nat (length b)) = Some (of_nat (length b) :: u64)"
    using offset_add [OF facts(12), of 0 1] size(1) by simp
  have key: "batch_key hex_crypto ?M 0 (of_nat (length b)) = Inr ?key"
    using batch_key_name [OF log, of 0 1] size(1) by simp
  have n1: "map_of m ?key = None"
    using fresh by (auto simp: batch_name_def starts_with_iff dom_def)
  obtain m1 where m1: "archive_create ?L ?key b ''conflicting archive batch'' m = (Inr (), m1)"
    "dom (map_of m1) = insert ?key (dom (map_of m))" using mem_create [OF n1] by blast
  define ik where "ik = name @ ''index~'' @ show_u64_020 1 @ ''~'' @ show_u64_020 1 @ ''~'' @ mf_id ?M @ ''.idx''"
  have "\<not> starts_with (base @ ''.'') ik" "ik \<noteq> ?key"
    by (simp_all add: ik_def batch_name_def name(2) starts_with_iff)
  with fresh have "ik \<notin> dom (map_of m1)" unfolding m1(2) by blast
  then have "map_of m1 ik = None" by (simp add: domIff)
  from mem_create [OF this] obtain m2 where m2: "archive_create ?L ik [] ''conflicting archive index'' m1 = (Inr (), m2)"
    "dom (map_of m2) = insert ik (dom (map_of m1))" by blast
  have "index_batch ?L ?M ?key b m1 = (Inr (), m2)"
    using m2(1) size(2) dec name(1)
    by (simp add: index_batch_def bind_op_def lift_op_def ensure_op_def ik_def log_record_def frame_size_def Let_def)
  then have "put_batch ?L ?M 0 b m = (Inr (), m2)"
    using m1(1) add key by (simp add: put_batch_def bind_op_def lift_op_def)
  then have "upload ?L ?M 0 (of_nat (length b)) (Some b) m = (Inr (of_nat (length b)), m2)"
    using dec len pos by (simp add: upload_def archive_source_def bind_op_def lift_op_def ensure_op_def ret_op_def)
  moreover have "base @ ''.replicated'' \<noteq> ik" "base @ ''.replicated'' \<noteq> ?key"
    by (simp_all add: ik_def batch_name_def name(2))
  ultimately show ?thesis unfolding m1(2) m2(2) by (intro exI [of _ m2]) (simp add: m1(2) m2(2))
qed

lemma mem_archiver_returns:
  assumes log: "segment_log mem_log_storage log_manifest base (\<lambda>_. True) map_of [log_record] [b]"
    and name: "object_name hex_crypto (ss_prefix (mf_stream log_manifest)) = Inr name" "base = name @ ''log~id''"
    and small: "length b \<le> 2 ^ 31"
  shows "\<exists>a. archiver_reaches mem_log_storage log_manifest [log_record] [b] (archiver_init 0 []) a \<and>
    wk_at (ar_worker a) = Returned (Inr ()) \<and> ar_logged a = 1"
proof -
  let ?L = mem_log_storage and ?M = log_manifest and ?len = "of_nat (length b) :: u64"
  let ?step = "archiver_step ?L ?M [log_record] [b]" and ?init = "archiver_init 0 [] :: (string \<times> BucketObject) list archiver"
  have "frame_size log_record = length b"
    using slice_length(1) [OF log, of 0 1] by (simp add: frame_offset_def)
  then have pos: "0 < length b" unfolding frame_size_def HEADER_def by linarith
  with small have len: "?len \<noteq> 0" "0 < ?len" by (simp_all add: word_less_nat_alt unat_of_nat flip: unat_eq_zero)
  have lim: "0 < archiver_batch_bytes ?L" by (simp add: archiver_batch_bytes_def)
  have copy: "payload_copy [b] = Inr b"
    using payload_copy_result [of "[b]"] small by (simp add: fits_def MAX_FILE_BYTES_def)
  let ?po = "\<lparr>po_end = ?len, po_closed = True, po_due = Some 10, po_version = 1\<rparr>"
  let ?p = "\<lparr>pn_end = ?len, pn_version = 1, pn_since = Some 0, pn_cache_start = 0, pn_cache = [b], pn_cache_bytes = length b, pn_closed = True\<rparr>"
  let ?q = "?p\<lparr>pn_since := None, pn_cache_start := ?len, pn_cache := [], pn_cache_bytes := 0\<rparr>"
  define a1 where "a1 = ?init\<lparr>ar_pending := ?p\<lparr>pn_closed := False\<rparr>, ar_logged := Suc 0\<rparr>"
  have s1: "?step ?init a1"
    using archiver_step.append [of ?init "[log_record]" ?L ?M "[b]" 0] lim
    by (simp add: archiver_init_def pending_new_def archiver_append_def log_record_def get_or_insert_def a1_def)
  define a2 where "a2 = a1\<lparr>ar_pending := ?p\<rparr>"
  have s2: "?step a1 a2" using archiver_step.close [of ?L ?M "[log_record]" "[b]" a1] by (simp add: a1_def a2_def archiver_close_def)
  define a3 where "a3 = a2\<lparr>ar_worker := worker_new\<lparr>wk_at := Polled ?po\<rparr>\<rparr>"
  have "worker_step ?L ?M 0 (ar_pending a2) (ar_worker a2) (ar_store a2) = (?p, worker_new\<lparr>wk_at := Polled ?po\<rparr>, [])"
    by (simp add: a2_def a1_def archiver_init_def worker_step_def worker_new_def worker_poll_def)
  from archiver_step.work [OF this, of "[log_record]" "[b]"] have s3: "?step a2 a3"
    by (simp add: a3_def a2_def a1_def archiver_init_def)
  obtain m1 where m1: "archive_create ?L (base @ ''.closed'') (u64_to_le_bytes 1 @ u64_to_le_bytes ?len) ''conflicting closed segment'' [] = (Inr (), m1)"
    "dom (map_of m1) = {base @ ''.closed''}" 
    using mem_create [of "[]" "base @ ''.closed''" "u64_to_le_bytes 1 @ u64_to_le_bytes ?len" "''conflicting closed segment''"] by auto
  have "publish_closed ?L ?M ?po (worker_new\<lparr>wk_at := Polled ?po\<rparr>) [] =
      (Inr (worker_new\<lparr>wk_at := Polled ?po, wk_closed_published := True\<rparr>), m1)"
    using m1(1) segment_names(2) [OF log, of "''closed''"]
    by (simp add: publish_closed_def worker_new_def close_segment_def polled_segment_def bind_op_def lift_op_def ret_op_def)
  then have d1: "worker_step ?L ?M 0 (ar_pending a3) (ar_worker a3) (ar_store a3) =
      (?q, worker_new\<lparr>wk_at := Uploading ?po (Some b), wk_closed_published := True\<rparr>, m1)"
    using len pos copy by (simp add: a3_def a2_def a1_def archiver_init_def worker_step_def worker_decide_def
        worker_new_def upload_due_def take_cache_def)
  define a4 where "a4 = a3\<lparr>ar_pending := ?q, ar_worker := worker_new\<lparr>wk_at := Uploading ?po (Some b), wk_closed_published := True\<rparr>, ar_store := m1\<rparr>"
  have s4: "?step a3 a4" using archiver_step.work [OF d1, of "[log_record]" "[b]"] by (simp add: a4_def)
  have "\<forall>key \<in> dom (map_of m1). starts_with (base @ ''.'') key" unfolding m1(2) by (simp add: starts_with_iff)
  from mem_upload [OF log name this] obtain m2 where m2: "upload ?L ?M 0 ?len (Some b) m1 = (Inr ?len, m2)"
    "base @ ''.replicated'' \<notin> dom (map_of m2) - dom (map_of m1)" by blast
  let ?w = "worker_new\<lparr>wk_through := ?len, wk_closed_published := True\<rparr>"
  have d2: "worker_step ?L ?M 0 (ar_pending a4) (ar_worker a4) (ar_store a4) = (?q, ?w, m2)"
    using m2(1) by (simp add: a4_def worker_step_def worker_upload_def worker_new_def upload_done_def)
  define a5 where "a5 = a4\<lparr>ar_pending := ?q, ar_worker := ?w, ar_store := m2\<rparr>"
  have s5: "?step a4 a5" using archiver_step.work [OF d2, of "[log_record]" "[b]"] by (simp add: a5_def)
  let ?po' = "?po\<lparr>po_due := None\<rparr>"
  have d3: "worker_step ?L ?M 0 (ar_pending a5) (ar_worker a5) (ar_store a5) = (?q, ?w\<lparr>wk_at := Polled ?po'\<rparr>, m2)"
    by (simp add: a5_def worker_step_def worker_new_def worker_poll_def)
  define a6 where "a6 = a5\<lparr>ar_pending := ?q, ar_worker := ?w\<lparr>wk_at := Polled ?po'\<rparr>, ar_store := m2\<rparr>"
  have s6: "?step a5 a6" using archiver_step.work [OF d3, of "[log_record]" "[b]"] by (simp add: a6_def)
  have "base @ ''.replicated'' \<notin> dom (map_of m2)" using m2(2) unfolding m1(2) by simp
  then have "map_of m2 (base @ ''.replicated'') = None" by (simp add: domIff)
  from mem_create [OF this] obtain m3 where m3: "archive_create ?L (base @ ''.replicated'') (u64_to_le_bytes 1 @ u64_to_le_bytes ?len)
      ''conflicting replication coverage'' m2 = (Inr (), m3)" by blast
  have "mark_replicated ?L ?M (polled_segment ?po') m2 = (Inr (), m3)"
    using m3 segment_names(2) [OF log, of "''replicated''"] by (simp add: mark_replicated_def polled_segment_def bind_op_def lift_op_def)
  then have d4: "worker_step ?L ?M 0 (ar_pending a6) (ar_worker a6) (ar_store a6) = (?q, ?w\<lparr>wk_at := Returned (Inr ())\<rparr>, m3)"
    by (simp add: a6_def worker_step_def worker_decide_def publish_closed_def worker_new_def ret_op_def)
  define a7 where "a7 = a6\<lparr>ar_pending := ?q, ar_worker := ?w\<lparr>wk_at := Returned (Inr ())\<rparr>, ar_store := m3\<rparr>"
  have s7: "?step a6 a7" using archiver_step.work [OF d4, of "[log_record]" "[b]"] by (simp add: a7_def)
  have "archiver_reaches ?L ?M [log_record] [b] ?init a7"
    by (intro converse_rtranclp_into_rtranclp [where r = ?step, OF s1] converse_rtranclp_into_rtranclp [where r = ?step, OF s2]
        converse_rtranclp_into_rtranclp [where r = ?step, OF s3] converse_rtranclp_into_rtranclp [where r = ?step, OF s4]
        converse_rtranclp_into_rtranclp [where r = ?step, OF s5] converse_rtranclp_into_rtranclp [where r = ?step, OF s6]
        r_into_rtranclp [where r = ?step, OF s7])
  moreover have "wk_at (ar_worker a7) = Returned (Inr ())" "ar_logged a7 = 1"
    by (simp_all add: a7_def a6_def a5_def a4_def a3_def a2_def a1_def)
  ultimately show ?thesis by blast
qed

theorem finished_archive_replaces_replicas_witness:
  "\<exists>s. read_segment mem_log_storage log_manifest True s = (Inr [log_record], s)"
proof -
  let ?L = mem_log_storage and ?M = log_manifest
  obtain base name where base: "manifest_key hex_crypto ?M = Inr (base @ ''.manifest'')" "CHR ''.'' \<notin> set base"
    and name: "object_name hex_crypto (ss_prefix (mf_stream ?M)) = Inr name" "base = name @ ''log~id''"
    by (rule log_manifest_base)
  obtain bs where bs: "encoded hex_crypto [log_record] bs" "length (concat bs) < 2 ^ 64" using log_record_encoded by blast
  then obtain b where b: "bs = [b]" "record_encode hex_crypto log_record = Inr b" by auto
  have log: "segment_log ?L ?M base (\<lambda>_. True) map_of [log_record] [b]" using mem_segment_log [OF bs base] b(1) by simp
  have "length sample_bytes \<le> 2 ^ 30" by (simp add: sample_bytes_def str_bytes_def)
  then have "length b \<le> 2 ^ 31" using record_encode_Inr(2) [OF crypto_ok_hex b(2)] by (simp add: log_record_def HEADER_def)
  from mem_archiver_returns [OF log name this] obtain a where
    a: "archiver_reaches ?L ?M [log_record] [b] (archiver_init 0 []) a" "wk_at (ar_worker a) = Returned (Inr ())" "ar_logged a = 1"
    by blast
  have fresh: "fresh_segment base (\<lambda>_. True) map_of []" by (simp add: fresh_segment_def)
  have v: "checked_add 0 1 = Some (mf_first_version ?M)" by (simp add: log_manifest_def checked_add_def)
  have rt: "\<forall>c b. lg_closed_encode ?L c = Inr b \<longrightarrow> lg_closed_decode ?L b = Inr c" by auto
  have ans: "archive_answers ?L (ar_store a)" by (simp add: archive_answers_def mem_bucket_def)
  from finished_archive_replaces_replicas [OF log fresh v a(1,2) rt ans] a(3) show ?thesis by auto
qed

end
