(* ===== verification/Rapid_Checkpoint.thy ===== *)
theory Rapid_Checkpoint
  imports Rapid_Archiver
begin

text \<open>
  Restoring a database from the log and writing checkpoints (\<open>bucket/rapid/checkpoint.rs\<close>)
  and the snapshot store of the archive bucket (\<open>bucket/rapid/standard.rs\<close>). A restore
  walks the dependencies of a commit through a \<open>LogHistory\<close>, which caches what it read of
  an epoch. A checkpoint replaces the history of a commit by one compacted file; \<open>Progress\<close>
  decides when the next one is due. The task that writes a checkpoint is a value: what it was
  started with until it runs, its result afterwards. Counters for telemetry are left out.
\<close>

section \<open>Snapshots in the archive bucket\<close>

definition gcs_put :: "crypto \<Rightarrow> 's bucket \<Rightarrow> string \<Rightarrow> bytes \<Rightarrow> ('s, unit) op" where
  "gcs_put C B obj b =
     bind_op (lift_op (object_name C obj)) (\<lambda>name.
     bind_op (replace B name None b) (\<lambda>ok.
     ensure_op ok ''conflicting immutable checkpoint'' (ret_op ())))"

definition gcs_get :: "crypto \<Rightarrow> 's bucket \<Rightarrow> string \<Rightarrow> 's \<Rightarrow> bytes option result" where
  "gcs_get C B obj s =
     rbind (object_name C obj) (\<lambda>name. rbind (bk_get B name s) (\<lambda>copy. Inr (map_option obj_bytes copy)))"

fun logical_names :: "string \<Rightarrow> string \<Rightarrow> string list \<Rightarrow> string list result" where
  "logical_names pre physical [] = Inr []"
| "logical_names pre physical (key # keys) =
     rbind (context_opt ''snapshot list escaped its prefix'' (strip_prefix physical key)) (\<lambda>suffix.
     rbind (logical_names pre physical keys) (\<lambda>names. Inr ((pre @ str_replace ''~'' ''/'' suffix) # names)))"

definition gcs_list :: "crypto \<Rightarrow> 's bucket \<Rightarrow> string \<Rightarrow> 's \<Rightarrow> string list result" where
  "gcs_list C B pre s =
     rbind (object_name C pre) (\<lambda>physical.
     rbind (bk_list B physical s) (\<lambda>keys. logical_names pre physical keys))"

definition gcs_latest :: "crypto \<Rightarrow> 's bucket \<Rightarrow> string \<Rightarrow> 's \<Rightarrow> (string \<times> bytes) option result" where
  "gcs_latest C B pre s =
     rbind (gcs_list C B pre s) (\<lambda>keys.
     case max_by_key fst (versioned keys) of
       None \<Rightarrow> Inr None
     | Some (_, key) \<Rightarrow> rbind (gcs_get C B key s) (\<lambda>found. Inr (map_option (\<lambda>b. (key, b)) found)))"

text \<open>The other operations are the defaults of the trait.\<close>

definition gcs_snapshots :: "crypto \<Rightarrow> 's bucket \<Rightarrow> 's snapshot_store" where
  "gcs_snapshots C B =
     \<lparr>st_get = gcs_get C B, st_list = gcs_list C B, st_latest = gcs_latest C B, st_put = gcs_put C B,
      st_prefetch = (\<lambda>_ _. Inr None), st_start = (\<lambda>_ s. (Inr (), s)),
      st_recover = (\<lambda>pre s. case gcs_latest C B pre s of
         Inr (Some (obj, b)) \<Rightarrow> bind_op (gcs_put C B obj b) (\<lambda>_. ret_op (Some (obj, b))) s | r \<Rightarrow> (r, s)),
      st_finish = (\<lambda>_ s. (Inr (), s))\<rparr>"

section \<open>The history of a commit\<close>

record EpochHistory =
  eh_records :: "(string, bytes) btree option"
  eh_indexes :: "string list"
  eh_indexed :: "string \<rightharpoonup> bytes"
  eh_checkpoints :: "string list"

record 's log_history =
  lh_store :: 's
  lh_epochs :: "string \<rightharpoonup> EpochHistory"

definition on_history :: "('s, 'a) op \<Rightarrow> ('s log_history, 'a) op" where
  "on_history f h = (case f (lh_store h) of (r, s) \<Rightarrow> (r, h\<lparr>lh_store := s\<rparr>))"

definition put_epoch :: "string \<Rightarrow> EpochHistory \<Rightarrow> ('s log_history, unit) op" where
  "put_epoch pre e h = (Inr (), h\<lparr>lh_epochs := (lh_epochs h)(pre \<mapsto> e)\<rparr>)"

definition open_epoch :: "('s, 'v) log_storage \<Rightarrow> string \<Rightarrow> ('s log_history, EpochHistory) op" where
  "open_epoch L pre h =
     (case lh_epochs h pre of
        Some e \<Rightarrow> ret_op e
      | None \<Rightarrow>
          bind_op (on_history (\<lambda>s. (st_list (lg_snapshots L) (pre @ ''/'') s, s))) (\<lambda>keys.
          bind_op (on_history (index_keys L (pre @ ''/''))) (\<lambda>indexes.
          let e = \<lparr>eh_records = None, eh_indexes = indexes, eh_indexed = Map.empty,
                   eh_checkpoints = filter (ends_with ''.checkpoint'') keys\<rparr> in
          bind_op (put_epoch pre e) (\<lambda>_. ret_op e)))) h"

text \<open>The version of the newest checkpoint at or before \<open>v\<close>.\<close>

definition first_wanted :: "string list \<Rightarrow> u64 \<Rightarrow> u64" where
  "first_wanted checkpoints v =
     (let vs = filter (\<lambda>w. w \<le> v)
                 (List.map_filter version (List.map_filter (strip_suffix ''.checkpoint'') checkpoints))
      in foldr max vs 0)"

text \<open>A record that was fetched together with others is handed out once.\<close>

definition take_indexed :: "string \<Rightarrow> EpochHistory \<Rightarrow> (string \<rightharpoonup> bytes) \<Rightarrow> string \<Rightarrow> string \<Rightarrow> ('s log_history, bytes) op" where
  "take_indexed pre e records obj msg =
     bind_op (put_epoch pre (e\<lparr>eh_indexed := records(obj := None)\<rparr>)) (\<lambda>_.
     lift_op (context_opt msg (records obj)))"

definition all_records :: "('s, 'v) log_storage \<Rightarrow> string \<Rightarrow> EpochHistory \<Rightarrow> ('s log_history, (string, bytes) btree) op" where
  "all_records L pre e =
     (case eh_records e of
        Some records \<Rightarrow> ret_op records
      | None \<Rightarrow>
          bind_op (on_history (log_records L (pre @ ''/'') False)) (\<lambda>records.
          bind_op (put_epoch pre (e\<lparr>eh_records := Some records\<rparr>)) (\<lambda>_. ret_op records)))"

text \<open>The sources of a record, in the order they are tried: the live tail of the log, the snapshot
  store, the index of the archive, and reading the whole epoch.\<close>

definition history_fetch :: "('s, 'v) log_storage \<Rightarrow> (u64, LiveRecord) btree \<Rightarrow> string \<Rightarrow> string \<Rightarrow> EpochHistory \<Rightarrow>
    ('s log_history, bytes) op" where
  "history_fetch L live obj pre e =
     bind_op (lift_op (context_opt ''invalid snapshot version'' (version obj))) (\<lambda>v.
     let first = first_wanted (eh_checkpoints e) v in
     bind_op (on_history (live_records L live obj first)) (\<lambda>found.
     case found of
       Some records \<Rightarrow> take_indexed pre e records obj ''live SQLite dependency missing''
     | None \<Rightarrow>
         bind_op (on_history (\<lambda>s. (st_get (lg_snapshots L) obj s, s))) (\<lambda>found.
         case found of
           Some b \<Rightarrow> ret_op b
         | None \<Rightarrow>
             bind_op (on_history (indexed_records L obj first (eh_indexes e))) (\<lambda>found.
             case found of
               Some records \<Rightarrow> take_indexed pre e records obj ''indexed SQLite dependency missing''
             | None \<Rightarrow>
                 bind_op (all_records L pre e) (\<lambda>records.
                 lift_op (context_opt ''SQLite dependency missing'' (map_of records obj)))))))"

definition history_read :: "('s, 'v) log_storage \<Rightarrow> (u64, LiveRecord) btree \<Rightarrow> string \<Rightarrow> ('s log_history, bytes) op" where
  "history_read L live obj =
     bind_op (lift_op (context_opt ''invalid snapshot name'' (rsplit_once (CHR ''/'') obj))) (\<lambda>(pre, _).
     bind_op (open_epoch L pre) (\<lambda>e.
     case Option.bind (eh_records e) (\<lambda>records. map_of records obj) of
       Some b \<Rightarrow> ret_op b
     | None \<Rightarrow>
         (case eh_indexed e obj of
            Some b \<Rightarrow> bind_op (put_epoch pre (e\<lparr>eh_indexed := (eh_indexed e)(obj := None)\<rparr>)) (\<lambda>_. ret_op b)
          | None \<Rightarrow> history_fetch L live obj pre e)))"

definition history_checkpoint :: "('s, 'v) log_storage \<Rightarrow> string \<Rightarrow> ('s log_history, bytes option) op" where
  "history_checkpoint L obj h =
     (let key = obj @ ''.checkpoint'' in
      bind_op (lift_op (context_opt ''invalid snapshot name'' (rsplit_once (CHR ''/'') obj))) (\<lambda>(pre, _).
      if (case lh_epochs h pre of Some e \<Rightarrow> key \<notin> set (eh_checkpoints e) | None \<Rightarrow> False) then ret_op None
      else on_history (\<lambda>s. (st_get (lg_snapshots L) key s, s))) h)"

definition log_history :: "('s, 'v) log_storage \<Rightarrow> (u64, LiveRecord) btree \<Rightarrow> 's log_history snapshot_history" where
  "log_history L live = \<lparr>h_read = history_read L live, h_checkpoint = history_checkpoint L\<rparr>"

section \<open>Restoring and checkpointing\<close>

definition log_restore :: "('s, 'v) log_storage \<Rightarrow> (u64, LiveRecord) btree \<Rightarrow> string \<Rightarrow> bytes \<Rightarrow> PrefetchedCheckpoint option \<Rightarrow>
    's \<Rightarrow> (ResolvedSqlite result \<times> 's) option" where
  "log_restore L live obj b checkpoint s =
     map_option (\<lambda>(r, h). (r, lh_store h))
       (resolve (lg_crypto L) (lg_json L) (lg_checkpoint_json L) (log_history L live) obj b checkpoint
          \<lparr>lh_store = s, lh_epochs = Map.empty\<rparr>)"

definition sqlite_bytes :: "LtxFile list \<Rightarrow> u64" where
  "sqlite_bytes fs = sum_list (map (\<lambda>f. of_nat (length (ltx_data f))) fs)"

definition checkpoint_file :: "('s, 'v) log_storage \<Rightarrow> LtxFile list \<Rightarrow> LtxFile result" where
  "checkpoint_file L fs =
     (case fs of
        [f] \<Rightarrow> if ltx_level f = 9 then Inr f else with_context ''compact SQLite checkpoint'' (lg_compact L fs)
      | _ \<Rightarrow> with_context ''compact SQLite checkpoint'' (lg_compact L fs))"

definition publish_checkpoint :: "('s, 'v) log_storage \<Rightarrow> string \<Rightarrow> SnapshotRef \<Rightarrow> SqliteSnapshot \<Rightarrow> ('s, u64 option) op" where
  "publish_checkpoint L key source sq =
     bind_op (lift_op (checkpoint_file L (files sq))) (\<lambda>f.
     bind_op (lift_op (checkpoint_encode (lg_checkpoint_json L)
       \<lparr>cp_source = source, cp_sqlite = \<lparr>txid = txid sq, parent = None, files = [f]\<rparr>\<rparr>)) (\<lambda>bytes.
     bind_op (st_put (lg_snapshots L) key bytes) (\<lambda>_.
     ret_op (Some (sqlite_bytes [f])))))"

definition log_checkpoint :: "('s, 'v) log_storage \<Rightarrow> (u64, LiveRecord) btree \<Rightarrow> string \<Rightarrow> bytes \<Rightarrow> 's \<Rightarrow> (u64 option result \<times> 's) option" where
  "log_checkpoint L live obj b s =
     (case snapshot_decode (lg_json L) b of
        Inl e \<Rightarrow> Some (Inl e, s)
      | Inr snapshot \<Rightarrow>
          if parent (sqlite snapshot) = None then Some (Inr (Some (sqlite_bytes (files (sqlite snapshot)))), s)
          else
            let source = snapshot_ref_new (lg_crypto L) obj snapshot b; key = obj @ ''.checkpoint'' in
            case st_get (lg_snapshots L) key s of
              Inl e \<Rightarrow> Some (Inl e, s)
            | Inr (Some stored) \<Rightarrow>
                Some (rbind (checkpoint_decode (lg_checkpoint_json L) stored source (txid (sqlite snapshot))) (\<lambda>sq.
                      Inr (Some (sqlite_bytes (files sq)))), s)
            | Inr None \<Rightarrow>
                (case log_restore L live obj b None s of
                   None \<Rightarrow> None
                 | Some (Inl e, s) \<Rightarrow> Some (Inl ''resolve checkpoint inputs'', s)
                 | Some (Inr restored, s) \<Rightarrow> Some (publish_checkpoint L key source (rs_sqlite restored) s)))"

section \<open>When a checkpoint is due\<close>

definition MIN_LOG_BYTES :: u64 where "MIN_LOG_BYTES = 1024 * 1024"

text \<open>The value outside of tests.\<close>

definition MAX_LOG_VERSIONS :: u64 where "MAX_LOG_VERSIONS = 256"

datatype checkpoint_task =
    Running string bytes
  | Done "u64 option result"

record Progress =
  pg_completed :: u64
  pg_base_bytes :: u64
  pg_logged :: "(u64 \<times> u64) list"
  pg_task :: "(u64 \<times> checkpoint_task) option"
  pg_retry_at :: "nat option"

definition progress_default :: Progress where
  "progress_default = \<lparr>pg_completed = 0, pg_base_bytes = 0, pg_logged = [], pg_task = None, pg_retry_at = None\<rparr>"

definition progress_restored :: "ResolvedSqlite \<Rightarrow> u64 \<Rightarrow> Progress \<Rightarrow> Progress" where
  "progress_restored restored v pg =
     (let pg = pg\<lparr>pg_completed := max (pg_completed pg) (rs_checkpoint_version restored),
                  pg_base_bytes := of_nat (rs_base_bytes restored)\<rparr>
      in if pg_completed pg < v then pg\<lparr>pg_logged := pg_logged pg @ [(v, of_nat (rs_log_bytes restored))]\<rparr> else pg)"

definition progress_logged :: "u64 \<Rightarrow> u64 \<Rightarrow> Progress \<Rightarrow> Progress" where
  "progress_logged v bytes pg = pg\<lparr>pg_logged := pg_logged pg @ [(v, bytes)]\<rparr>"

definition progress_due :: "Progress \<Rightarrow> u64 \<Rightarrow> bool" where
  "progress_due pg v \<longleftrightarrow>
     (let logged = sum_list (map snd (pg_logged pg)) in
      MAX_LOG_VERSIONS \<le> (if pg_completed pg \<le> v then v - pg_completed pg else 0) \<or>
      pg_completed pg < v \<and> max (pg_base_bytes pg) MIN_LOG_BYTES \<le> logged)"

definition progress_completed :: "u64 \<Rightarrow> u64 option \<Rightarrow> Progress \<Rightarrow> Progress" where
  "progress_completed v base pg =
     (if v \<le> pg_completed pg then pg
      else
        let pg = pg\<lparr>pg_completed := v\<rparr>;
            pg = (case base of Some bytes \<Rightarrow> pg\<lparr>pg_base_bytes := bytes\<rparr> | None \<Rightarrow> pg)
        in pg\<lparr>pg_logged := dropWhile (\<lambda>(logged, _). logged \<le> v) (pg_logged pg)\<rparr>)"

definition progress_start :: "string \<Rightarrow> bytes \<Rightarrow> u64 \<Rightarrow> Progress \<Rightarrow> Progress" where
  "progress_start obj b v pg = pg\<lparr>pg_task := Some (v, Running obj b)\<rparr>"

definition progress_collect :: "nat \<Rightarrow> Progress \<Rightarrow> Progress" where
  "progress_collect now pg =
     (case pg_task pg of
        Some (v, Done r) \<Rightarrow>
          let pg = pg\<lparr>pg_task := None\<rparr> in
          (case r of
             Inr base \<Rightarrow> (progress_completed v base pg)\<lparr>pg_retry_at := None\<rparr>
           | Inl e \<Rightarrow> pg\<lparr>pg_retry_at := Some (now + 5000)\<rparr>)
      | _ \<Rightarrow> pg)"

definition progress_schedule :: "nat \<Rightarrow> (string \<times> bytes) option \<Rightarrow> u64 \<Rightarrow> Progress \<Rightarrow> Progress" where
  "progress_schedule now newest v pg =
     (let pg = progress_collect now pg in
      if pg_task pg \<noteq> None \<or> \<not> progress_due pg v \<or> (case pg_retry_at pg of Some t \<Rightarrow> now < t | None \<Rightarrow> False) then pg
      else case newest of Some (obj, b) \<Rightarrow> progress_start obj b v pg | None \<Rightarrow> pg)"

text \<open>The task of a checkpoint, when it runs. A walk that does not return is cut off by the time
  limit of the task.\<close>

definition checkpoint_run :: "('s, 'v) log_storage \<Rightarrow> (u64, LiveRecord) btree \<Rightarrow> Progress \<Rightarrow> 's \<Rightarrow> Progress \<times> 's" where
  "checkpoint_run L live pg s =
     (case pg_task pg of
        Some (v, Running obj b) \<Rightarrow>
          (case log_checkpoint L live obj b s of
             None \<Rightarrow> (pg\<lparr>pg_task := Some (v, Done (Inl ''checkpoint timed out''))\<rparr>, s)
           | Some (r, s) \<Rightarrow> (pg\<lparr>pg_task := Some (v, Done r)\<rparr>, s))
      | _ \<Rightarrow> (pg, s))"

text \<open>The deadline may cut the task off before or after it took effect: \<open>took_effect\<close> says whether
  it took effect, \<open>in_time\<close> whether it also ended before the deadline.\<close>

definition progress_finish :: "('s, 'v) log_storage \<Rightarrow> (u64, LiveRecord) btree \<Rightarrow> nat \<Rightarrow> bool \<Rightarrow> bool \<Rightarrow> string \<Rightarrow> bytes \<Rightarrow> u64 \<Rightarrow>
    Progress \<Rightarrow> 's \<Rightarrow> Progress \<times> 's" where
  "progress_finish L live now took_effect in_time obj b v pg s =
     (let pg = progress_collect now pg in
      if v \<le> pg_completed pg then (pg, s)
      else
        let pg = (case pg_task pg of Some (running, _) \<Rightarrow> if running \<noteq> v then pg\<lparr>pg_task := None\<rparr> else pg | None \<Rightarrow> pg);
            pg = (if pg_task pg = None then progress_start obj b v pg else pg)
        in case if took_effect then checkpoint_run L live pg s else (pg, s) of (pg, s) \<Rightarrow>
          (case pg_task pg of
             Some (v, Done (Inr base)) \<Rightarrow>
               (if in_time then progress_completed v base (pg\<lparr>pg_task := None\<rparr>) else pg\<lparr>pg_task := None\<rparr>, s)
           | _ \<Rightarrow> (pg\<lparr>pg_task := None\<rparr>, s)))"

section \<open>Progress is well formed\<close>

text \<open>The logged sizes belong to versions after the last checkpoint, each version once and in
  order; neither the last checkpoint nor a running one is ahead of the session.\<close>

definition progress_ok :: "u64 \<Rightarrow> Progress \<Rightarrow> bool" where
  "progress_ok v pg \<longleftrightarrow> sorted_wrt (<) (map fst (pg_logged pg)) \<and>
     (\<forall>w \<in> fst ` set (pg_logged pg). pg_completed pg < w \<and> w \<le> v) \<and> pg_completed pg \<le> v \<and>
     (\<forall>w t. pg_task pg = Some (w, t) \<longrightarrow> w \<le> v)"

lemma progress_ok_default: "progress_ok v progress_default"
  by (simp add: progress_ok_def progress_default_def)

lemma progress_ok_logged: "progress_ok v pg \<Longrightarrow> v < w \<Longrightarrow> progress_ok w (progress_logged w n pg)"
  by (fastforce simp: progress_ok_def progress_logged_def sorted_wrt_append)

lemma progress_ok_restored:
  assumes "progress_ok v pg" "pg_logged pg = []" "rs_checkpoint_version restored \<le> v"
  shows "progress_ok v (progress_restored restored v pg)"
  using assms by (auto simp: progress_ok_def progress_restored_def Let_def)

lemma progress_ok_completed:
  assumes "progress_ok v pg" "w \<le> v"
  shows "progress_ok v (progress_completed w base pg)"
proof (cases "w \<le> pg_completed pg")
  case True
  with assms show ?thesis by (simp add: progress_completed_def)
next
  case False
  let ?drop = "dropWhile (\<lambda>(logged, _). logged \<le> w) (pg_logged pg)"
  have s: "sorted_wrt (<) (map fst (pg_logged pg))" using assms by (simp add: progress_ok_def)
  obtain xs where xs: "pg_logged pg = xs @ ?drop" by (metis takeWhile_dropWhile_id)
  have s': "sorted_wrt (<) (map fst ?drop)" using s by (subst (asm) xs) (simp add: sorted_wrt_append)
  have "w < x" if "x \<in> fst ` set ?drop" for x
  proof (cases ?drop)
    case Nil
    with that show ?thesis by (simp only: list.set image_empty empty_iff)
  next
    case (Cons y ys)
    then have "w < fst y" using hd_dropWhile [of "\<lambda>(logged, _). logged \<le> w" "pg_logged pg"] by (auto simp: case_prod_beta)
    with that s' Cons show ?thesis by auto
  qed
  moreover have "set ?drop \<subseteq> set (pg_logged pg)" using set_dropWhileD by fastforce
  ultimately show ?thesis using assms s' False
    by (auto simp: progress_ok_def progress_completed_def Let_def split: option.splits)
qed

lemma progress_task_completed [simp]: "pg_task (progress_completed w base pg) = pg_task pg"
  by (simp add: progress_completed_def Let_def split: option.splits)

lemma progress_ok_no_task: "progress_ok v pg \<Longrightarrow> progress_ok v (pg\<lparr>pg_task := None\<rparr>)"
  by (simp add: progress_ok_def)

lemma progress_ok_collect: "progress_ok v pg \<Longrightarrow> progress_ok v (progress_collect now pg)"
proof (cases "\<exists>w r. pg_task pg = Some (w, Done r)")
  case True
  assume ok: "progress_ok v pg"
  from True obtain w r where t: "pg_task pg = Some (w, Done r)" by blast
  with ok have "w \<le> v" by (simp add: progress_ok_def)
  from progress_ok_completed [OF progress_ok_no_task [OF ok] this] progress_ok_no_task [OF ok] t show ?thesis
    by (cases r) (simp_all add: progress_collect_def progress_ok_def)
qed (auto simp: progress_collect_def split: option.splits checkpoint_task.splits)

lemma progress_ok_schedule: "progress_ok v pg \<Longrightarrow> progress_ok v (progress_schedule now newest v pg)"
  using progress_ok_collect [of v pg now]
  by (auto simp: progress_schedule_def Let_def progress_start_def progress_ok_def split: option.splits)

lemma progress_ok_run: "progress_ok v pg \<Longrightarrow> checkpoint_run L live pg s = (pg', s') \<Longrightarrow> progress_ok v pg'"
  by (fastforce simp: checkpoint_run_def progress_ok_def split: option.splits prod.splits checkpoint_task.splits)

lemma progress_ok_finish:
  assumes "progress_ok v pg" "progress_finish L live now took_effect in_time obj b v pg s = (pg', s')"
  shows "progress_ok v pg'"
proof (cases "v \<le> pg_completed (progress_collect now pg)")
  case True
  with assms progress_ok_collect [OF assms(1), of now] show ?thesis by (simp add: progress_finish_def Let_def)
next
  case False
  define pg1 where "pg1 = progress_collect now pg"
  define pg2 where "pg2 = (case pg_task pg1 of Some (running, _) \<Rightarrow> if running \<noteq> v then pg1\<lparr>pg_task := None\<rparr> else pg1 | None \<Rightarrow> pg1)"
  define pg3 where "pg3 = (if pg_task pg2 = None then progress_start obj b v pg2 else pg2)"
  have "progress_ok v pg1" using progress_ok_collect [OF assms(1)] by (simp add: pg1_def)
  then have "progress_ok v pg2" by (simp add: pg2_def progress_ok_no_task split: option.splits)
  then have ok3: "progress_ok v pg3" by (auto simp: pg3_def progress_start_def progress_ok_def)
  obtain pg4 s4 where run: "(if took_effect then checkpoint_run L live pg3 s else (pg3, s)) = (pg4, s4)" by fastforce
  have ok4: "progress_ok v pg4" using run progress_ok_run [OF ok3] ok3 by (auto split: if_splits)
  then have task: "w \<le> v" if "pg_task pg4 = Some (w, t)" for w t using that by (simp add: progress_ok_def)
  from assms(2) False run have "pg' = pg4\<lparr>pg_task := None\<rparr> \<or>
      (\<exists>w base. pg_task pg4 = Some (w, Done (Inr base)) \<and> pg' = progress_completed w base (pg4\<lparr>pg_task := None\<rparr>))"
    unfolding progress_finish_def Let_def pg1_def [symmetric] pg2_def [symmetric] pg3_def [symmetric]
    by (auto split: option.splits prod.splits checkpoint_task.splits sum.splits if_splits)
  with progress_ok_no_task [OF ok4] task progress_ok_completed show ?thesis by blast
qed

end
