(* ===== verification/Op_Logic.thy ===== *)
theory Op_Logic
  imports DA_Prelude
begin

text \<open>
  Reasoning about operations that only add to a store. \<open>keeps I v m Q\<close> says that the
  operation \<open>m\<close> keeps the invariant \<open>I\<close>, that the objects \<open>v\<close> of the state are
  all still there unchanged, whether it succeeds or fails, and that a result satisfies
  \<open>Q\<close>. There is a rule for every way in which operations are composed.
\<close>

definition keeps :: "('t \<Rightarrow> bool) \<Rightarrow> ('t \<Rightarrow> 'k \<rightharpoonup> 'o) \<Rightarrow> ('t, 'a) op \<Rightarrow> ('a \<Rightarrow> bool) \<Rightarrow> bool" where
  "keeps I v m Q \<longleftrightarrow> (\<forall>t r t'. I t \<longrightarrow> m t = (r, t') \<longrightarrow> I t' \<and> v t \<subseteq>\<^sub>m v t' \<and> (\<forall>x. r = Inr x \<longrightarrow> Q x))"

lemma keepsI:
  assumes "\<And>t r t'. I t \<Longrightarrow> m t = (r, t') \<Longrightarrow> I t' \<and> v t \<subseteq>\<^sub>m v t' \<and> (\<forall>x. r = Inr x \<longrightarrow> Q x)"
  shows "keeps I v m Q"
  using assms by (simp add: keeps_def)

lemma keepsD:
  assumes "keeps I v m Q" "I t" "m t = (r, t')"
  shows "I t'" "v t \<subseteq>\<^sub>m v t'" "r = Inr x \<Longrightarrow> Q x"
  using assms unfolding keeps_def by blast+

lemma keeps_weaken: "keeps I v m Q' \<Longrightarrow> (\<And>x. Q' x \<Longrightarrow> Q x) \<Longrightarrow> keeps I v m Q"
  by (simp add: keeps_def)

lemma keeps_any: "keeps I v m Q \<Longrightarrow> keeps I v m (\<lambda>_. True)"
  by (erule keeps_weaken) simp

lemma keeps_ret: "Q x \<Longrightarrow> keeps I v (ret_op x) Q"
  by (simp add: keeps_def ret_op_def)

lemma keeps_lift: "(\<And>x. r = Inr x \<Longrightarrow> Q x) \<Longrightarrow> keeps I v (lift_op r) Q"
  by (auto simp: keeps_def lift_op_def)

lemma keeps_read: "(\<And>t x. I t \<Longrightarrow> f t = Inr x \<Longrightarrow> Q x) \<Longrightarrow> keeps I v (\<lambda>t. (f t, t)) Q"
  by (auto simp: keeps_def)

lemma keeps_bind:
  assumes m: "keeps I v m Q'" and f: "\<And>x. Q' x \<Longrightarrow> keeps I v (f x) Q"
  shows "keeps I v (bind_op m f) Q"
proof (rule keepsI)
  fix t r t'
  assume I: "I t" and b: "bind_op m f t = (r, t')"
  obtain c t1 where c: "m t = (c, t1)" by fastforce
  note M = keepsD [OF m I c]
  show "I t' \<and> v t \<subseteq>\<^sub>m v t' \<and> (\<forall>x. r = Inr x \<longrightarrow> Q x)"
  proof (cases c)
    case (Inl e)
    with b c M show ?thesis by (auto simp: bind_op_def)
  next
    case (Inr x)
    with b c have F: "f x t1 = (r, t')" by (simp add: bind_op_def)
    note K = keepsD [OF f [OF M(3) [OF Inr]] M(1) F]
    from K(1) map_le_trans [OF M(2) K(2)] K(3) show ?thesis by blast
  qed
qed

lemma keeps_ensure: "(c \<Longrightarrow> keeps I v m Q) \<Longrightarrow> keeps I v (ensure_op c msg m) Q"
  by (cases c) (auto simp: keeps_def ensure_op_def)

lemma keeps_try: "keeps I v m Q \<Longrightarrow> keeps I v (try_op m) (\<lambda>r. \<forall>x. r = Inr x \<longrightarrow> Q x)"
  unfolding keeps_def try_op_def by (auto split: prod.splits)

lemma keeps_if: "(c \<Longrightarrow> keeps I v m Q) \<Longrightarrow> (\<not> c \<Longrightarrow> keeps I v n Q) \<Longrightarrow> keeps I v (if c then m else n) Q"
  by simp

lemma keeps_option:
  "(x = None \<Longrightarrow> keeps I v m Q) \<Longrightarrow> (\<And>y. x = Some y \<Longrightarrow> keeps I v (n y) Q) \<Longrightarrow>
    keeps I v (case x of None \<Rightarrow> m | Some y \<Rightarrow> n y) Q"
  by (cases x) auto

lemma keeps_sum:
  "(\<And>y. x = Inl y \<Longrightarrow> keeps I v (m y) Q) \<Longrightarrow> (\<And>y. x = Inr y \<Longrightarrow> keeps I v (n y) Q) \<Longrightarrow>
    keeps I v (case x of Inl y \<Rightarrow> m y | Inr y \<Rightarrow> n y) Q"
  by (cases x) auto

lemma keeps_prod: "(\<And>a b. x = (a, b) \<Longrightarrow> keeps I v (m a b) Q) \<Longrightarrow> keeps I v (case x of (a, b) \<Rightarrow> m a b) Q"
  by (cases x) auto

lemma keeps_list:
  "(x = [] \<Longrightarrow> keeps I v m Q) \<Longrightarrow> (\<And>y ys. x = y # ys \<Longrightarrow> keeps I v (n y ys) Q) \<Longrightarrow>
    keeps I v (case x of [] \<Rightarrow> m | y # ys \<Rightarrow> n y ys) Q"
  by (cases x) auto

lemma keeps_let: "(\<And>y. y = x \<Longrightarrow> keeps I v (m y) Q) \<Longrightarrow> keeps I v (let y = x in m y) Q"
  by simp

lemmas keeps_rules = keeps_bind keeps_ensure keeps_if keeps_option keeps_sum keeps_prod keeps_list keeps_let

text \<open>The same when nothing is claimed of the result.\<close>

abbreviation only_adds :: "('t \<Rightarrow> bool) \<Rightarrow> ('t \<Rightarrow> 'k \<rightharpoonup> 'o) \<Rightarrow> ('t, 'a) op \<Rightarrow> bool" where
  "only_adds I v m \<equiv> keeps I v m (\<lambda>_. True)"

lemma adds_ret: "only_adds I v (ret_op x)"
  by (rule keeps_ret) simp

lemma adds_lift: "only_adds I v (lift_op r)"
  by (rule keeps_lift) simp

lemma adds_read: "only_adds I v (\<lambda>t. (f t, t))"
  by (rule keeps_read) simp

lemma adds_bind: "only_adds I v m \<Longrightarrow> (\<And>x. only_adds I v (f x)) \<Longrightarrow> only_adds I v (bind_op m f)"
  by (rule keeps_bind)

lemma adds_try: "only_adds I v m \<Longrightarrow> only_adds I v (try_op m)"
  using keeps_try keeps_any by fast

lemmas adds_rules = adds_bind adds_ret adds_lift adds_read adds_try keeps_ensure keeps_if keeps_option keeps_sum keeps_prod
  keeps_list keeps_let

text \<open>Operations that run on a part of the state.\<close>

lemma keeps_on:
  assumes m: "keeps I v m Q" and I: "\<And>t. J t \<Longrightarrow> I (get t)" and put: "\<And>t s. J t \<Longrightarrow> I s \<Longrightarrow> J (upd s t)"
    and v: "\<And>t. w t = v (get t)" and gp: "\<And>t s. get (upd s t) = s"
  shows "keeps J w (\<lambda>t. case m (get t) of (r, s) \<Rightarrow> (r, upd s t)) Q"
proof (rule keepsI)
  fix t r t'
  assume J: "J t" and eq: "(case m (get t) of (r, s) \<Rightarrow> (r, upd s t)) = (r, t')"
  obtain c s where c: "m (get t) = (c, s)" by fastforce
  with eq have rt: "r = c" "t' = upd s t" by simp_all
  note M = keepsD [OF m I [OF J] c]
  show "J t' \<and> w t \<subseteq>\<^sub>m w t' \<and> (\<forall>x. r = Inr x \<longrightarrow> Q x)"
    using put [OF J M(1)] M(2,3) unfolding rt v gp by blast
qed

text \<open>Computations that may run for ever.\<close>

definition keeps_opt :: "('t \<Rightarrow> bool) \<Rightarrow> ('t \<Rightarrow> 'k \<rightharpoonup> 'o) \<Rightarrow> ('t \<Rightarrow> ('a \<times> 't) option) \<Rightarrow> bool" where
  "keeps_opt I v m \<longleftrightarrow> (\<forall>t r t'. I t \<longrightarrow> m t = Some (r, t') \<longrightarrow> I t' \<and> v t \<subseteq>\<^sub>m v t')"

lemma keeps_optD:
  assumes "keeps_opt I v m" "I t" "m t = Some (r, t')"
  shows "I t'" "v t \<subseteq>\<^sub>m v t'"
  using assms unfolding keeps_opt_def by blast+

end
