(* ===== verification/Rapid_Session.thy ===== *)
theory Rapid_Session
  imports Rapid_Checkpoint Op_Logic
begin

text \<open>
  The writing side of the Rapid log: opening and appending to segments
  (\<open>bucket/rapid/prepared.rs\<close>, \<open>bucket/rapid/segment.rs\<close>), the session of an
  activation (\<open>bucket/rapid/writer.rs\<close>) and the snapshot store built on it
  (\<open>RapidSnapshots\<close> in \<open>bucket/rapid.rs\<close>).

  The tasks that a session spawns are values: the opening of a segment is its arguments until it
  is awaited or polled, an archive worker is the state of \<open>Rapid_Archiver\<close>, which proceeds
  in steps of its own, a checkpoint is the task of \<open>Progress\<close>. The environment \<open>E\<close>
  answers the n-th question for the time, for a UUID, for the order in which zones answer and
  for whether a task is ready; \<open>le_patience\<close> is the number of worker steps that fit in the
  time limit of an operation.
\<close>

section \<open>Environment and state\<close>

record ('s, 'v) log_env =
  le_log :: "('s, 'v) log_storage"
  le_now :: "nat \<Rightarrow> nat"
  le_uuid :: "nat \<Rightarrow> string"
  le_order :: "nat \<Rightarrow> 's log_zone list \<Rightarrow> 's log_zone list"
  le_ready :: "nat \<Rightarrow> bool"
  le_patience :: nat

record 's Prepared =
  pd_id :: string
  pd_prefix :: string
  pd_zones :: "'s log_zone list"
  pd_placement :: RapidPlacement

record 's log_state =
  ls_store :: 's
  ls_prepared :: "'s Prepared option"
  ls_live :: "(u64, LiveRecord) btree"
  ls_tick :: nat

definition on_log_store :: "('s, 'a) op \<Rightarrow> ('s log_state, 'a) op" where
  "on_log_store f l = (case f (ls_store l) of (r, s) \<Rightarrow> (r, l\<lparr>ls_store := s\<rparr>))"

definition log_ask :: "(nat \<Rightarrow> 'a) \<Rightarrow> ('s log_state, 'a) op" where
  "log_ask f l = (Inr (f (ls_tick l)), l\<lparr>ls_tick := Suc (ls_tick l)\<rparr>)"

section \<open>Opening the replicas\<close>

definition prepared_new :: "('s, 'v) log_env \<Rightarrow> string \<Rightarrow> 's log_zone list \<Rightarrow> RapidPlacement \<Rightarrow> ('s log_state, 's Prepared) op" where
  "prepared_new E pre zones place =
     bind_op (log_ask (le_uuid E)) (\<lambda>id.
     ret_op \<lparr>pd_id = id, pd_prefix = pre, pd_zones = zones, pd_placement = place\<rparr>)"

fun open_zones :: "string \<Rightarrow> 's log_zone list \<Rightarrow> 's \<Rightarrow> ('s log_zone \<times> Replica) list \<times> 's" where
  "open_zones obj [] s = ([], s)"
| "open_zones obj (z # zs) s =
     (case zn_open z obj s of (r, s) \<Rightarrow>
      case open_zones obj zs s of (opened, s) \<Rightarrow>
        (case r of Inr rep \<Rightarrow> (z, rep) # opened | Inl _ \<Rightarrow> opened, s))"

fun delete_opened :: "'s log_zone list \<Rightarrow> ('s log_zone \<times> Replica) list \<Rightarrow> 's \<Rightarrow> 's" where
  "delete_opened zones [] s = s"
| "delete_opened zones ((_, rep) # opened) s =
     delete_opened zones opened
       (case find (\<lambda>z. zn_bucket z = rl_bucket rep) zones of Some z \<Rightarrow> snd (zn_delete z rep s) | None \<Rightarrow> s)"

definition open_all :: "'s log_zone list \<Rightarrow> string \<Rightarrow> ('s, ('s log_zone \<times> Replica) list option) op" where
  "open_all zones obj s =
     (case open_zones obj zones s of (opened, s) \<Rightarrow>
        if length opened = length zones then (Inr (Some opened), s)
        else (Inr None, delete_opened zones opened s))"

text \<open>The zones that open after the first are deleted again.\<close>

fun discard_opens :: "string \<Rightarrow> 's log_zone list \<Rightarrow> 's \<Rightarrow> 's" where
  "discard_opens obj [] s = s"
| "discard_opens obj (z # zs) s =
     (case zn_open z obj s of
        (Inr rep, s) \<Rightarrow> discard_opens obj zs (snd (zn_delete z rep s))
      | (Inl _, s) \<Rightarrow> discard_opens obj zs s)"

text \<open>The zones in the order in which they answer.\<close>

fun open_nearest :: "'s log_zone list \<Rightarrow> string \<Rightarrow> ('s, ('s log_zone \<times> Replica) list option) op" where
  "open_nearest [] obj s = (Inr None, s)"
| "open_nearest (z # zs) obj s =
     (case zn_open z obj s of
        (Inr rep, s) \<Rightarrow> (Inr (Some [(z, rep)]), discard_opens obj zs s)
      | (Inl _, s) \<Rightarrow> open_nearest zs obj s)"

definition prepared_take :: "('s, 'v) log_env \<Rightarrow> 's Prepared \<Rightarrow> ('s log_state, ('s log_zone \<times> Replica) list option) op" where
  "prepared_take E p =
     (let obj = pd_prefix p @ pd_id p @ ''.segment'' in
      case pd_placement p of
        All \<Rightarrow> on_log_store (open_all (pd_zones p) obj)
      | Nearest \<Rightarrow>
          bind_op (log_ask (le_order E)) (\<lambda>order. on_log_store (open_nearest (order (pd_zones p)) obj)))"

section \<open>Segments\<close>

record 's Segment =
  sg_manifest :: Manifest
  sg_zones :: "'s log_zone list"
  sg_writers :: "('s log_zone \<times> Replica) list"
  sg_offset :: u64
  sg_healthy :: bool

definition take_prepared :: "('s log_state, 's Prepared option) op" where
  "take_prepared l = (Inr (ls_prepared l), l\<lparr>ls_prepared := None\<rparr>)"

definition logs_prefix :: "crypto \<Rightarrow> ActorKey \<Rightarrow> string result" where
  "logs_prefix C actor =
     rbind (snapshots C actor) (\<lambda>pre. rbind (object_name C pre) (\<lambda>name. Inr (replace_first ''snapshots-'' ''logs-'' name)))"

definition segment_open :: "('s, 'v) log_env \<Rightarrow> StateStream \<Rightarrow> u64 \<Rightarrow> 's log_zone list option \<Rightarrow> ('s log_state, 's Segment option) op" where
  "segment_open E strm first placed =
     (let L = le_log E; C = lg_crypto L in
      bind_op (lift_op (actor_from_snapshot C (stream_object strm first))) (\<lambda>actor.
      bind_op (lift_op (logs_prefix C actor)) (\<lambda>pre.
      bind_op take_prepared (\<lambda>prepared.
      bind_op (case prepared of
          Some p \<Rightarrow> ensure_op (pd_prefix p = pre) ''prepared log belongs to another actor'' (ret_op p)
        | None \<Rightarrow>
            (case placed of
               Some zones \<Rightarrow> prepared_new E pre zones All
             | None \<Rightarrow> prepared_new E pre (lg_zones L) (lg_placement L))) (\<lambda>p.
      bind_op (prepared_take E p) (\<lambda>opened.
      case opened of
        None \<Rightarrow> ret_op None
      | Some opened \<Rightarrow>
          let M = \<lparr>mf_format = 1, mf_id = pd_id p, mf_stream = strm, mf_first_version = first, mf_replicas = map snd opened\<rparr> in
          bind_op (lift_op (replica_zones L (mf_replicas M))) (\<lambda>zones.
          bind_op (lift_op (manifest_key C M)) (\<lambda>key.
          bind_op (lift_op (lg_manifest_encode L M)) (\<lambda>b.
          bind_op (on_log_store (archive_create L key b ''conflicting log manifest'')) (\<lambda>_.
          ret_op (Some \<lparr>sg_manifest = M, sg_zones = zones, sg_writers = opened, sg_offset = 0, sg_healthy = True\<rparr>)))))))))))"

fun flush_all :: "bytes \<Rightarrow> ('s log_zone \<times> Replica) list \<Rightarrow> 's \<Rightarrow> u64 result list \<times> 's" where
  "flush_all frame [] s = ([], s)"
| "flush_all frame ((z, rep) # ws) s =
     (case zn_append z rep frame s of (r, s) \<Rightarrow>
      case flush_all frame ws s of (rs, s) \<Rightarrow> (r # rs, s))"

fun check_flushed :: "u64 \<Rightarrow> u64 result list \<Rightarrow> unit result" where
  "check_flushed expected [] = Inr ()"
| "check_flushed expected (r # rs) =
     rbind r (\<lambda>n. ensure (n = expected) ''unexpected persisted log offset'' (check_flushed expected rs))"

text \<open>Appending a record to every replica: the frame and the segment afterwards. Once a flush has
  begun, only its complete success makes the segment usable again.\<close>

definition segment_append :: "crypto \<Rightarrow> u64 \<Rightarrow> bytes \<Rightarrow> 's Segment \<Rightarrow> 's \<Rightarrow> bytes result \<times> 's Segment \<times> 's" where
  "segment_append C v state sg s =
     (if \<not> sg_healthy sg then (Inl ''uncertain log append requires activation recovery'', sg, s)
      else case record_encode C \<lparr>rec_version = v, rec_state = state\<rparr> of
        Inl e \<Rightarrow> (Inl e, sg, s)
      | Inr frame \<Rightarrow>
          (case checked_add (sg_offset sg) (of_nat (length frame)) of
             None \<Rightarrow> (Inl ''log offset overflow'', sg, s)
           | Some expected \<Rightarrow>
               (case flush_all frame (sg_writers sg) s of (flushed, s) \<Rightarrow>
                  (case check_flushed expected flushed of
                     Inl e \<Rightarrow> (Inl e, sg\<lparr>sg_healthy := False\<rparr>, s)
                   | Inr _ \<Rightarrow> (Inr frame, sg\<lparr>sg_offset := expected, sg_healthy := True\<rparr>, s)))))"

section \<open>Sessions\<close>

record Archiver =
  ac_manifest :: Manifest
  ac_pending :: Pending
  ac_worker :: Worker

record 's preparing =
  pr_first :: u64
  pr_placed :: "'s log_zone list option"

record 's Session =
  se_stream :: StateStream
  se_segment :: "'s Segment option"
  se_preparing :: "'s preparing option"
  se_next :: "'s preparing option"
  se_archive :: "Archiver option"
  se_retired :: "Archiver option"
  se_retirement_error :: "string option"
  se_latest :: "(string \<times> bytes) option"
  se_version :: u64
  se_installed_at :: u64
  se_standard :: bool
  se_healthy :: bool
  se_rotated :: nat
  se_checkpoint :: Progress

text \<open>A session together with the storage it writes to.\<close>

record 's running =
  rn_session :: "'s Session"
  rn_log :: "'s log_state"

definition on_log :: "('s log_state, 'a) op \<Rightarrow> ('s running, 'a) op" where
  "on_log f R = (case f (rn_log R) of (r, l) \<Rightarrow> (r, R\<lparr>rn_log := l\<rparr>))"

definition session_get :: "('s Session \<Rightarrow> 'a) \<Rightarrow> ('s running, 'a) op" where
  "session_get f R = (Inr (f (rn_session R)), R)"

definition session_put_fields :: "('s Session \<Rightarrow> 's Session) \<Rightarrow> ('s running, unit) op" where
  "session_put_fields f R = (Inr (), R\<lparr>rn_session := f (rn_session R)\<rparr>)"

definition session_now :: "('s, 'v) log_env \<Rightarrow> ('s running, nat) op" where
  "session_now E = on_log (log_ask (le_now E))"

definition session_open :: "('s, 'v) log_env \<Rightarrow> StateStream \<Rightarrow> ('s log_state, 's Session) op" where
  "session_open E strm =
     bind_op (lift_op (context_opt ''state version overflow'' (checked_add (ss_base_version strm) 1))) (\<lambda>first.
     bind_op (log_ask (le_now E)) (\<lambda>now.
     ret_op \<lparr>se_stream = strm, se_segment = None, se_preparing = Some \<lparr>pr_first = first, pr_placed = None\<rparr>,
             se_next = None, se_archive = None, se_retired = None, se_retirement_error = None, se_latest = None,
             se_version = ss_base_version strm, se_installed_at = ss_base_version strm, se_standard = False,
             se_healthy = True, se_rotated = now, se_checkpoint = progress_default\<rparr>))"

definition session_cached :: "'s Session \<Rightarrow> string \<Rightarrow> bytes option" where
  "session_cached S obj = (case se_latest S of Some (key, b) \<Rightarrow> if key = obj then Some b else None | None \<Rightarrow> None)"

definition archiver_new :: "Manifest \<Rightarrow> u64 \<Rightarrow> Archiver" where
  "archiver_new M v = \<lparr>ac_manifest = M, ac_pending = pending_new v, ac_worker = worker_new\<rparr>"

definition session_install :: "'s Segment option \<Rightarrow> 's Session \<Rightarrow> 's Session" where
  "session_install sg S =
     S\<lparr>se_standard := (sg = None), se_installed_at := se_version S,
       se_archive := map_option (\<lambda>sg. archiver_new (sg_manifest sg) (se_version S)) sg, se_segment := sg\<rparr>"

definition await_preparing :: "('s, 'v) log_env \<Rightarrow> 's preparing \<Rightarrow> ('s running, 's Segment option) op" where
  "await_preparing E p =
     bind_op (session_get se_stream) (\<lambda>strm. on_log (segment_open E strm (pr_first p) (pr_placed p)))"

definition install_preparing :: "('s, 'v) log_env \<Rightarrow> ('s running, unit) op" where
  "install_preparing E =
     bind_op (session_get se_preparing) (\<lambda>preparing.
     case preparing of
       None \<Rightarrow> ret_op ()
     | Some p \<Rightarrow>
         bind_op (session_put_fields (se_preparing_update (\<lambda>_. None))) (\<lambda>_.
         bind_op (await_preparing E p) (\<lambda>sg. session_put_fields (session_install sg))))"

subsection \<open>Archive workers\<close>

definition archiver_is_finished :: "Archiver \<Rightarrow> bool" where
  "archiver_is_finished a = (case wk_at (ac_worker a) of Returned _ \<Rightarrow> True | _ \<Rightarrow> False)"

text \<open>At most \<open>n\<close> steps of the worker, until it returns.\<close>

fun archiver_run :: "('s, 'v) log_env \<Rightarrow> nat \<Rightarrow> Archiver \<Rightarrow> 's log_state \<Rightarrow> Archiver \<times> 's log_state" where
  "archiver_run E 0 a l = (a, l)"
| "archiver_run E (Suc n) a l =
     (if archiver_is_finished a then (a, l)
      else case worker_step (le_log E) (ac_manifest a) (le_now E (ls_tick l)) (ac_pending a) (ac_worker a) (ls_store l) of
        (p, w, s) \<Rightarrow> archiver_run E n (a\<lparr>ac_pending := p, ac_worker := w\<rparr>) (l\<lparr>ls_store := s, ls_tick := Suc (ls_tick l)\<rparr>))"

definition archiver_finish :: "('s, 'v) log_env \<Rightarrow> Archiver \<Rightarrow> ('s log_state, unit) op" where
  "archiver_finish E a l =
     (case archiver_run E (le_patience E) (a\<lparr>ac_pending := archiver_close (ac_pending a)\<rparr>) l of (a, l) \<Rightarrow>
        (case wk_at (ac_worker a) of Returned r \<Rightarrow> (r, l) | _ \<Rightarrow> (Inl ''log operation timed out'', l)))"

subsection \<open>Rotation\<close>

definition ROTATION_INTERVAL :: nat where "ROTATION_INTERVAL = 60000"

definition collect_retired :: "('s, 'v) log_env \<Rightarrow> ('s running, unit) op" where
  "collect_retired E =
     bind_op (session_get se_retired) (\<lambda>retired.
     case retired of
       Some a \<Rightarrow>
         if archiver_is_finished a then
           bind_op (session_put_fields (se_retired_update (\<lambda>_. None))) (\<lambda>_.
           bind_op (try_op (on_log (archiver_finish E a))) (\<lambda>r.
           case r of
             Inl e \<Rightarrow> session_put_fields (se_retirement_error_update (\<lambda>_. Some e))
           | Inr _ \<Rightarrow> ret_op ()))
         else ret_op ()
     | None \<Rightarrow> ret_op ())"

definition retire :: "'s Segment \<Rightarrow> 's Session \<Rightarrow> 's Session" where
  "retire sg S =
     (let S = (case se_archive S of
                 Some a \<Rightarrow> S\<lparr>se_archive := None, se_retired := Some (a\<lparr>ac_pending := archiver_close (ac_pending a)\<rparr>)\<rparr>
               | None \<Rightarrow> S)
      in session_install (Some sg) S)"

definition rotate_to :: "('s, 'v) log_env \<Rightarrow> u64 \<Rightarrow> ('s running, unit) op" where
  "rotate_to E first =
     bind_op (session_get (\<lambda>S. case se_next S of
        Some p \<Rightarrow> p | None \<Rightarrow> \<lparr>pr_first = first, pr_placed = map_option sg_zones (se_segment S)\<rparr>)) (\<lambda>p.
     bind_op (session_put_fields (se_next_update (\<lambda>_. Some p))) (\<lambda>_.
     bind_op (on_log (log_ask (le_ready E))) (\<lambda>ready.
     if \<not> ready then ret_op ()
     else
       bind_op (session_put_fields (se_next_update (\<lambda>_. None))) (\<lambda>_.
       bind_op (try_op (await_preparing E p)) (\<lambda>r.
       bind_op (case r of Inr (Some sg) \<Rightarrow> session_put_fields (retire sg) | _ \<Rightarrow> ret_op ()) (\<lambda>_.
       bind_op (session_now E) (\<lambda>now. session_put_fields (se_rotated_update (\<lambda>_. now)))))))))"

definition session_rotate :: "('s, 'v) log_env \<Rightarrow> ('s running, unit) op" where
  "session_rotate E =
     bind_op (collect_retired E) (\<lambda>_.
     bind_op (session_now E) (\<lambda>now.
     bind_op (session_get (\<lambda>S. S)) (\<lambda>S.
     if \<not> se_healthy S \<or> se_standard S \<or> se_retired S \<noteq> None \<or> now - se_rotated S < ROTATION_INTERVAL \<or>
        se_version S = se_installed_at S then ret_op ()
     else case checked_add (se_version S) 1 of None \<Rightarrow> ret_op () | Some first \<Rightarrow> rotate_to E first)))"

subsection \<open>Writing\<close>

definition session_schedule :: "('s, 'v) log_env \<Rightarrow> ('s running, unit) op" where
  "session_schedule E =
     bind_op (session_now E) (\<lambda>now.
     session_put_fields (\<lambda>S. S\<lparr>se_checkpoint := progress_schedule now (se_latest S) (se_version S) (se_checkpoint S)\<rparr>))"

definition append_segment :: "('s, 'v) log_env \<Rightarrow> u64 \<Rightarrow> bytes \<Rightarrow> ('s running, bytes) op" where
  "append_segment E v b R =
     (case se_segment (rn_session R) of
        None \<Rightarrow> (Inl ''Rapid stream missing'', R)
      | Some sg \<Rightarrow>
          (case segment_append (lg_crypto (le_log E)) v b sg (ls_store (rn_log R)) of (r, sg, s) \<Rightarrow>
             (r, R\<lparr>rn_session := (rn_session R)\<lparr>se_segment := Some sg\<rparr>, rn_log := (rn_log R)\<lparr>ls_store := s\<rparr>\<rparr>)))"

definition remember_frame :: "u64 \<Rightarrow> nat \<Rightarrow> ('s running, unit) op" where
  "remember_frame v len R =
     (case se_segment (rn_session R) of
        None \<Rightarrow> (Inl ''panic: called unwrap on a None value'', R)
      | Some sg \<Rightarrow>
          (Inr (), R\<lparr>rn_log := (rn_log R)\<lparr>ls_live := live_remember (sg_manifest sg) (sg_offset sg) v len (ls_live (rn_log R))\<rparr>\<rparr>))"

definition hand_over :: "('s, 'v) log_env \<Rightarrow> bytes \<Rightarrow> u64 \<Rightarrow> ('s running, unit) op" where
  "hand_over E frame v =
     bind_op (session_get se_archive) (\<lambda>archive.
     bind_op (lift_op (context_opt ''archive worker missing'' archive)) (\<lambda>a.
     bind_op (session_now E) (\<lambda>now.
     session_put_fields (se_archive_update (\<lambda>_. Some
       (a\<lparr>ac_pending := archiver_append (archiver_batch_bytes (le_log E)) now frame v (ac_pending a)\<rparr>))))))"

definition persist :: "('s, 'v) log_env \<Rightarrow> string \<Rightarrow> u64 \<Rightarrow> bytes \<Rightarrow> ('s running, unit) op" where
  "persist E obj v b =
     bind_op (session_get se_standard) (\<lambda>standard.
     if standard then on_log (on_log_store (st_put (lg_snapshots (le_log E)) obj b))
     else
       bind_op (append_segment E v b) (\<lambda>frame.
       bind_op (remember_frame v (length frame)) (\<lambda>_. hand_over E frame v)))"

definition acknowledge :: "string \<Rightarrow> u64 \<Rightarrow> bytes \<Rightarrow> 's Session \<Rightarrow> 's Session" where
  "acknowledge obj v b S =
     S\<lparr>se_version := v, se_checkpoint := progress_logged v (of_nat (length b)) (se_checkpoint S),
       se_latest := Some (obj, b), se_healthy := True\<rparr>"

definition session_put :: "('s, 'v) log_env \<Rightarrow> string \<Rightarrow> bytes \<Rightarrow> ('s running, unit) op" where
  "session_put E obj b =
     bind_op (session_get (\<lambda>S. S)) (\<lambda>S.
     ensure_op (se_healthy S) ''uncertain write requires activation recovery'' (
     bind_op (lift_op (stream_snapshot (lg_crypto (le_log E)) (lg_json (le_log E)) (se_stream S) b)) (\<lambda>ref.
     ensure_op (sr_object ref = obj) ''snapshot belongs to another stream'' (
     if session_cached S obj = Some b then ret_op ()
     else
       ensure_op (checked_add (se_version S) 1 = Some (sr_state_version ref)) ''nonconsecutive state version'' (
       bind_op (session_rotate E) (\<lambda>_.
       bind_op (session_put_fields (se_healthy_update (\<lambda>_. False))) (\<lambda>_.
       bind_op (install_preparing E) (\<lambda>_.
       bind_op (persist E obj (sr_state_version ref) b) (\<lambda>_.
       bind_op (session_put_fields (acknowledge obj (sr_state_version ref) b)) (\<lambda>_.
       session_schedule E))))))))))"

definition session_restored :: "('s, 'v) log_env \<Rightarrow> string \<Rightarrow> bytes \<Rightarrow> ResolvedSqlite \<Rightarrow> ('s running, unit) op" where
  "session_restored E obj b restored =
     bind_op (session_get (\<lambda>S. S)) (\<lambda>S.
     bind_op (lift_op (snapshot_decode (lg_json (le_log E)) b)) (\<lambda>snapshot.
     if se_latest S \<noteq> None \<or> state_version snapshot \<noteq> ss_base_version (se_stream S) then ret_op ()
     else
       bind_op (lift_op (actor_from_snapshot (lg_crypto (le_log E)) obj)) (\<lambda>actor.
       bind_op (lift_op (actor_from_snapshot (lg_crypto (le_log E)) (stream_object (se_stream S) (se_version S)))) (\<lambda>own.
       if actor \<noteq> own then ret_op ()
       else
         bind_op (session_put_fields (\<lambda>S. S\<lparr>se_latest := Some (obj, b),
           se_checkpoint := progress_restored restored (se_version S) (se_checkpoint S)\<rparr>)) (\<lambda>_.
         session_schedule E)))))"

subsection \<open>Finishing\<close>

definition finish_next :: "('s, 'v) log_env \<Rightarrow> ('s running, unit) op" where
  "finish_next E =
     bind_op (session_get se_next) (\<lambda>next.
     case next of
       None \<Rightarrow> ret_op ()
     | Some p \<Rightarrow>
         bind_op (session_put_fields (se_next_update (\<lambda>_. None))) (\<lambda>_.
         bind_op (await_preparing E p) (\<lambda>sg.
         case sg of
           None \<Rightarrow> ret_op ()
         | Some sg \<Rightarrow>
             bind_op (session_get se_version) (\<lambda>v. on_log (archiver_finish E (archiver_new (sg_manifest sg) v))))))"

definition finish_worker :: "('s, 'v) log_env \<Rightarrow> ('s Session \<Rightarrow> Archiver option) \<Rightarrow> ('s Session \<Rightarrow> 's Session) \<Rightarrow> ('s running, unit) op" where
  "finish_worker E worker clear =
     bind_op (session_get worker) (\<lambda>a.
     case a of
       None \<Rightarrow> ret_op ()
     | Some a \<Rightarrow> bind_op (session_put_fields clear) (\<lambda>_. on_log (archiver_finish E a)))"

definition finish_archive :: "('s, 'v) log_env \<Rightarrow> ('s running, unit) op" where
  "finish_archive E =
     bind_op (install_preparing E) (\<lambda>_.
     bind_op (finish_next E) (\<lambda>_.
     bind_op (finish_worker E se_archive (se_archive_update (\<lambda>_. None))) (\<lambda>_.
     bind_op (finish_worker E se_retired (se_retired_update (\<lambda>_. None))) (\<lambda>_.
     bind_op (session_get (\<lambda>S. S)) (\<lambda>S.
     ensure_op (se_retirement_error S = None) ''previous archive retirement failed'' (
     case se_latest S of
       None \<Rightarrow> ret_op ()
     | Some (obj, b) \<Rightarrow> on_log (on_log_store (st_put (lg_snapshots (le_log E)) obj b))))))))"

definition finish_checkpoint :: "('s, 'v) log_env \<Rightarrow> ('s running, unit) op" where
  "finish_checkpoint E =
     bind_op (session_now E) (\<lambda>now.
     bind_op (on_log (log_ask (le_ready E))) (\<lambda>took_effect.
     bind_op (on_log (log_ask (le_ready E))) (\<lambda>in_time R.
     let S = rn_session R; l = rn_log R in
     case se_latest S of
       None \<Rightarrow> (Inr (), R)
     | Some (obj, b) \<Rightarrow>
         (case progress_finish (le_log E) (ls_live l) now took_effect in_time obj b (se_version S) (se_checkpoint S) (ls_store l) of
            (pg, s) \<Rightarrow> (Inr (), R\<lparr>rn_session := S\<lparr>se_checkpoint := pg\<rparr>, rn_log := l\<lparr>ls_store := s\<rparr>\<rparr>)))))"

text \<open>The drain of the archive may also exceed the deadline of the caller, which is one more
  question to the environment.\<close>

definition session_finish :: "('s, 'v) log_env \<Rightarrow> ('s running, unit) op" where
  "session_finish E =
     bind_op (session_get se_healthy) (\<lambda>healthy.
     ensure_op healthy ''uncertain write cannot be sealed'' (
     bind_op (session_put_fields (se_healthy_update (\<lambda>_. False))) (\<lambda>_.
     bind_op (finish_archive E) (\<lambda>_.
     bind_op (on_log (log_ask (le_ready E))) (\<lambda>in_time.
     ensure_op in_time ''archive drain timed out'' (
     bind_op (finish_checkpoint E) (\<lambda>_.
     session_put_fields (\<lambda>S. S\<lparr>se_segment := None, se_healthy := True\<rparr>))))))))"

section \<open>The snapshot store\<close>

record 's rapid =
  rp_session :: "'s Session option"
  rp_log :: "'s log_state"
  rp_cleanup :: "string option"

definition on_rapid :: "('s log_state, 'a) op \<Rightarrow> ('s rapid, 'a) op" where
  "on_rapid f P = (case f (rp_log P) of (r, l) \<Rightarrow> (r, P\<lparr>rp_log := l\<rparr>))"

definition with_session :: "('s running, 'a) op \<Rightarrow> 's Session \<Rightarrow> ('s rapid, 'a) op" where
  "with_session f S P =
     (case f \<lparr>rn_session = S, rn_log = rp_log P\<rparr> of
        (r, R) \<Rightarrow> (r, P\<lparr>rp_session := Some (rn_session R), rp_log := rn_log R\<rparr>))"

text \<open>\<open>RapidSnapshots::new\<close>: the checks of the configuration.\<close>

definition rapid_validate :: "nat \<Rightarrow> string list \<Rightarrow> ArchiveBatchConfig \<Rightarrow> unit result" where
  "rapid_validate now zones batch =
     ensure (1 \<le> length zones \<and> length zones \<le> 2 \<and> list_all (\<lambda>(a, b). a \<noteq> b) (zip zones (tl zones)))
       ''one or two independent log replicas required'' (archive_batch_validate now batch)"

definition rapid_prepare :: "('s, 'v) log_env \<Rightarrow> ActorKey \<Rightarrow> ('s rapid, unit) op" where
  "rapid_prepare E actor =
     bind_op (lift_op (logs_prefix (lg_crypto (le_log E)) actor)) (\<lambda>pre.
     bind_op (on_rapid (prepared_new E pre (lg_zones (le_log E)) (lg_placement (le_log E)))) (\<lambda>p P.
     (Inr (), P\<lparr>rp_log := (rp_log P)\<lparr>ls_prepared := Some p\<rparr>\<rparr>)))"

definition stored_get :: "('s, 'v) log_env \<Rightarrow> string \<Rightarrow> ('s log_state, bytes option) op" where
  "stored_get E obj =
     (let L = le_log E in
      bind_op (on_log_store (\<lambda>s. (st_get (lg_snapshots L) obj s, s))) (\<lambda>found.
      case found of
        Some b \<Rightarrow> ret_op (Some b)
      | None \<Rightarrow>
          bind_op (lift_op (context_opt ''invalid snapshot name'' (rsplit_once (CHR ''/'') obj))) (\<lambda>(pre, _).
          bind_op (on_log_store (index_keys L (pre @ ''/''))) (\<lambda>keys.
          bind_op (lift_op (context_opt ''invalid snapshot version'' (version obj))) (\<lambda>v.
          bind_op (on_log_store (indexed_records L obj v keys)) (\<lambda>found.
          case found of
            Some records \<Rightarrow> ret_op (records obj)
          | None \<Rightarrow>
              bind_op (on_log_store (log_records L (pre @ ''/'') False)) (\<lambda>records. ret_op (map_of records obj))))))))"

definition rapid_get :: "('s, 'v) log_env \<Rightarrow> string \<Rightarrow> ('s rapid, bytes option) op" where
  "rapid_get E obj P =
     (case Option.bind (rp_session P) (\<lambda>S. session_cached S obj) of
        Some b \<Rightarrow> (Inr (Some b), P)
      | None \<Rightarrow>
          bind_op (case version obj of
              Some v \<Rightarrow> on_rapid (on_log_store (live_records (le_log E) (ls_live (rp_log P)) obj v))
            | None \<Rightarrow> ret_op None) (\<lambda>found.
          case found of
            Some records \<Rightarrow> ret_op (records obj)
          | None \<Rightarrow> on_rapid (stored_get E obj)) P)"

definition rapid_prefetch_checkpoint :: "('s, 'v) log_env \<Rightarrow> SnapshotRef \<Rightarrow> 's \<Rightarrow> PrefetchedCheckpoint option result" where
  "rapid_prefetch_checkpoint E source s =
     rbind (st_get (lg_snapshots (le_log E)) (sr_object source @ ''.checkpoint'') s) (\<lambda>b.
     Inr (Some \<lparr>pc_source = source, pc_bytes = b\<rparr>))"

definition rapid_restore_prefetched :: "('s, 'v) log_env \<Rightarrow> string \<Rightarrow> bytes \<Rightarrow> PrefetchedCheckpoint option \<Rightarrow> 's rapid \<Rightarrow>
    (SqliteSnapshot result \<times> 's rapid) option" where
  "rapid_restore_prefetched E obj b checkpoint P =
     (case log_restore (le_log E) (ls_live (rp_log P)) obj b checkpoint (ls_store (rp_log P)) of
        None \<Rightarrow> None
      | Some (r, s) \<Rightarrow>
          let P = P\<lparr>rp_log := (rp_log P)\<lparr>ls_store := s\<rparr>\<rparr> in
          Some (bind_op (lift_op r) (\<lambda>restored.
                bind_op (case rp_session P of
                    Some S \<Rightarrow> with_session (session_restored E obj b restored) S
                  | None \<Rightarrow> ret_op ()) (\<lambda>_.
                ret_op (rs_sqlite restored))) P))"

definition rapid_list :: "('s, 'v) log_env \<Rightarrow> string \<Rightarrow> ('s log_state, string list) op" where
  "rapid_list E pre =
     bind_op (on_log_store (\<lambda>s. (st_list (lg_snapshots (le_log E)) pre s, s))) (\<lambda>keys.
     bind_op (on_log_store (log_records (le_log E) pre False)) (\<lambda>records.
     ret_op (sorted_list_of_set (set (filter (\<lambda>key. version key \<noteq> None) keys) \<union> set (map fst records)))))"

definition rapid_latest :: "('s, 'v) log_env \<Rightarrow> string \<Rightarrow> ('s log_state, (string \<times> bytes) option) op" where
  "rapid_latest E pre = on_log_store (log_latest (le_log E) pre False)"

definition rapid_put :: "('s, 'v) log_env \<Rightarrow> string \<Rightarrow> bytes \<Rightarrow> ('s rapid, unit) op" where
  "rapid_put E obj b P =
     (case rp_session P of
        None \<Rightarrow> (Inl ''log stream is not activated'', P)
      | Some S \<Rightarrow> with_session (session_put E obj b) S P)"

definition rapid_start :: "('s, 'v) log_env \<Rightarrow> StateStream \<Rightarrow> ('s rapid, unit) op" where
  "rapid_start E strm P =
     (let C = lg_crypto (le_log E) in
      ensure_op (rp_session P = None) ''log stream is already activated'' (
      bind_op (on_rapid (session_open E strm)) (\<lambda>S.
      bind_op (\<lambda>P. (Inr (), P\<lparr>rp_session := Some S\<rparr>)) (\<lambda>_.
      bind_op (lift_op (actor_from_snapshot C (stream_object strm (ss_base_version strm)))) (\<lambda>actor.
      bind_op (lift_op (snapshots C actor)) (\<lambda>pre.
      bind_op (lift_op (object_name C pre)) (\<lambda>name P.
      (Inr (), P\<lparr>rp_cleanup := Some name\<rparr>))))))) P)"

definition rapid_recover :: "('s, 'v) log_env \<Rightarrow> string \<Rightarrow> ('s log_state, (string \<times> bytes) option) op" where
  "rapid_recover E pre = on_log_store (log_recover (le_log E) pre)"

definition rapid_finish :: "('s, 'v) log_env \<Rightarrow> StateStream \<Rightarrow> ('s rapid, unit) op" where
  "rapid_finish E strm P =
     (case rp_session P of
        None \<Rightarrow> (Inl ''log stream is not activated'', P)
      | Some S \<Rightarrow>
          bind_op (ensure_op (se_stream S = strm) ''cannot finish another log stream'' (with_session (session_finish E) S)) (\<lambda>_ P.
          (Inr (), P\<lparr>rp_session := None\<rparr>)) P)"

text \<open>The loops in the background: every second the session is rotated and a checkpoint scheduled,
  every minute the closed segments of the actor are swept.\<close>

definition rotation_tick :: "('s, 'v) log_env \<Rightarrow> ('s running, unit) op" where
  "rotation_tick E =
     bind_op (session_rotate E) (\<lambda>_.
     bind_op (session_get se_healthy) (\<lambda>healthy. if healthy then session_schedule E else ret_op ()))"

definition cleanup_tick :: "('s, 'v) log_env \<Rightarrow> 's rapid \<Rightarrow> 's rapid option" where
  "cleanup_tick E P =
     (case rp_cleanup P of
        None \<Rightarrow> Some P
      | Some pre \<Rightarrow>
          map_option (\<lambda>(_, s). P\<lparr>rp_log := (rp_log P)\<lparr>ls_store := s\<rparr>\<rparr>) (sweep (le_log E) pre (ls_store (rp_log P))))"

end
