(* ===== verification/Rapid_Growth.thy ===== *)
theory Rapid_Growth
  imports Rapid_Session
begin

text \<open>
  The archive of the Rapid log only grows: whatever the operations of a snapshot store and its
  background tasks do, and wherever they fail, no object of the archive is overwritten or
  deleted. The proofs follow the code with the rules of \<open>Op_Logic\<close>.
\<close>

section \<open>The setting\<close>

definition zone_adds :: "('s \<Rightarrow> bool) \<Rightarrow> ('s \<Rightarrow> string \<rightharpoonup> BucketObject) \<Rightarrow> 's log_zone \<Rightarrow> bool" where
  "zone_adds binv view z \<longleftrightarrow>
     (\<forall>obj. only_adds binv view (zn_open z obj)) \<and> (\<forall>r b. only_adds binv view (zn_append z r b)) \<and>
     (\<forall>r fence. only_adds binv view (zn_read z r fence)) \<and> (\<forall>r start len. only_adds binv view (zn_read_range z r start len)) \<and>
     (\<forall>r. only_adds binv view (zn_delete z r))"

text \<open>The archive is a bucket that keeps its promises, the snapshots are objects of the same bucket,
  and the operations of the zones leave the bucket alone.\<close>

definition log_world :: "('s, 'v) log_storage \<Rightarrow> ('s \<Rightarrow> bool) \<Rightarrow> ('s \<Rightarrow> string \<rightharpoonup> BucketObject) \<Rightarrow> bool" where
  "log_world L binv view \<longleftrightarrow> bucket_laws (lg_archive L) binv view \<and>
     lg_snapshots L = gcs_snapshots (lg_crypto L) (lg_archive L) \<and> (\<forall>z \<in> set (lg_zones L). zone_adds binv view z)"

lemma adds_zone:
  assumes "zone_adds binv view z"
  shows "only_adds binv view (zn_open z obj)" "only_adds binv view (zn_append z r b)" "only_adds binv view (zn_read z r fence)"
    "only_adds binv view (zn_read_range z r start len)" "only_adds binv view (zn_delete z r)"
  using assms by (simp_all add: zone_adds_def)

lemma adds_replace:
  assumes "bucket_laws B binv view"
  shows "only_adds binv view (replace B key None b)"
proof (rule keepsI, intro conjI)
  fix s r s'
  assume s: "binv s" "replace B key None b s = (r, s')"
  show "binv s'" using bucket_laws.replace_inv [OF assms s] .
  show "view s \<subseteq>\<^sub>m view s'"
    using bucket_laws.replace_view [OF assms s] by (auto simp: swapped_def map_le_def)
qed simp

lemma adds_archive_create: "log_world L binv view \<Longrightarrow> only_adds binv view (archive_create L key b msg)"
  unfolding archive_create_def log_world_def by (intro adds_rules adds_replace) simp

lemma adds_gcs_put: "log_world L binv view \<Longrightarrow> only_adds binv view (st_put (lg_snapshots L) obj b)"
  by (auto simp: log_world_def gcs_snapshots_def gcs_put_def intro!: adds_rules adds_replace)

lemma adds_zone_of:
  assumes "log_world L binv view" "\<And>z. zone_adds binv view z \<Longrightarrow> only_adds binv view (f z)"
  shows "only_adds binv view (bind_op (lift_op (zone_of L r)) f)"
proof (rule keeps_bind [OF keeps_lift])
  fix z
  show "zone_of L r = Inr z \<Longrightarrow> zone_adds binv view z"
    using assms(1) by (auto simp: log_world_def zone_of_def context_opt_Inr_iff find_Some_iff)
  show "zone_adds binv view z \<Longrightarrow> only_adds binv view (f z)" by (rule assms(2))
qed

section \<open>The operations on the storage\<close>

lemma adds_archive_reads: "only_adds I v (archive_get L key)" "only_adds I v (archive_list L pre)"
  by (simp_all add: keeps_def archive_get_def archive_list_def)

lemma adds_archive_batches: "only_adds I v (archive_batches L M pre keys m)"
  by (induction keys arbitrary: m) (simp_all, (intro adds_rules adds_archive_reads | assumption)+)

lemma adds_archived: "only_adds I v (archived L M)"
  unfolding archived_def by (intro adds_rules adds_archive_reads adds_archive_batches)

lemma adds_read_copies:
  assumes "log_world L binv view" "binv s" "read_copies L fence reps s = (bs, s')"
  shows "binv s' \<and> view s \<subseteq>\<^sub>m view s'"
  using assms(2,3)
proof (induction reps arbitrary: s bs)
  case (Cons rep reps)
  let ?m = "bind_op (lift_op (zone_of L rep)) (\<lambda>z. zn_read z rep fence)"
  obtain r s1 where m: "?m s = (r, s1)" by fastforce
  have "only_adds binv view ?m" by (intro adds_zone_of [OF assms(1)] adds_zone)
  note M = keepsD(1,2) [OF this Cons.prems(1) m]
  obtain bs' where "read_copies L fence reps s1 = (bs', s')"
    using Cons.prems(2) m by (cases r) (auto split: prod.splits)
  from Cons.IH [OF M(1) this] M(2) show ?case by (blast intro: map_le_trans)
qed simp

lemma adds_read_replicas: "log_world L binv view \<Longrightarrow> only_adds binv view (read_replicas L M fence)"
  by (rule keepsI) (auto simp: read_replicas_def split: prod.splits dest: adds_read_copies)

lemma adds_read_segment: "log_world L binv view \<Longrightarrow> only_adds binv view (read_segment L M fence)"
  unfolding read_segment_def by (intro adds_rules adds_archive_reads adds_archived adds_read_replicas)

lemma adds_read_manifest: "log_world L binv view \<Longrightarrow> only_adds binv view (read_manifest L key pre fence)"
  unfolding read_manifest_def by (intro adds_rules adds_archive_reads adds_read_segment)

lemma adds_insert_segments: "log_world L binv view \<Longrightarrow> only_adds binv view (insert_segments L pre fence keys m)"
proof (induction keys arbitrary: m)
  case (Cons key keys)
  then show ?case unfolding insert_segments.simps by (intro adds_rules adds_read_manifest) auto
qed (simp add: adds_ret)

lemma adds_log_records: "log_world L binv view \<Longrightarrow> only_adds binv view (log_records L pre fence)"
  unfolding log_records_def by (intro adds_rules adds_archive_reads adds_insert_segments)

lemma adds_log_latest: "log_world L binv view \<Longrightarrow> only_adds binv view (log_latest L pre fence)"
  unfolding log_latest_def by (intro adds_rules adds_log_records)

lemma adds_index_batch: "log_world L binv view \<Longrightarrow> only_adds binv view (index_batch L M key b)"
  unfolding index_batch_def by (intro adds_rules adds_archive_create)

lemma adds_put_batch: "log_world L binv view \<Longrightarrow> only_adds binv view (put_batch L M start b)"
  unfolding put_batch_def by (intro adds_rules adds_archive_create adds_index_batch)

lemma adds_read_range: "log_world L binv view \<Longrightarrow> only_adds binv view (log_read_range L M start len)"
proof -
  assume W: "log_world L binv view"
  have "only_adds binv view (read_range_from L reps start len)" for reps
  proof (induction reps)
    case (Cons rep reps)
    then show ?case unfolding read_range_from.simps by (intro adds_zone_of [OF W] adds_rules adds_zone) auto
  qed (simp add: adds_lift)
  then show ?thesis by (simp add: log_read_range_def)
qed

lemma adds_upload: "log_world L binv view \<Longrightarrow> only_adds binv view (upload L M start end cached)"
  unfolding upload_def archive_source_def read_batch_def
  by (intro adds_rules adds_read_range adds_put_batch adds_archived)

lemma adds_markers:
  assumes "log_world L binv view"
  shows "only_adds binv view (close_segment L M closed)" "only_adds binv view (mark_replicated L M closed)"
  unfolding close_segment_def mark_replicated_def by (intro adds_rules adds_archive_create [OF assms])+

lemma adds_cleanup: "log_world L binv view \<Longrightarrow> only_adds binv view (cleanup_segment L M)"
proof -
  assume W: "log_world L binv view"
  have "only_adds binv view (delete_replicas L reps)" for reps
  proof (induction reps)
    case (Cons rep reps)
    then show ?case unfolding delete_replicas_def foldr.simps comp_def
      by (intro adds_zone_of [OF W] adds_rules adds_zone)
  qed (simp add: delete_replicas_def adds_ret)
  then show ?thesis unfolding cleanup_segment_def
    by (intro adds_rules adds_archive_reads adds_archive_create [OF W])
qed

lemma adds_upload_rest:
  assumes "log_world L binv view" "binv s" "upload_rest L M end through s = Some y"
  shows "binv (snd y) \<and> view s \<subseteq>\<^sub>m view (snd y)"
proof -
  have "log_world L binv view \<longrightarrow> binv s \<longrightarrow> binv (snd y) \<and> view s \<subseteq>\<^sub>m view (snd y)"
  proof (rule upload_rest.raw_induct [where P = "\<lambda>L M e t s y. log_world L binv view \<longrightarrow> binv s \<longrightarrow>
      binv (snd y) \<and> view s \<subseteq>\<^sub>m view (snd y)", OF _ assms(3)], intro impI)
    fix rest :: "('a, 'b) log_storage \<Rightarrow> Manifest \<Rightarrow> u64 \<Rightarrow> u64 \<Rightarrow> 'a \<Rightarrow> (u64 result \<times> 'a) option" and L M e t s y
    assume IH: "\<And>L M e t s y. rest L M e t s = Some y \<Longrightarrow> log_world L binv view \<longrightarrow> binv s \<longrightarrow> binv (snd y) \<and> view s \<subseteq>\<^sub>m view (snd y)"
      and y: "(if t < e then case upload L M t e None s of (Inl x, s') \<Rightarrow> Some (Inl x, s') | (Inr t', s') \<Rightarrow> rest L M e t' s'
        else Some (Inr t, s)) = Some y"
      and W: "log_world L binv view" and b: "binv s"
    obtain r s1 where u: "upload L M t e None s = (r, s1)" by fastforce
    note U = keepsD(1,2) [OF adds_upload [OF W] b u]
    show "binv (snd y) \<and> view s \<subseteq>\<^sub>m view (snd y)"
    proof (cases "t < e")
      case True
      show ?thesis
      proof (cases r)
        case (Inl x)
        with True y u U show ?thesis by auto
      next
        case (Inr t')
        with True y u have "rest L M e t' s1 = Some y" by simp
        from IH [OF this] W U show ?thesis by (blast intro: map_le_trans)
      qed
    qed (use y b in auto)
  qed
  with assms(1,2) show ?thesis by blast
qed

lemma adds_complete_segment:
  assumes W: "log_world L binv view" and b: "binv s" and c: "complete_segment L M closed s = Some (r, s')"
  shows "binv s' \<and> view s \<subseteq>\<^sub>m view s'"
proof -
  obtain ra s1 where a: "archived L M s = (ra, s1)" by fastforce
  note A = keepsD(1,2) [OF adds_archived [of binv view L M] b a]
  show ?thesis
  proof (cases "s' = s1")
    case True
    with A show ?thesis by simp
  next
    case False
    with c a obtain t recs y s2 where u: "upload_rest L M (cs_end_offset closed) t s1 = Some (y, s2)"
      and rest: "s' = s2 \<or> bind_op (archived L M) (\<lambda>(end, records). bind_op (lift_op (closed_validate closed M end records))
        (\<lambda>_. mark_replicated L M closed)) s2 = (r, s')"
      by (auto simp: complete_segment_def split: sum.splits prod.splits if_splits option.splits)
    note U = adds_upload_rest [OF W A(1) u, unfolded snd_conv]
    have "only_adds binv view (bind_op (archived L M) (\<lambda>(end, records). bind_op (lift_op (closed_validate closed M end records))
        (\<lambda>_. mark_replicated L M closed)))"
      by (intro adds_rules adds_archived adds_markers [OF W])
    with rest U have "binv s' \<and> view s2 \<subseteq>\<^sub>m view s'" by (auto dest: keepsD(1,2))
    with A U show ?thesis by (blast intro: map_le_trans)
  qed
qed

lemma adds_sweep_segment:
  assumes W: "log_world L binv view" and b: "binv s" and c: "sweep_segment L key s = Some (r, s')"
  shows "binv s' \<and> view s \<subseteq>\<^sub>m view s'"
proof -
  obtain ra s1 where a: "sweep_manifest L key s = (ra, s1)" by fastforce
  have "only_adds binv view (sweep_manifest L key)" unfolding sweep_manifest_def by (intro adds_rules adds_archive_reads)
  note A = keepsD(1,2) [OF this b a]
  show ?thesis
  proof (cases "s' = s1")
    case True
    with A show ?thesis by simp
  next
    case False
    with c a obtain M closed rep where ra: "ra = Inr (Some (M, closed, rep))"
      by (auto simp: sweep_segment_def split: sum.splits option.splits prod.splits)
    with c a obtain y s2 where comp: "(if rep then Some (Inr (), s1) else complete_segment L M closed s1) = Some (y, s2)"
      and rest: "s' = s2 \<or> cleanup_segment L M s2 = (r, s')"
      by (auto simp: sweep_segment_def split: sum.splits option.splits prod.splits if_splits)
    have C: "binv s2 \<and> view s1 \<subseteq>\<^sub>m view s2"
      using comp A(1) adds_complete_segment [OF W A(1)] by (auto split: if_splits)
    with rest keepsD(1,2) [OF adds_cleanup [OF W]] have "binv s' \<and> view s2 \<subseteq>\<^sub>m view s'" by auto
    with A C show ?thesis by (blast intro: map_le_trans)
  qed
qed

lemma adds_sweep:
  assumes W: "log_world L binv view" and b: "binv s" and c: "sweep L pre s = Some (r, s')"
  shows "binv s' \<and> view s \<subseteq>\<^sub>m view s'"
proof -
  have keys: "binv s \<Longrightarrow> sweep_keys L keys s = Some s' \<Longrightarrow> binv s' \<and> view s \<subseteq>\<^sub>m view s'" for keys s
  proof (induction keys arbitrary: s)
    case (Cons key keys)
    then obtain y s1 where "sweep_segment L key s = Some (y, s1)" "sweep_keys L keys s1 = Some s'"
      by (auto split: option.splits)
    with Cons.IH adds_sweep_segment [OF W Cons.prems(1)] show ?case by (blast intro: map_le_trans)
  qed simp
  show ?thesis
  proof (cases "s' = s")
    case False
    with c obtain ks where "sweep_keys L ks s = Some s'" by (auto simp: sweep_def Let_def split: sum.splits)
    with keys [OF b] show ?thesis by blast
  qed (use b in simp)
qed

lemma adds_recover_segment: "log_world L binv view \<Longrightarrow> only_adds binv view (recover_segment L M)"
proof -
  assume W: "log_world L binv view"
  have "only_adds binv view (recovery_batches L M records offset through pieces)" for records offset through pieces
  proof (induction records arbitrary: offset through pieces)
    case Nil
    show ?case unfolding recovery_batches.simps by (intro adds_rules adds_put_batch [OF W])
  next
    case (Cons r rs)
    then show ?case unfolding recovery_batches.simps Let_def by (intro adds_rules adds_put_batch [OF W])
  qed
  then show ?thesis unfolding recover_segment_def
    by (intro adds_rules adds_archive_reads adds_archived adds_read_segment [OF W] adds_markers [OF W])
qed

lemma adds_log_recover: "log_world L binv view \<Longrightarrow> only_adds binv view (log_recover L pre)"
proof -
  assume W: "log_world L binv view"
  have "only_adds binv view (recover_segments L pre keys)" for keys
  proof (induction keys)
    case (Cons key keys)
    then show ?case unfolding recover_segments.simps
      by (intro adds_rules adds_archive_reads adds_recover_segment [OF W])
  qed (simp add: adds_ret)
  then show ?thesis unfolding log_recover_def
    by (intro adds_rules adds_archive_reads adds_log_latest [OF W] adds_gcs_put [OF W])
qed

lemma adds_record_reads:
  assumes W: "log_world L binv view"
  shows "only_adds binv view (live_records L live obj first)" "only_adds binv view (index_keys L pre)"
    "only_adds binv view (indexed_records L obj first keys)"
proof -
  show "only_adds binv view (live_records L live obj first)"
    unfolding live_records_def by (intro adds_rules adds_read_range [OF W])
  show "only_adds binv view (index_keys L pre)"
    unfolding index_keys_def by (intro adds_rules adds_archive_reads)
  have "only_adds binv view (read_index_keys L obj pre physical first v keys)" for pre physical v keys
  proof (induction keys)
    case (Cons key keys)
    then show ?case unfolding read_index_keys.simps by (intro adds_rules adds_archive_reads)
  qed (simp add: adds_ret)
  then show "only_adds binv view (indexed_records L obj first keys)"
    unfolding indexed_records_def read_indexed_def by (intro adds_rules)
qed

section \<open>Restoring and checkpointing\<close>

lemma adds_resolve_loop:
  assumes H: "\<And>obj. only_adds I v (h_read H obj)" "\<And>obj. only_adds I v (h_checkpoint H obj)" and h: "I h"
    and y: "resolve_loop C J CJ H tx current reference prefetched segments parents h = Some y"
  shows "I (snd y) \<and> v h \<subseteq>\<^sub>m v (snd y)"
proof -
  let ?H = "\<lambda>H. (\<forall>obj. only_adds I v (h_read H obj)) \<and> (\<forall>obj. only_adds I v (h_checkpoint H obj))"
  have "?H H \<longrightarrow> I h \<longrightarrow> I (snd y) \<and> v h \<subseteq>\<^sub>m v (snd y)"
  proof (rule resolve_loop.raw_induct [where P = "\<lambda>C J CJ H tx current reference prefetched segments parents h y.
      ?H H \<longrightarrow> I h \<longrightarrow> I (snd y) \<and> v h \<subseteq>\<^sub>m v (snd y)", OF _ y], goal_cases)
    case (1 loop C J CJ H tx current reference prefetched segments parents h y)
    note IH = 1(1) and y = 1(2)
    show ?case
    proof (intro impI)
      assume H: "?H H" and I: "I h"
      obtain cb h1 where cb: "checkpoint_bytes H current reference prefetched h = (cb, h1)" by fastforce
      have C: "I h1 \<and> v h \<subseteq>\<^sub>m v h1"
      proof (cases "parent (sqlite current) = None \<or> prefetched \<noteq> None")
        case True
        with cb I show ?thesis by (auto simp: checkpoint_bytes_def split: if_splits option.splits)
      next
        case False
        with cb have "h_checkpoint H (sr_object reference) h = (cb, h1)" by (auto simp: checkpoint_bytes_def)
        moreover have "only_adds I v (h_checkpoint H (sr_object reference))" using H by blast
        ultimately show ?thesis using I keepsD(1,2) by metis
      qed
      show "I (snd y) \<and> v h \<subseteq>\<^sub>m v (snd y)"
      proof (cases "snd y = h1")
        case True
        with C show ?thesis by simp
      next
        case False
        with y cb obtain p f fs where p: "cb = Inr None" "files (sqlite current) = f # fs" "parent (sqlite current) = Some p"
          by (auto split: sum.splits option.splits list.splits)
        obtain rb h2 where rb: "h_read H (sr_object p) h1 = (rb, h2)" by fastforce
        have "only_adds I v (h_read H (sr_object p))" using H by blast
        note R = keepsD(1,2) [OF this _ rb]
        have R: "I h2" "v h \<subseteq>\<^sub>m v h2" using R C map_le_trans by auto
        show ?thesis
        proof (cases "snd y = h2")
          case True
          with R show ?thesis by simp
        next
          case False
          with y cb p rb obtain b n where "loop C J CJ H tx n p None ((f # fs) # segments) (Suc parents) h2 = Some y"
            by (auto split: sum.splits)
          from IH [OF this] H R(1) have "I (snd y)" "v h2 \<subseteq>\<^sub>m v (snd y)" by simp_all
          with map_le_trans [OF R(2)] show ?thesis by simp
        qed
      qed
    qed
  qed
  with H h show ?thesis by blast
qed

lemma adds_resolve:
  assumes "\<And>obj. only_adds I v (h_read H obj)" "\<And>obj. only_adds I v (h_checkpoint H obj)" "I h"
    and "resolve C J CJ H obj b prefetched h = Some y"
  shows "I (snd y) \<and> v h \<subseteq>\<^sub>m v (snd y)"
proof (cases "rbind (snapshot_decode J b) (\<lambda>current. rbind (validate_object C current obj) (\<lambda>_. Inr current))")
  case (Inl e)
  with assms(3,4) show ?thesis by (auto simp: resolve_def)
next
  case (Inr current)
  with assms(4) adds_resolve_loop [OF assms(1-3)] show ?thesis by (fastforce simp: resolve_def Let_def)
qed

lemma adds_on_history:
  "only_adds binv view m \<Longrightarrow> only_adds (\<lambda>h. binv (lh_store h)) (\<lambda>h. view (lh_store h)) (on_history m)"
  unfolding on_history_def [abs_def] by (erule keeps_on) simp_all

lemma adds_put_epoch: "only_adds (\<lambda>h. binv (lh_store h)) (\<lambda>h. view (lh_store h)) (put_epoch pre e)"
  by (auto simp: keeps_def put_epoch_def)

lemma adds_fun: "(\<And>h. only_adds I v (m h)) \<Longrightarrow> only_adds I v (\<lambda>h. m h h)"
  by (auto simp: keeps_def)

lemma adds_history:
  assumes W: "log_world L binv view"
  shows "only_adds (\<lambda>h. binv (lh_store h)) (\<lambda>h. view (lh_store h)) (h_read (log_history L live) obj)"
    and "only_adds (\<lambda>h. binv (lh_store h)) (\<lambda>h. view (lh_store h)) (h_checkpoint (log_history L live) obj)"
proof -
  let ?I = "\<lambda>h. binv (lh_store h)" and ?v = "\<lambda>h. view (lh_store h)"
  note rules = adds_rules adds_put_epoch adds_on_history [OF adds_read] adds_on_history [OF adds_record_reads(1) [OF W]]
    adds_on_history [OF adds_record_reads(2) [OF W]] adds_on_history [OF adds_record_reads(3) [OF W]]
    adds_on_history [OF adds_log_records [OF W]]
  have "only_adds ?I ?v (open_epoch L pre)" for pre
    unfolding open_epoch_def [abs_def] by (rule adds_fun) (intro rules)
  moreover have "only_adds ?I ?v (history_fetch L live obj pre e)" for pre e
    unfolding history_fetch_def take_indexed_def all_records_def by (intro rules)
  ultimately show "only_adds ?I ?v (h_read (log_history L live) obj)"
    unfolding log_history_def snapshot_history.simps history_read_def by (intro rules)
  show "only_adds ?I ?v (h_checkpoint (log_history L live) obj)"
    unfolding log_history_def snapshot_history.simps history_checkpoint_def [abs_def] Let_def
    by (rule adds_fun) (intro rules)
qed

lemma adds_log_restore:
  assumes W: "log_world L binv view" and b: "binv s" and r: "log_restore L live obj bs cp s = Some (r, s')"
  shows "binv s' \<and> view s \<subseteq>\<^sub>m view s'"
proof -
  from r obtain h where "resolve (lg_crypto L) (lg_json L) (lg_checkpoint_json L) (log_history L live) obj bs cp
      \<lparr>lh_store = s, lh_epochs = Map.empty\<rparr> = Some (r, h)" and s': "s' = lh_store h"
    by (auto simp: log_restore_def)
  from adds_resolve [OF adds_history [OF W] _ this(1)] b show ?thesis unfolding s' by simp
qed

lemma adds_log_checkpoint:
  assumes W: "log_world L binv view" and b: "binv s" and r: "log_checkpoint L live obj bs s = Some (r, s')"
  shows "binv s' \<and> view s \<subseteq>\<^sub>m view s'"
proof (cases "s' = s")
  case True
  with b show ?thesis by simp
next
  case False
  with r obtain key y s1 where re: "log_restore L live obj bs None s = Some (y, s1)"
    and rest: "s' = s1 \<or> (\<exists>source sq. publish_checkpoint L key source sq s1 = (r, s'))"
    by (auto simp: log_checkpoint_def Let_def split: sum.splits option.splits prod.splits if_splits)
  note R = adds_log_restore [OF W b re]
  have "only_adds binv view (publish_checkpoint L key source sq)" for source sq
    unfolding publish_checkpoint_def by (intro adds_rules adds_gcs_put [OF W])
  with rest R have "binv s' \<and> view s1 \<subseteq>\<^sub>m view s'" by (auto dest: keepsD(1,2))
  with R show ?thesis by (blast intro: map_le_trans)
qed

lemma adds_checkpoint_run:
  assumes W: "log_world L binv view" and b: "binv s" and r: "checkpoint_run L live pg s = (pg', s')"
  shows "binv s' \<and> view s \<subseteq>\<^sub>m view s'"
  using r b adds_log_checkpoint [OF W b]
  by (auto simp: checkpoint_run_def split: option.splits prod.splits checkpoint_task.splits)

lemma adds_progress_finish:
  assumes W: "log_world L binv view" and b: "binv s"
    and r: "progress_finish L live now took_effect in_time obj bs v pg s = (pg', s')"
  shows "binv s' \<and> view s \<subseteq>\<^sub>m view s'"
proof (cases "s' = s")
  case False
  with r obtain pg1 pg2 where "checkpoint_run L live pg1 s = (pg2, s')"
    by (auto simp: progress_finish_def Let_def split: if_splits prod.splits option.splits checkpoint_task.splits sum.splits)
  with adds_checkpoint_run [OF W b] show ?thesis by blast
qed (use b in simp)

lemma adds_worker_step:
  assumes W: "log_world L binv view" and b: "binv s" and r: "worker_step L M now p w s = (p', w', s')"
  shows "binv s' \<and> view s \<subseteq>\<^sub>m view s'"
proof (cases "wk_at w")
  case (Polled po)
  obtain c s1 where c: "publish_closed L M po w s = (c, s1)" by fastforce
  have "only_adds binv view (publish_closed L M po w)" unfolding publish_closed_def by (intro adds_rules adds_markers [OF W])
  note C = keepsD(1,2) [OF this b c]
  have "s' = s1 \<or> (\<exists>r. mark_replicated L M (polled_segment po) s1 = (r, s'))"
    using r Polled c by (auto simp: worker_step_def worker_decide_def split: sum.splits prod.splits if_splits)
  with C keepsD(1,2) [OF adds_markers(2) [OF W] C(1)] show ?thesis by (blast intro: map_le_trans)
next
  case (Uploading po cached)
  obtain c s1 where c: "upload L M (wk_through w) (po_end po) cached s = (c, s1)" by fastforce
  have "s' = s1" using r Uploading c by (auto simp: worker_step_def worker_upload_def split: sum.splits)
  with keepsD(1,2) [OF adds_upload [OF W] b c] show ?thesis by simp
qed (use r b in \<open>auto simp: worker_step_def\<close>)

end
