(* ===== verification/Rapid_Lifecycle.thy ===== *)
theory Rapid_Lifecycle
  imports Rapid_Growth
begin

text \<open>
  The life of the Rapid snapshot store: its operations and its background tasks, in any order, as
  the steps of one relation. No step overwrites or deletes an object of the archive, so what a
  finished session has stored is what every later reader finds.
\<close>

section \<open>The setting\<close>

text \<open>The zones of the environment answer in some order.\<close>

definition env_ok :: "('s, 'v) log_env \<Rightarrow> ('s \<Rightarrow> bool) \<Rightarrow> ('s \<Rightarrow> string \<rightharpoonup> BucketObject) \<Rightarrow> bool" where
  "env_ok E binv view \<longleftrightarrow> log_world (le_log E) binv view \<and> (\<forall>n zs. set (le_order E n zs) \<subseteq> set zs)"

lemma env_okD:
  assumes "env_ok E binv view"
  shows "log_world (le_log E) binv view" "set (le_order E n zs) \<subseteq> set zs"
  using assms by (simp_all add: env_ok_def)

text \<open>The zones of a list leave the archive alone; the zones that a session, a prepared log or a
  segment refers to are zones of the configuration.\<close>

definition zones_add :: "('s \<Rightarrow> bool) \<Rightarrow> ('s \<Rightarrow> string \<rightharpoonup> BucketObject) \<Rightarrow> 's log_zone list \<Rightarrow> bool" where
  "zones_add binv view zs \<longleftrightarrow> (\<forall>z \<in> set zs. zone_adds binv view z)"

definition zones_known :: "('s, 'v) log_storage \<Rightarrow> 's log_zone list \<Rightarrow> bool" where
  "zones_known L zs \<longleftrightarrow> set zs \<subseteq> set (lg_zones L)"

definition prepared_known :: "('s, 'v) log_storage \<Rightarrow> 's Prepared \<Rightarrow> bool" where
  "prepared_known L p \<longleftrightarrow> zones_known L (pd_zones p)"

definition segment_known :: "('s, 'v) log_storage \<Rightarrow> 's Segment \<Rightarrow> bool" where
  "segment_known L sg \<longleftrightarrow> zones_known L (sg_zones sg) \<and> zones_known L (map fst (sg_writers sg))"

definition preparing_known :: "('s, 'v) log_storage \<Rightarrow> 's preparing \<Rightarrow> bool" where
  "preparing_known L p \<longleftrightarrow> pred_option (zones_known L) (pr_placed p)"

definition session_known :: "('s, 'v) log_storage \<Rightarrow> 's Session \<Rightarrow> bool" where
  "session_known L S \<longleftrightarrow> pred_option (segment_known L) (se_segment S) \<and>
     pred_option (preparing_known L) (se_preparing S) \<and> pred_option (preparing_known L) (se_next S)"

definition log_inv :: "('s, 'v) log_storage \<Rightarrow> ('s \<Rightarrow> bool) \<Rightarrow> 's log_state \<Rightarrow> bool" where
  "log_inv L binv l \<longleftrightarrow> binv (ls_store l) \<and> pred_option (prepared_known L) (ls_prepared l)"

definition running_inv :: "('s, 'v) log_storage \<Rightarrow> ('s \<Rightarrow> bool) \<Rightarrow> 's running \<Rightarrow> bool" where
  "running_inv L binv R \<longleftrightarrow> log_inv L binv (rn_log R) \<and> session_known L (rn_session R)"

definition rapid_inv :: "('s, 'v) log_storage \<Rightarrow> ('s \<Rightarrow> bool) \<Rightarrow> 's rapid \<Rightarrow> bool" where
  "rapid_inv L binv P \<longleftrightarrow> log_inv L binv (rp_log P) \<and> pred_option (session_known L) (rp_session P)"

lemma zones_known_add: "log_world L binv view \<Longrightarrow> zones_known L zs \<Longrightarrow> zones_add binv view zs"
  by (auto simp: log_world_def zones_known_def zones_add_def)

abbreviation log_keeps where
  "log_keeps L binv view \<equiv> keeps (log_inv L binv) (\<lambda>l. view (ls_store l))"

abbreviation running_keeps where
  "running_keeps L binv view \<equiv> keeps (running_inv L binv) (\<lambda>R. view (ls_store (rn_log R)))"

abbreviation rapid_keeps where
  "rapid_keeps L binv view \<equiv> keeps (rapid_inv L binv) (\<lambda>P. view (ls_store (rp_log P)))"

section \<open>Operations on the state of the log\<close>

lemma keeps_on_store: "keeps binv view m Q \<Longrightarrow> log_keeps L binv view (on_log_store m) Q"
  unfolding on_log_store_def [abs_def] by (erule keeps_on) (simp_all add: log_inv_def)

lemma keeps_ask: "(\<And>n. Q (f n)) \<Longrightarrow> log_keeps L binv view (log_ask f) Q"
  by (simp add: keeps_def log_ask_def log_inv_def)

lemma keeps_take_prepared: "log_keeps L binv view take_prepared (pred_option (prepared_known L))"
  by (simp add: keeps_def take_prepared_def log_inv_def)

lemma keeps_prepared_new:
  "zones_known L zs \<Longrightarrow> log_keeps L binv view (prepared_new E pre zs place) (prepared_known L)"
  unfolding prepared_new_def
  by (intro keeps_bind [where Q' = "\<lambda>_. True"] keeps_ask keeps_ret) (simp_all add: prepared_known_def)

text \<open>Opening zones and deleting what was opened.\<close>

lemma adds_open_zones:
  assumes "zones_add binv view zs" "binv s" "open_zones obj zs s = (opened, s')"
  shows "binv s' \<and> view s \<subseteq>\<^sub>m view s' \<and> set (map fst opened) \<subseteq> set zs"
  using assms
proof (induction zs arbitrary: s opened s')
  case (Cons z zs)
  obtain r s1 where r: "zn_open z obj s = (r, s1)" by fastforce
  obtain op s2 where op: "open_zones obj zs s1 = (op, s2)" by fastforce
  from Cons.prems(1) have z: "zone_adds binv view z" "zones_add binv view zs" by (simp_all add: zones_add_def)
  note Z = keepsD(1,2) [OF adds_zone(1) [OF z(1)] Cons.prems(2) r]
  note IH = Cons.IH [OF z(2) Z(1) op]
  from Cons.prems(3) r op have s': "s' = s2" and o: "set (map fst opened) \<subseteq> insert z (set (map fst op))"
    by (auto split: sum.splits)
  from IH o have "set (map fst opened) \<subseteq> set (z # zs)" by auto
  with IH map_le_trans [OF Z(2)] show ?case unfolding s' by blast
qed simp

lemma adds_delete_opened:
  assumes "zones_add binv view zs" "binv s"
  shows "binv (delete_opened zs opened s) \<and> view s \<subseteq>\<^sub>m view (delete_opened zs opened s)"
  using assms(2)
proof (induction opened arbitrary: s)
  case (Cons x opened)
  obtain z rep where x: "x = (z, rep)" by fastforce
  define s1 where "s1 = (case find (\<lambda>z. zn_bucket z = rl_bucket rep) zs of Some z \<Rightarrow> snd (zn_delete z rep s) | None \<Rightarrow> s)"
  have "binv s1 \<and> view s \<subseteq>\<^sub>m view s1"
  proof (cases "find (\<lambda>z. zn_bucket z = rl_bucket rep) zs")
    case (Some y)
    then have "y \<in> set zs" by (auto simp: find_Some_iff)
    with assms(1) have "zone_adds binv view y" by (simp add: zones_add_def)
    from keepsD(1,2) [OF adds_zone(5) [OF this] Cons.prems surjective_pairing] Some show ?thesis by (simp add: s1_def)
  qed (use Cons.prems in \<open>simp add: s1_def\<close>)
  then have s1: "binv s1" "view s \<subseteq>\<^sub>m view s1" by simp_all
  have eq: "delete_opened zs (x # opened) s = delete_opened zs opened s1" by (simp add: x s1_def)
  from Cons.IH [OF s1(1)] map_le_trans [OF s1(2)] show ?case unfolding eq by blast
qed simp

lemma adds_discard_opens:
  assumes "zones_add binv view zs" "binv s"
  shows "binv (discard_opens obj zs s) \<and> view s \<subseteq>\<^sub>m view (discard_opens obj zs s)"
  using assms
proof (induction zs arbitrary: s)
  case (Cons z zs)
  from Cons.prems(1) have z: "zone_adds binv view z" "zones_add binv view zs" by (simp_all add: zones_add_def)
  obtain r s1 where r: "zn_open z obj s = (r, s1)" by fastforce
  note Z = keepsD(1,2) [OF adds_zone(1) [OF z(1)] Cons.prems(2) r]
  show ?case
  proof (cases r)
    case (Inl e)
    with r have eq: "discard_opens obj (z # zs) s = discard_opens obj zs s1" by simp
    from Cons.IH [OF z(2) Z(1)] map_le_trans [OF Z(2)] show ?thesis unfolding eq by blast
  next
    case (Inr rep)
    note D = keepsD(1,2) [OF adds_zone(5) [OF z(1), of rep] Z(1) surjective_pairing]
    from r Inr have eq: "discard_opens obj (z # zs) s = discard_opens obj zs (snd (zn_delete z rep s1))" by simp
    from Cons.IH [OF z(2) D(1)] map_le_trans [OF Z(2) map_le_trans [OF D(2)]] show ?thesis unfolding eq by blast
  qed
qed simp

definition opened_known :: "('s, 'v) log_storage \<Rightarrow> ('s log_zone \<times> Replica) list option \<Rightarrow> bool" where
  "opened_known L = pred_option (\<lambda>opened. zones_known L (map fst opened))"

lemma keeps_open_all:
  assumes W: "log_world L binv view" and zs: "zones_known L zs"
  shows "keeps binv view (open_all zs obj) (opened_known L)"
proof (rule keepsI)
  fix s r s'
  assume b: "binv s" and eq: "open_all zs obj s = (r, s')"
  note add = zones_known_add [OF W zs]
  obtain op s1 where op: "open_zones obj zs s = (op, s1)" by fastforce
  note O = adds_open_zones [OF add b op]
  note D = adds_delete_opened [OF add, of s1 op]
  have "zones_known L (map fst op)" using O zs by (auto simp: zones_known_def)
  moreover have "(r = Inr (Some op) \<and> s' = s1) \<or> (r = Inr None \<and> s' = delete_opened zs op s1)"
    using eq op by (auto simp: open_all_def split: if_splits)
  ultimately show "binv s' \<and> view s \<subseteq>\<^sub>m view s' \<and> (\<forall>x. r = Inr x \<longrightarrow> opened_known L x)"
    using O D map_le_trans [of "view s" "view s1" "view s'"] by (auto simp: opened_known_def)
qed

lemma keeps_open_nearest:
  "log_world L binv view \<Longrightarrow> zones_known L zs \<Longrightarrow> keeps binv view (open_nearest zs obj) (opened_known L)"
proof (induction zs)
  case Nil
  show ?case by (simp add: keeps_def opened_known_def)
next
  case (Cons z zs)
  then have zs: "zones_known L zs" by (simp add: zones_known_def)
  have z: "zone_adds binv view z" "zones_add binv view zs"
    using zones_known_add [OF Cons.prems] by (simp_all add: zones_add_def)
  note IH = Cons.IH [OF Cons.prems(1) zs]
  show ?case
  proof (rule keepsI)
    fix s r s'
    assume b: "binv s" and eq: "open_nearest (z # zs) obj s = (r, s')"
    obtain c s1 where c: "zn_open z obj s = (c, s1)" by fastforce
    note Z = keepsD(1,2) [OF adds_zone(1) [OF z(1)] b c]
    show "binv s' \<and> view s \<subseteq>\<^sub>m view s' \<and> (\<forall>x. r = Inr x \<longrightarrow> opened_known L x)"
    proof (cases c)
      case (Inl e)
      with eq c have "open_nearest zs obj s1 = (r, s')" by simp
      from keepsD [OF IH Z(1) this] Z(2) show ?thesis by (blast intro: map_le_trans)
    next
      case (Inr rep)
      with eq c have "r = Inr (Some [(z, rep)])" "s' = discard_opens obj zs s1" by auto
      moreover have "opened_known L (Some [(z, rep)])" using Cons.prems(2) by (simp add: opened_known_def zones_known_def)
      ultimately show ?thesis
        using adds_discard_opens [OF z(2) Z(1), of obj] map_le_trans [OF Z(2), of "view s'"] by simp
    qed
  qed
qed

lemma keeps_prepared_take:
  assumes E: "env_ok E binv view" and p: "prepared_known (le_log E) p"
  shows "log_keeps (le_log E) binv view (prepared_take E p) (opened_known (le_log E))"
proof (cases "pd_placement p")
  case All
  with p show ?thesis unfolding prepared_take_def Let_def by (simp add: keeps_on_store keeps_open_all [OF env_okD(1) [OF E]] prepared_known_def)
next
  case Nearest
  have "log_keeps (le_log E) binv view (bind_op (log_ask (le_order E)) (\<lambda>order. on_log_store (open_nearest (order (pd_zones p)) obj)))
      (opened_known (le_log E))" for obj
  proof (rule keeps_bind)
    show "log_keeps (le_log E) binv view (log_ask (le_order E)) (\<lambda>order. zones_known (le_log E) (order (pd_zones p)))"
      using p env_okD(2) [OF E] by (intro keeps_ask) (fastforce simp: zones_known_def prepared_known_def)
  qed (intro keeps_on_store keeps_open_nearest [OF env_okD(1) [OF E]])
  with Nearest show ?thesis by (simp add: prepared_take_def Let_def)
qed

section \<open>Segments\<close>

lemma replica_zones_known: "replica_zones L reps = Inr zs \<Longrightarrow> zones_known L zs"
proof (induction reps arbitrary: zs)
  case (Cons rep reps)
  then obtain z zs' where z: "zone_of L rep = Inr z" "replica_zones L reps = Inr zs'" "zs = z # zs'"
    by (auto simp: result_simps)
  from z(1) have "z \<in> set (lg_zones L)" by (auto simp: zone_of_def context_opt_Inr_iff find_Some_iff)
  with Cons.IH [OF z(2)] z(3) show ?case by (simp add: zones_known_def)
qed (simp add: zones_known_def)

lemma keeps_segment_open:
  assumes E: "env_ok E binv view" and placed: "pred_option (zones_known (le_log E)) placed"
  shows "log_keeps (le_log E) binv view (segment_open E strm first placed) (pred_option (segment_known (le_log E)))"
proof -
  let ?any = "\<lambda>_. True"
  have all: "zones_known (le_log E) (lg_zones (le_log E))" by (simp add: zones_known_def)
  note lift = keeps_lift [where Q = ?any, simplified]
  have publish: "log_keeps (le_log E) binv view
      (bind_op (lift_op (replica_zones (le_log E) (mf_replicas M))) (\<lambda>zones.
       bind_op (lift_op (manifest_key (lg_crypto (le_log E)) M)) (\<lambda>key.
       bind_op (lift_op (lg_manifest_encode (le_log E) M)) (\<lambda>b.
       bind_op (on_log_store (archive_create (le_log E) key b ''conflicting log manifest'')) (\<lambda>_.
       ret_op (Some \<lparr>sg_manifest = M, sg_zones = zones, sg_writers = opened, sg_offset = 0, sg_healthy = True\<rparr>))))))
      (pred_option (segment_known (le_log E)))" if "zones_known (le_log E) (map fst opened)" for M opened
  proof (rule keeps_bind)
    show "log_keeps (le_log E) binv view (lift_op (replica_zones (le_log E) (mf_replicas M))) (zones_known (le_log E))"
      by (rule keeps_lift) (rule replica_zones_known)
    fix zones
    assume "zones_known (le_log E) zones"
    with that show "log_keeps (le_log E) binv view (bind_op (lift_op (manifest_key (lg_crypto (le_log E)) M)) (\<lambda>key.
       bind_op (lift_op (lg_manifest_encode (le_log E) M)) (\<lambda>b.
       bind_op (on_log_store (archive_create (le_log E) key b ''conflicting log manifest'')) (\<lambda>_.
       ret_op (Some \<lparr>sg_manifest = M, sg_zones = zones, sg_writers = opened, sg_offset = 0, sg_healthy = True\<rparr>)))))
      (pred_option (segment_known (le_log E)))"
      by (intro keeps_bind [where Q' = ?any] lift keeps_on_store adds_archive_create [OF env_okD(1) [OF E]] keeps_ret)
        (simp_all add: segment_known_def)
  qed
  have prepare: "log_keeps (le_log E) binv view (case prepared of
          Some p \<Rightarrow> ensure_op (pd_prefix p = pre) ''prepared log belongs to another actor'' (ret_op p)
        | None \<Rightarrow>
            (case placed of
               Some zones \<Rightarrow> prepared_new E pre zones All
             | None \<Rightarrow> prepared_new E pre (lg_zones (le_log E)) (lg_placement (le_log E)))) (prepared_known (le_log E))"
    if "pred_option (prepared_known (le_log E)) prepared" for prepared pre
    using that placed all by (intro keeps_option keeps_ensure keeps_ret keeps_prepared_new) simp_all
  show ?thesis unfolding segment_open_def Let_def
    apply (rule keeps_bind [where Q' = ?any, OF lift])
    apply (rule keeps_bind [where Q' = ?any, OF lift])
    apply (rule keeps_bind [OF keeps_take_prepared])
    apply (rule keeps_bind [OF prepare], assumption)
    apply (rule keeps_bind [OF keeps_prepared_take [OF E]], assumption)
    apply (rule keeps_option)
     apply (rule keeps_ret, simp)
    apply (rule publish, simp add: opened_known_def)
    done
qed


lemma adds_flush_all:
  assumes "zones_add binv view (map fst ws)" "binv s" "flush_all frame ws s = (rs, s')"
  shows "binv s' \<and> view s \<subseteq>\<^sub>m view s'"
  using assms
proof (induction ws arbitrary: s rs s')
  case (Cons w ws)
  obtain z rep where w: "w = (z, rep)" by fastforce
  from Cons.prems(1) have z: "zone_adds binv view z" "zones_add binv view (map fst ws)" by (simp_all add: zones_add_def w)
  obtain r s1 where r: "zn_append z rep frame s = (r, s1)" by fastforce
  obtain rs' s2 where f: "flush_all frame ws s1 = (rs', s2)" by fastforce
  note Z = keepsD(1,2) [OF adds_zone(2) [OF z(1)] Cons.prems(2) r]
  have "s' = s2" using Cons.prems(3) r f by (simp add: w)
  with Cons.IH [OF z(2) Z(1) f] map_le_trans [OF Z(2)] show ?case by blast
qed simp

lemma adds_segment_append:
  assumes W: "log_world L binv view" and sg: "segment_known L sg" and s: "binv s" and a: "segment_append C v state sg s = (r, sg', s')"
  shows "binv s' \<and> view s \<subseteq>\<^sub>m view s'" "segment_known L sg'"
proof -
  have "s' = s \<or> (\<exists>frame rs. flush_all frame (sg_writers sg) s = (rs, s'))"
    using a by (auto simp: segment_append_def split: if_splits sum.splits option.splits prod.splits)
  then show "binv s' \<and> view s \<subseteq>\<^sub>m view s'"
  proof
    assume "\<exists>frame rs. flush_all frame (sg_writers sg) s = (rs, s')"
    then obtain frame rs where "flush_all frame (sg_writers sg) s = (rs, s')" by blast
    with sg s show ?thesis by (intro adds_flush_all zones_known_add [OF W]) (simp_all add: segment_known_def)
  qed (use s in simp)
  have "sg_zones sg' = sg_zones sg \<and> sg_writers sg' = sg_writers sg"
    using a by (auto simp: segment_append_def split: if_splits sum.splits option.splits prod.splits)
  with sg show "segment_known L sg'" by (simp add: segment_known_def)
qed

section \<open>Sessions\<close>

lemma keeps_on_log: "log_keeps L binv view m Q \<Longrightarrow> running_keeps L binv view (on_log m) Q"
  unfolding on_log_def [abs_def] by (erule keeps_on) (simp_all add: running_inv_def)

lemma keeps_session_get:
  "(\<And>S. session_known L S \<Longrightarrow> Q (f S)) \<Longrightarrow> running_keeps L binv view (session_get f) Q"
  by (simp add: keeps_def session_get_def running_inv_def)

lemma keeps_put_fields:
  "(\<And>S. session_known L S \<Longrightarrow> session_known L (f S)) \<Longrightarrow> running_keeps L binv view (session_put_fields f) (\<lambda>_. True)"
  by (simp add: keeps_def session_put_fields_def running_inv_def)

lemmas adds_session_get = keeps_session_get [where Q = "\<lambda>_. True", simplified]
lemmas adds_ask = keeps_ask [where Q = "\<lambda>_. True", simplified]

lemma adds_now: "running_keeps L binv view (session_now E) (\<lambda>_. True)"
  unfolding session_now_def by (intro keeps_on_log adds_ask)

lemma adds_schedule: "running_keeps L binv view (session_schedule E) (\<lambda>_. True)"
  unfolding session_schedule_def by (intro adds_rules adds_now keeps_put_fields) (simp add: session_known_def)

lemma keeps_await_preparing:
  assumes E: "env_ok E binv view" and p: "preparing_known (le_log E) p"
  shows "running_keeps (le_log E) binv view (await_preparing E p) (pred_option (segment_known (le_log E)))"
  unfolding await_preparing_def
  by (intro keeps_bind [where Q' = "\<lambda>_. True"] adds_session_get keeps_on_log keeps_segment_open [OF E])
    (use p in \<open>simp_all add: preparing_known_def\<close>)

lemma session_known_install:
  "session_known L S \<Longrightarrow> pred_option (segment_known L) sg \<Longrightarrow> session_known L (session_install sg S)"
  by (simp add: session_known_def session_install_def)

lemma adds_install_preparing:
  assumes E: "env_ok E binv view"
  shows "running_keeps (le_log E) binv view (install_preparing E) (\<lambda>_. True)"
  unfolding install_preparing_def
proof (rule keeps_bind)
  show "running_keeps (le_log E) binv view (session_get se_preparing) (pred_option (preparing_known (le_log E)))"
    by (rule keeps_session_get) (simp add: session_known_def)
  fix x
  assume x: "pred_option (preparing_known (le_log E)) x"
  show "running_keeps (le_log E) binv view (case x of None \<Rightarrow> ret_op () | Some p \<Rightarrow>
         bind_op (session_put_fields (se_preparing_update (\<lambda>_. None))) (\<lambda>_.
         bind_op (await_preparing E p) (\<lambda>sg. session_put_fields (session_install sg)))) (\<lambda>_. True)"
    using x by (intro keeps_option adds_ret keeps_bind [OF keeps_put_fields] keeps_bind [OF keeps_await_preparing [OF E]]
        keeps_put_fields session_known_install) (simp_all add: session_known_def)
qed

subsection \<open>Archive workers\<close>

lemma adds_archiver_run:
  assumes E: "env_ok E binv view" and l: "log_inv (le_log E) binv l" and r: "archiver_run E n a l = (a', l')"
  shows "log_inv (le_log E) binv l' \<and> view (ls_store l) \<subseteq>\<^sub>m view (ls_store l')"
  using l r
proof (induction n arbitrary: a l)
  case (Suc n)
  show ?case
  proof (cases "archiver_is_finished a")
    case False
    obtain p w s where st: "worker_step (le_log E) (ac_manifest a) (le_now E (ls_tick l)) (ac_pending a) (ac_worker a) (ls_store l) = (p, w, s)"
      by (metis prod_cases3)
    have "binv (ls_store l)" using Suc.prems(1) by (simp add: log_inv_def)
    note K = adds_worker_step [OF env_okD(1) [OF E] this st]
    let ?l = "l\<lparr>ls_store := s, ls_tick := Suc (ls_tick l)\<rparr>"
    have "log_inv (le_log E) binv ?l" using K Suc.prems(1) by (simp add: log_inv_def)
    moreover have "archiver_run E n (a\<lparr>ac_pending := p, ac_worker := w\<rparr>) ?l = (a', l')"
      using Suc.prems(2) False st by simp
    ultimately have "log_inv (le_log E) binv l' \<and> view s \<subseteq>\<^sub>m view (ls_store l')" using Suc.IH by fastforce
    with K map_le_trans show ?thesis by blast
  qed (use Suc.prems in simp)
qed simp

lemma adds_archiver_finish: "env_ok E binv view \<Longrightarrow> log_keeps (le_log E) binv view (archiver_finish E a) (\<lambda>_. True)"
proof (rule keepsI)
  fix l r l'
  assume E: "env_ok E binv view" and l: "log_inv (le_log E) binv l" and eq: "archiver_finish E a l = (r, l')"
  obtain a' l1 where run: "archiver_run E (le_patience E) (a\<lparr>ac_pending := archiver_close (ac_pending a)\<rparr>) l = (a', l1)" by fastforce
  with eq have "l' = l1" by (simp add: archiver_finish_def split: worker_at.splits)
  with adds_archiver_run [OF E l run] show "log_inv (le_log E) binv l' \<and> view (ls_store l) \<subseteq>\<^sub>m view (ls_store l') \<and> (\<forall>x. r = Inr x \<longrightarrow> True)"
    by simp
qed

subsection \<open>Rotation\<close>

lemma adds_collect_retired: "env_ok E binv view \<Longrightarrow> running_keeps (le_log E) binv view (collect_retired E) (\<lambda>_. True)"
  unfolding collect_retired_def
  by (intro adds_rules adds_session_get keeps_put_fields keeps_on_log adds_archiver_finish) (simp_all add: session_known_def)

lemma session_known_retire: "session_known L S \<Longrightarrow> segment_known L sg \<Longrightarrow> session_known L (retire sg S)"
  unfolding retire_def Let_def by (rule session_known_install) (simp_all add: session_known_def split: option.splits)

lemma adds_rotate_to:
  assumes E: "env_ok E binv view"
  shows "running_keeps (le_log E) binv view (rotate_to E first) (\<lambda>_. True)"
proof -
  have next_ok: "running_keeps (le_log E) binv view (session_get (\<lambda>S. case se_next S of
        Some p \<Rightarrow> p | None \<Rightarrow> \<lparr>pr_first = first, pr_placed = map_option sg_zones (se_segment S)\<rparr>)) (preparing_known (le_log E))"
    by (rule keeps_session_get) (auto simp: session_known_def preparing_known_def segment_known_def pred_option_def split: option.splits)
  have opened: "running_keeps (le_log E) binv view (try_op (await_preparing E p)) (\<lambda>r. \<forall>x. r = Inr x \<longrightarrow> pred_option (segment_known (le_log E)) x)"
    if "preparing_known (le_log E) p" for p
    using keeps_try [OF keeps_await_preparing [OF E that]] .
  have install: "running_keeps (le_log E) binv view (case r of Inr (Some sg) \<Rightarrow> session_put_fields (retire sg) | _ \<Rightarrow> ret_op ()) (\<lambda>_. True)"
    if "\<forall>x. r = Inr x \<longrightarrow> pred_option (segment_known (le_log E)) x" for r
  proof (cases "\<exists>sg. r = Inr (Some sg)")
    case True
    then obtain sg where r: "r = Inr (Some sg)" by blast
    with that have "segment_known (le_log E) sg" by simp
    then show ?thesis unfolding r by (simp add: keeps_put_fields session_known_retire)
  qed (auto simp: adds_ret split: sum.splits option.splits)
  have set_next: "running_keeps (le_log E) binv view (session_put_fields (se_next_update (\<lambda>_. x))) (\<lambda>_. True)"
    if "pred_option (preparing_known (le_log E)) x" for x
    using that by (intro keeps_put_fields) (simp add: session_known_def)
  show ?thesis unfolding rotate_to_def
    apply (rule keeps_bind [OF next_ok])
    apply (rule keeps_bind [OF set_next], simp)
    apply (rule keeps_bind [where Q' = "\<lambda>_. True"], intro keeps_on_log adds_ask)
    apply (intro keeps_if adds_ret)
    apply (rule keeps_bind [OF set_next], simp)
    apply (rule keeps_bind [OF opened], assumption)
    apply (rule keeps_bind [OF install], assumption)
    apply (intro adds_rules adds_now keeps_put_fields)
    apply (simp add: session_known_def)
    done
qed

lemma adds_rotate: "env_ok E binv view \<Longrightarrow> running_keeps (le_log E) binv view (session_rotate E) (\<lambda>_. True)"
  unfolding session_rotate_def by (intro adds_rules adds_collect_retired adds_now adds_session_get adds_rotate_to)

subsection \<open>Writing and finishing\<close>

lemma adds_append_segment: "env_ok E binv view \<Longrightarrow> running_keeps (le_log E) binv view (append_segment E v b) (\<lambda>_. True)"
proof (rule keepsI)
  fix R r R'
  assume E: "env_ok E binv view" and R: "running_inv (le_log E) binv R" and a: "append_segment E v b R = (r, R')"
  show "running_inv (le_log E) binv R' \<and> view (ls_store (rn_log R)) \<subseteq>\<^sub>m view (ls_store (rn_log R')) \<and> (\<forall>x. r = Inr x \<longrightarrow> True)"
  proof (cases "se_segment (rn_session R)")
    case (Some sg)
    obtain c sg' s where ap: "segment_append (lg_crypto (le_log E)) v b sg (ls_store (rn_log R)) = (c, sg', s)" by (metis prod_cases3)
    from R Some have "segment_known (le_log E) sg" "binv (ls_store (rn_log R))"
      by (simp_all add: running_inv_def session_known_def log_inv_def)
    note A = adds_segment_append [OF env_okD(1) [OF E] this ap]
    from a Some ap have "R' = R\<lparr>rn_session := (rn_session R)\<lparr>se_segment := Some sg'\<rparr>, rn_log := (rn_log R)\<lparr>ls_store := s\<rparr>\<rparr>"
      by (simp add: append_segment_def)
    with A R show ?thesis by (simp add: running_inv_def session_known_def log_inv_def)
  qed (use R a in \<open>simp add: append_segment_def\<close>)
qed

lemma adds_remember_frame: "running_keeps L binv view (remember_frame v len) (\<lambda>_. True)"
  by (auto simp: keeps_def remember_frame_def running_inv_def log_inv_def split: option.splits)

lemma adds_persist: "env_ok E binv view \<Longrightarrow> running_keeps (le_log E) binv view (persist E obj v b) (\<lambda>_. True)"
  unfolding persist_def hand_over_def
  by (intro adds_rules adds_session_get keeps_on_log keeps_on_store adds_gcs_put adds_append_segment adds_remember_frame
      adds_now keeps_put_fields env_okD(1)) (simp_all add: session_known_def)

lemma adds_session_put: "env_ok E binv view \<Longrightarrow> running_keeps (le_log E) binv view (session_put E obj b) (\<lambda>_. True)"
  unfolding session_put_def
  by (intro adds_rules adds_session_get adds_rotate keeps_put_fields adds_install_preparing adds_persist adds_schedule)
    (simp_all add: session_known_def acknowledge_def)

lemma adds_session_restored: "running_keeps L binv view (session_restored E obj b restored) (\<lambda>_. True)"
  unfolding session_restored_def
  by (intro adds_rules adds_session_get keeps_put_fields adds_schedule) (simp add: session_known_def)

lemma adds_finish_next:
  assumes E: "env_ok E binv view"
  shows "running_keeps (le_log E) binv view (finish_next E) (\<lambda>_. True)"
  unfolding finish_next_def
proof (rule keeps_bind)
  show "running_keeps (le_log E) binv view (session_get se_next) (pred_option (preparing_known (le_log E)))"
    by (rule keeps_session_get) (simp add: session_known_def)
qed (intro keeps_option adds_ret keeps_bind [OF keeps_put_fields] keeps_bind [OF keeps_await_preparing [OF E]]
    adds_bind [OF adds_session_get] keeps_on_log adds_archiver_finish [OF E]; simp add: session_known_def)

lemma adds_finish_worker:
  assumes E: "env_ok E binv view" and c: "\<And>S. session_known (le_log E) S \<Longrightarrow> session_known (le_log E) (clear S)"
  shows "running_keeps (le_log E) binv view (finish_worker E worker clear) (\<lambda>_. True)"
  unfolding finish_worker_def
  by (intro adds_rules adds_session_get keeps_put_fields keeps_on_log adds_archiver_finish [OF E] c)

lemma adds_finish_archive: "env_ok E binv view \<Longrightarrow> running_keeps (le_log E) binv view (finish_archive E) (\<lambda>_. True)"
  unfolding finish_archive_def
  by (intro adds_rules adds_install_preparing adds_finish_next adds_finish_worker adds_session_get keeps_on_log keeps_on_store
      adds_gcs_put env_okD(1)) (simp_all add: session_known_def)

lemma adds_finish_checkpoint:
  assumes E: "env_ok E binv view"
  shows "running_keeps (le_log E) binv view (finish_checkpoint E) (\<lambda>_. True)"
proof -
  have "running_keeps (le_log E) binv view (\<lambda>R.
     let S = rn_session R; l = rn_log R in
     case se_latest S of
       None \<Rightarrow> (Inr (), R)
     | Some (obj, b) \<Rightarrow>
         (case progress_finish (le_log E) (ls_live l) now took_effect in_time obj b (se_version S) (se_checkpoint S) (ls_store l) of
            (pg, s) \<Rightarrow> (Inr (), R\<lparr>rn_session := S\<lparr>se_checkpoint := pg\<rparr>, rn_log := l\<lparr>ls_store := s\<rparr>\<rparr>))) (\<lambda>_. True)"
    for now took_effect in_time
  proof (rule keepsI, goal_cases)
    case (1 R r R')
    show ?case
    proof (cases "se_latest (rn_session R)")
      case (Some x)
      obtain obj b where x: "x = (obj, b)" by fastforce
      obtain pg s where f: "progress_finish (le_log E) (ls_live (rn_log R)) now took_effect in_time obj b (se_version (rn_session R))
          (se_checkpoint (rn_session R)) (ls_store (rn_log R)) = (pg, s)" by fastforce
      have b: "binv (ls_store (rn_log R))" using 1(1) by (simp add: running_inv_def log_inv_def)
      from adds_progress_finish [OF env_okD(1) [OF E] b f] 1 Some x f show ?thesis
        by (auto simp: running_inv_def log_inv_def session_known_def Let_def)
    qed (use 1 in \<open>simp add: Let_def\<close>)
  qed
  then show ?thesis unfolding finish_checkpoint_def by (intro adds_rules adds_now keeps_on_log adds_ask)
qed

lemma adds_session_finish: "env_ok E binv view \<Longrightarrow> running_keeps (le_log E) binv view (session_finish E) (\<lambda>_. True)"
  unfolding session_finish_def
  by (intro adds_rules adds_session_get keeps_put_fields adds_finish_archive keeps_on_log adds_ask adds_finish_checkpoint)
    (simp_all add: session_known_def)

lemma adds_rotation_tick: "env_ok E binv view \<Longrightarrow> running_keeps (le_log E) binv view (rotation_tick E) (\<lambda>_. True)"
  unfolding rotation_tick_def by (intro adds_rules adds_rotate adds_session_get adds_schedule)


section \<open>The snapshot store\<close>

lemma keeps_on_rapid: "log_keeps L binv view m Q \<Longrightarrow> rapid_keeps L binv view (on_rapid m) Q"
  unfolding on_rapid_def [abs_def] by (erule keeps_on) (simp_all add: rapid_inv_def)

text \<open>An operation on the state of the store after any operation on its session.\<close>

lemma adds_with_session:
  assumes "running_keeps L binv view m (\<lambda>_. True)" "session_known L S"
  shows "rapid_keeps L binv view (with_session m S) (\<lambda>_. True)"
proof (rule keepsI)
  fix P r P'
  assume P: "rapid_inv L binv P" and eq: "with_session m S P = (r, P')"
  obtain c R where m: "m \<lparr>rn_session = S, rn_log = rp_log P\<rparr> = (c, R)" by fastforce
  have "running_inv L binv \<lparr>rn_session = S, rn_log = rp_log P\<rparr>" using P assms(2) by (simp add: running_inv_def rapid_inv_def)
  from keepsD(1,2) [OF assms(1) this m] eq m show
    "rapid_inv L binv P' \<and> view (ls_store (rp_log P)) \<subseteq>\<^sub>m view (ls_store (rp_log P')) \<and> (\<forall>x. r = Inr x \<longrightarrow> True)"
    by (auto simp: with_session_def running_inv_def rapid_inv_def)
qed

lemma adds_on_session:
  assumes "running_keeps L binv view m (\<lambda>_. True)" "rapid_inv L binv P" "rp_session P = Some S" "with_session m S P = (r, P')"
  shows "rapid_inv L binv P' \<and> view (ls_store (rp_log P)) \<subseteq>\<^sub>m view (ls_store (rp_log P'))"
proof -
  have "session_known L S" using assms(2,3) by (simp add: rapid_inv_def)
  from keepsD(1,2) [OF adds_with_session [OF assms(1) this] assms(2,4)] show ?thesis by blast
qed

lemma adds_rapid_get:
  assumes E: "env_ok E binv view"
  shows "rapid_keeps (le_log E) binv view (rapid_get E obj) (\<lambda>_. True)"
proof -
  note W = env_okD(1) [OF E]
  have "log_keeps (le_log E) binv view (stored_get E obj) (\<lambda>_. True)"
    unfolding stored_get_def Let_def
    by (intro adds_rules keeps_on_store adds_read adds_record_reads [OF W] adds_log_records [OF W])
  then have stored: "rapid_keeps (le_log E) binv view (bind_op (case version obj of
              Some v \<Rightarrow> on_rapid (on_log_store (live_records (le_log E) live obj v))
            | None \<Rightarrow> ret_op None) (\<lambda>found.
          case found of Some records \<Rightarrow> ret_op (records obj) | None \<Rightarrow> on_rapid (stored_get E obj))) (\<lambda>_. True)" for live
    by (intro adds_rules keeps_on_rapid keeps_on_store adds_record_reads [OF W])
  show ?thesis
  proof (rule keepsI)
    fix P r P'
    assume P: "rapid_inv (le_log E) binv P" and eq: "rapid_get E obj P = (r, P')"
    show "rapid_inv (le_log E) binv P' \<and> view (ls_store (rp_log P)) \<subseteq>\<^sub>m view (ls_store (rp_log P')) \<and> (\<forall>x. r = Inr x \<longrightarrow> True)"
    proof (cases "Option.bind (rp_session P) (\<lambda>S. session_cached S obj)")
      case None
      from eq have "bind_op (case version obj of
              Some v \<Rightarrow> on_rapid (on_log_store (live_records (le_log E) (ls_live (rp_log P)) obj v))
            | None \<Rightarrow> ret_op None) (\<lambda>found.
          case found of Some records \<Rightarrow> ret_op (records obj) | None \<Rightarrow> on_rapid (stored_get E obj)) P = (r, P')"
        unfolding rapid_get_def None option.case(1) .
      from keepsD(1,2) [OF stored P this] show ?thesis by blast
    next
      case (Some b)
      from eq have "P' = P" unfolding rapid_get_def Some option.case(2) by simp
      with P show ?thesis by simp
    qed
  qed
qed

lemma adds_rapid_start: "rapid_keeps L binv view (rapid_start E strm) (\<lambda>_. True)"
proof -
  have opened: "log_keeps L binv view (session_open E strm) (session_known L)"
    unfolding session_open_def
    by (intro keeps_bind [where Q' = "\<lambda>_. True"] keeps_lift adds_ask keeps_ret)
      (simp_all add: session_known_def preparing_known_def)
  have install: "rapid_keeps L binv view (\<lambda>P. (Inr (), P\<lparr>rp_session := Some S\<rparr>)) (\<lambda>_. True)" if "session_known L S" for S
    using that by (simp add: keeps_def rapid_inv_def)
  have cleanup: "rapid_keeps L binv view (\<lambda>P. (Inr (), P\<lparr>rp_cleanup := Some name\<rparr>)) (\<lambda>_. True)" for name
    by (simp add: keeps_def rapid_inv_def)
  show ?thesis unfolding rapid_start_def [abs_def] Let_def
    apply (rule adds_fun, rule keeps_ensure)
    apply (rule keeps_bind [OF keeps_on_rapid [OF opened]])
    apply (rule adds_bind [OF install], assumption)
    apply (intro adds_bind [OF adds_lift] cleanup)
    done
qed

lemma adds_rapid_prepare: "env_ok E binv view \<Longrightarrow> rapid_keeps (le_log E) binv view (rapid_prepare E actor) (\<lambda>_. True)"
proof -
  assume E: "env_ok E binv view"
  have "zones_known (le_log E) (lg_zones (le_log E))" by (simp add: zones_known_def)
  note new = keeps_on_rapid [OF keeps_prepared_new [OF this]]
  have "rapid_keeps (le_log E) binv view (\<lambda>P. (Inr (), P\<lparr>rp_log := (rp_log P)\<lparr>ls_prepared := Some p\<rparr>\<rparr>)) (\<lambda>_. True)"
    if "prepared_known (le_log E) p" for p
    using that by (simp add: keeps_def rapid_inv_def log_inv_def)
  then show ?thesis unfolding rapid_prepare_def by (intro adds_bind [OF adds_lift] keeps_bind [OF new]) assumption
qed

lemma adds_rapid_restore:
  assumes E: "env_ok E binv view" and P: "rapid_inv (le_log E) binv P" and r: "rapid_restore_prefetched E obj b cp P = Some (r, P')"
  shows "rapid_inv (le_log E) binv P' \<and> view (ls_store (rp_log P)) \<subseteq>\<^sub>m view (ls_store (rp_log P'))"
proof -
  from r obtain c s where c: "log_restore (le_log E) (ls_live (rp_log P)) obj b cp (ls_store (rp_log P)) = Some (c, s)"
    and rest: "bind_op (lift_op c) (\<lambda>restored.
        bind_op (case rp_session P of
            Some S \<Rightarrow> with_session (session_restored E obj b restored) S | None \<Rightarrow> ret_op ()) (\<lambda>_.
        ret_op (rs_sqlite restored))) (P\<lparr>rp_log := (rp_log P)\<lparr>ls_store := s\<rparr>\<rparr>) = (r, P')"
    by (auto simp: rapid_restore_prefetched_def Let_def split: option.splits)
  have "binv (ls_store (rp_log P))" using P by (simp add: rapid_inv_def log_inv_def)
  note K = adds_log_restore [OF env_okD(1) [OF E] this c]
  let ?P = "P\<lparr>rp_log := (rp_log P)\<lparr>ls_store := s\<rparr>\<rparr>"
  have P1: "rapid_inv (le_log E) binv ?P" using P K by (simp add: rapid_inv_def log_inv_def)
  have "rapid_keeps (le_log E) binv view (bind_op (lift_op c) (\<lambda>restored.
        bind_op (case rp_session P of
            Some S \<Rightarrow> with_session (session_restored E obj b restored) S | None \<Rightarrow> ret_op ()) (\<lambda>_.
        ret_op (rs_sqlite restored)))) (\<lambda>_. True)"
    using P by (intro adds_rules adds_with_session adds_session_restored) (simp add: rapid_inv_def)
  from keepsD(1,2) [OF this P1 rest] K map_le_trans show ?thesis by fastforce
qed

section \<open>Steps\<close>

text \<open>A step is an operation of a caller or a piece of work of a background task: a tick of the
  rotation, a sweep, a step of one of the archive workers, a checkpoint, or the cleanup that a
  worker leaves behind.\<close>

definition run_archiver :: "('s, 'v) log_env \<Rightarrow> Archiver \<Rightarrow> 's rapid \<Rightarrow> Archiver \<times> 's rapid" where
  "run_archiver E a P =
     (case archiver_run E 1 a (rp_log P) of (a, l) \<Rightarrow> (a, P\<lparr>rp_log := l\<rparr>))"

inductive rapid_step :: "('s, 'v) log_env \<Rightarrow> 's rapid \<Rightarrow> 's rapid \<Rightarrow> bool" for E where
  prepare: "rapid_prepare E actor P = (r, P') \<Longrightarrow> rapid_step E P P'"
| start: "rapid_start E strm P = (r, P') \<Longrightarrow> rapid_step E P P'"
| recover: "on_rapid (rapid_recover E pre) P = (r, P') \<Longrightarrow> rapid_step E P P'"
| restore: "rapid_restore_prefetched E obj b checkpoint P = Some (r, P') \<Longrightarrow> rapid_step E P P'"
| get: "rapid_get E obj P = (r, P') \<Longrightarrow> rapid_step E P P'"
| names: "on_rapid (rapid_list E pre) P = (r, P') \<Longrightarrow> rapid_step E P P'"
| newest: "on_rapid (rapid_latest E pre) P = (r, P') \<Longrightarrow> rapid_step E P P'"
| put: "rapid_put E obj b P = (r, P') \<Longrightarrow> rapid_step E P P'"
| finish: "rapid_finish E strm P = (r, P') \<Longrightarrow> rapid_step E P P'"
| tick: "rp_session P = Some S \<Longrightarrow> with_session (rotation_tick E) S P = (r, P') \<Longrightarrow> rapid_step E P P'"
| sweep: "cleanup_tick E P = Some P' \<Longrightarrow> rapid_step E P P'"
| archive: "rp_session P = Some S \<Longrightarrow> se_archive S = Some a \<Longrightarrow> run_archiver E a P = (a', P') \<Longrightarrow>
     rapid_step E P (P'\<lparr>rp_session := Some (S\<lparr>se_archive := Some a'\<rparr>)\<rparr>)"
| retired: "rp_session P = Some S \<Longrightarrow> se_retired S = Some a \<Longrightarrow> run_archiver E a P = (a', P') \<Longrightarrow>
     rapid_step E P (P'\<lparr>rp_session := Some (S\<lparr>se_retired := Some a'\<rparr>)\<rparr>)"
| checkpoint: "rp_session P = Some S \<Longrightarrow>
     checkpoint_run (le_log E) (ls_live (rp_log P)) (se_checkpoint S) (ls_store (rp_log P)) = (pg, s) \<Longrightarrow>
     rapid_step E P (P\<lparr>rp_session := Some (S\<lparr>se_checkpoint := pg\<rparr>), rp_log := (rp_log P)\<lparr>ls_store := s\<rparr>\<rparr>)"
| cleanup: "on_rapid (on_log_store (cleanup_segment (le_log E) M)) P = (r, P') \<Longrightarrow> rapid_step E P P'"

abbreviation rapid_reaches :: "('s, 'v) log_env \<Rightarrow> 's rapid \<Rightarrow> 's rapid \<Rightarrow> bool" where
  "rapid_reaches E \<equiv> (rapid_step E)\<^sup>*\<^sup>*"

lemma adds_run_archiver:
  assumes "env_ok E binv view" "rapid_inv (le_log E) binv P" "run_archiver E a P = (a', P')"
  shows "log_inv (le_log E) binv (rp_log P') \<and> view (ls_store (rp_log P)) \<subseteq>\<^sub>m view (ls_store (rp_log P'))"
proof -
  obtain l where l: "archiver_run E 1 a (rp_log P) = (a', l)" "P' = P\<lparr>rp_log := l\<rparr>"
    using assms(3) by (auto simp: run_archiver_def split: prod.splits)
  have "log_inv (le_log E) binv (rp_log P)" using assms(2) by (simp add: rapid_inv_def)
  from adds_archiver_run [OF assms(1) this l(1)] l(2) show ?thesis by simp
qed

lemma adds_rapid_step:
  assumes E: "env_ok E binv view" and P: "rapid_inv (le_log E) binv P" and step: "rapid_step E P P'"
  shows "rapid_inv (le_log E) binv P' \<and> view (ls_store (rp_log P)) \<subseteq>\<^sub>m view (ls_store (rp_log P'))"
  using step
proof cases
  case (prepare actor r)
  from keepsD(1,2) [OF adds_rapid_prepare [OF E] P prepare] show ?thesis by blast
next
  case (start strm r)
  from keepsD(1,2) [OF adds_rapid_start P start] show ?thesis by blast
next
  case (recover pre r)
  have "rapid_keeps (le_log E) binv view (on_rapid (rapid_recover E pre)) (\<lambda>_. True)"
    unfolding rapid_recover_def by (intro keeps_on_rapid keeps_on_store adds_log_recover env_okD(1) [OF E])
  from keepsD(1,2) [OF this P recover] show ?thesis by blast
next
  case (restore obj b checkpoint r)
  from adds_rapid_restore [OF E P restore] show ?thesis .
next
  case (get obj r)
  from keepsD(1,2) [OF adds_rapid_get [OF E] P get] show ?thesis by blast
next
  case (names pre r)
  have "rapid_keeps (le_log E) binv view (on_rapid (rapid_list E pre)) (\<lambda>_. True)"
    unfolding rapid_list_def
    by (intro keeps_on_rapid adds_rules keeps_on_store adds_read adds_log_records env_okD(1) [OF E])
  from keepsD(1,2) [OF this P names] show ?thesis by blast
next
  case (newest pre r)
  have "rapid_keeps (le_log E) binv view (on_rapid (rapid_latest E pre)) (\<lambda>_. True)"
    unfolding rapid_latest_def by (intro keeps_on_rapid keeps_on_store adds_log_latest env_okD(1) [OF E])
  from keepsD(1,2) [OF this P newest] show ?thesis by blast
next
  case (put obj b r)
  then show ?thesis using P adds_on_session [OF adds_session_put [OF E] P]
    by (auto simp: rapid_put_def split: option.splits)
next
  case (finish strm r)
  show ?thesis
  proof (cases "rp_session P")
    case (Some S)
    have "session_known (le_log E) S" using P Some by (simp add: rapid_inv_def)
    moreover have "rapid_keeps (le_log E) binv view (\<lambda>P. (Inr (), P\<lparr>rp_session := None\<rparr>)) (\<lambda>_. True)"
      by (simp add: keeps_def rapid_inv_def)
    ultimately have "rapid_keeps (le_log E) binv view (bind_op (ensure_op (se_stream S = strm) ''cannot finish another log stream''
        (with_session (session_finish E) S)) (\<lambda>_ P. (Inr (), P\<lparr>rp_session := None\<rparr>))) (\<lambda>_. True)"
      by (intro adds_rules adds_with_session adds_session_finish [OF E])
    moreover have "bind_op (ensure_op (se_stream S = strm) ''cannot finish another log stream''
        (with_session (session_finish E) S)) (\<lambda>_ P. (Inr (), P\<lparr>rp_session := None\<rparr>)) P = (r, P')"
      using finish Some by (simp add: rapid_finish_def)
    ultimately show ?thesis using P by (blast dest: keepsD(1,2))
  qed (use finish P in \<open>simp add: rapid_finish_def\<close>)
next
  case (tick S r)
  from adds_on_session [OF adds_rotation_tick [OF E] P tick] show ?thesis .
next
  case sweep
  then show ?thesis
  proof (cases "rp_cleanup P")
    case (Some pre)
    with sweep obtain y s where s: "sweep (le_log E) pre (ls_store (rp_log P)) = Some (y, s)"
      and P': "P' = P\<lparr>rp_log := (rp_log P)\<lparr>ls_store := s\<rparr>\<rparr>" by (auto simp: cleanup_tick_def)
    have "binv (ls_store (rp_log P))" using P by (simp add: rapid_inv_def log_inv_def)
    from adds_sweep [OF env_okD(1) [OF E] this s] P show ?thesis by (simp add: P' rapid_inv_def log_inv_def)
  qed (use P in \<open>simp add: cleanup_tick_def\<close>)
next
  case (archive S a a' P1)
  from adds_run_archiver [OF E P archive(4)] P archive(2) show ?thesis
    by (simp add: archive(1) rapid_inv_def session_known_def)
next
  case (retired S a a' P1)
  from adds_run_archiver [OF E P retired(4)] P retired(2) show ?thesis
    by (simp add: retired(1) rapid_inv_def session_known_def)
next
  case (checkpoint S pg s)
  have "binv (ls_store (rp_log P))" using P by (simp add: rapid_inv_def log_inv_def)
  from adds_checkpoint_run [OF env_okD(1) [OF E] this checkpoint(3)] P checkpoint(2) show ?thesis
    by (simp add: checkpoint(1) rapid_inv_def session_known_def log_inv_def)
next
  case (cleanup M r)
  have "rapid_keeps (le_log E) binv view (on_rapid (on_log_store (cleanup_segment (le_log E) M))) (\<lambda>_. True)"
    by (intro keeps_on_rapid keeps_on_store adds_cleanup env_okD(1) [OF E])
  from keepsD(1,2) [OF this P cleanup] show ?thesis by blast
qed

lemma adds_rapid_reaches:
  assumes E: "env_ok E binv view" and P: "rapid_inv (le_log E) binv P" and steps: "rapid_reaches E P P'"
  shows "rapid_inv (le_log E) binv P' \<and> view (ls_store (rp_log P)) \<subseteq>\<^sub>m view (ls_store (rp_log P'))"
  using steps
proof (induction rule: rtranclp_induct)
  case (step Q Q')
  with adds_rapid_step [OF E _ step.hyps(2)] show ?case by (blast intro: map_le_trans)
qed (use P in simp)


section \<open>What a finished session leaves behind\<close>

text \<open>Operations that leave a part \<open>f\<close> of the session as it is.\<close>

abbreviation no_view :: "'t \<Rightarrow> unit \<rightharpoonup> unit" where
  "no_view \<equiv> \<lambda>_. Map.empty"

abbreviation frames :: "('s Session \<Rightarrow> 'f) \<Rightarrow> ('s running, 'a) op \<Rightarrow> bool" where
  "frames f m \<equiv> \<forall>x. only_adds (\<lambda>R. f (rn_session R) = x) no_view m"

lemma framesD: "frames f m \<Longrightarrow> m R = (r, R') \<Longrightarrow> f (rn_session R') = f (rn_session R)"
  by (auto simp: keeps_def)

lemma frames_on_log: "only_adds (\<lambda>R. f (rn_session R) = x) no_view (on_log m)"
  by (auto simp: keeps_def on_log_def split: prod.splits)

lemma frames_session_get: "only_adds (\<lambda>R. f (rn_session R) = x) no_view (session_get g)"
  by (auto simp: keeps_def session_get_def)

lemma frames_put_fields:
  "(\<And>S. f (g S) = f S) \<Longrightarrow> only_adds (\<lambda>R. f (rn_session R) = x) no_view (session_put_fields g)"
  by (auto simp: keeps_def session_put_fields_def)

lemma frames_await: "only_adds (\<lambda>R. f (rn_session R) = x) no_view (await_preparing E p)"
  unfolding await_preparing_def by (intro adds_rules frames_session_get frames_on_log)

lemmas frames_rules = adds_rules frames_session_get frames_on_log frames_await

lemma frames_install_preparing:
  assumes "\<And>S y. f (se_preparing_update y S) = f S" "\<And>sg S. f (session_install sg S) = f S"
  shows "frames f (install_preparing E)"
  unfolding install_preparing_def by (intro allI frames_rules frames_put_fields assms)

lemma frames_finish_next:
  assumes "\<And>S y. f (se_next_update y S) = f S"
  shows "frames f (finish_next E)"
  unfolding finish_next_def by (intro allI frames_rules frames_put_fields assms)

lemma frames_finish_worker:
  assumes "\<And>S. f (clear S) = f S"
  shows "frames f (finish_worker E worker clear)"
  unfolding finish_worker_def by (intro allI frames_rules frames_put_fields assms)

lemma gcs_put_view:
  assumes W: "log_world L binv view" and s: "binv s" and put: "st_put (lg_snapshots L) obj b s = (Inr (), s')"
  shows "\<exists>name x. object_name (lg_crypto L) obj = Inr name \<and> view s' name = Some x \<and> obj_bytes x = b"
proof -
  from W put obtain name where n: "object_name (lg_crypto L) obj = Inr name"
    and r: "replace (lg_archive L) name None b s = (Inr True, s')"
    by (auto simp: log_world_def gcs_snapshots_def gcs_put_def op_simps)
  have "bucket_laws (lg_archive L) binv view" using W by (simp add: log_world_def)
  from bucket_laws.replace_True(1) [OF this s r] n show ?thesis by blast
qed

lemma finish_archive_stores:
  assumes E: "env_ok E binv view" and R: "running_inv (le_log E) binv R" and l: "se_latest (rn_session R) = Some (obj, b)"
    and f: "finish_archive E R = (Inr (), R')"
  shows "\<exists>name x. object_name (lg_crypto (le_log E)) obj = Inr name \<and> view (ls_store (rn_log R')) name = Some x \<and> obj_bytes x = b"
proof -
  let ?a = "finish_worker E se_archive (se_archive_update (\<lambda>_. None))" and ?r = "finish_worker E se_retired (se_retired_update (\<lambda>_. None))"
  from f obtain R1 R2 R3 R4 where s: "install_preparing E R = (Inr (), R1)" "finish_next E R1 = (Inr (), R2)"
    "?a R2 = (Inr (), R3)" "?r R3 = (Inr (), R4)"
    and rest: "(case se_latest (rn_session R4) of None \<Rightarrow> ret_op ()
       | Some (obj, b) \<Rightarrow> on_log (on_log_store (st_put (lg_snapshots (le_log E)) obj b))) R4 = (Inr (), R')"
    by (auto simp: finish_archive_def op_simps session_get_def)
  have "running_inv (le_log E) binv R1" using keepsD(1) [OF adds_install_preparing [OF E] R s(1)] .
  from keepsD(1) [OF adds_finish_next [OF E] this s(2)] have "running_inv (le_log E) binv R2" .
  from keepsD(1) [OF adds_finish_worker [OF E] this s(3)] have "running_inv (le_log E) binv R3" by (simp add: session_known_def)
  from keepsD(1) [OF adds_finish_worker [OF E] this s(4)] have "running_inv (le_log E) binv R4" by (simp add: session_known_def)
  then have R4: "binv (ls_store (rn_log R4))" by (simp add: running_inv_def log_inv_def)
  have "se_latest (rn_session R4) = Some (obj, b)"
    using framesD [where f = se_latest, OF frames_install_preparing s(1)] framesD [where f = se_latest, OF frames_finish_next s(2)]
      framesD [where f = se_latest, OF frames_finish_worker s(3)] framesD [where f = se_latest, OF frames_finish_worker s(4)] l
    by (simp add: session_install_def)
  with rest obtain s' where "st_put (lg_snapshots (le_log E)) obj b (ls_store (rn_log R4)) = (Inr (), s')" "ls_store (rn_log R') = s'"
    by (auto simp: on_log_def on_log_store_def split: prod.splits)
  with gcs_put_view [OF env_okD(1) [OF E] R4] show ?thesis by blast
qed

lemma session_finish_stores:
  assumes E: "env_ok E binv view" and R: "running_inv (le_log E) binv R" and l: "se_latest (rn_session R) = Some (obj, b)"
    and f: "session_finish E R = (Inr (), R')"
  shows "running_inv (le_log E) binv R'"
    "\<exists>name x. object_name (lg_crypto (le_log E)) obj = Inr name \<and> view (ls_store (rn_log R')) name = Some x \<and> obj_bytes x = b"
proof -
  show R': "running_inv (le_log E) binv R'" using keepsD(1) [OF adds_session_finish [OF E] R f] .
  from f obtain R1 R2 R3 R4 where s: "session_put_fields (se_healthy_update (\<lambda>_. False)) R = (Inr (), R1)"
    "finish_archive E R1 = (Inr (), R2)" "on_log (log_ask (le_ready E)) R2 = (Inr True, R3)" "finish_checkpoint E R3 = (Inr (), R4)"
    and R'_eq: "R' = R4\<lparr>rn_session := (rn_session R4)\<lparr>se_segment := None, se_healthy := True\<rparr>\<rparr>"
    by (auto simp: session_finish_def op_simps session_get_def session_put_fields_def)
  have R1: "running_inv (le_log E) binv R1" "se_latest (rn_session R1) = Some (obj, b)"
    using s(1) R l by (auto simp: session_put_fields_def running_inv_def session_known_def)
  from finish_archive_stores [OF E R1 s(2)] obtain name x where
    x: "object_name (lg_crypto (le_log E)) obj = Inr name" "view (ls_store (rn_log R2)) name = Some x" "obj_bytes x = b" by blast
  have R2: "running_inv (le_log E) binv R2" using keepsD(1) [OF adds_finish_archive [OF E] R1(1) s(2)] .
  note R3 = keepsD(1,2) [OF keeps_on_log [OF adds_ask [where view = view]] R2 s(3)]
  note R4 = keepsD(2) [OF adds_finish_checkpoint [OF E] R3(1) s(4)]
  from map_le_trans [OF R3(2) R4] x(2) have "view (ls_store (rn_log R')) name = Some x" by (auto simp: R'_eq map_le_def dom_def)
  with x show "\<exists>name x. object_name (lg_crypto (le_log E)) obj = Inr name \<and> view (ls_store (rn_log R')) name = Some x \<and> obj_bytes x = b"
    by blast
qed


section \<open>Correctness of the store\<close>

text \<open>C13. The archive only grows: whatever a snapshot store and its background tasks do, in whatever
  order and wherever they fail, every object the archive held is still there unchanged.\<close>

theorem archive_only_grows:
  assumes "env_ok E binv view" and "rapid_inv (le_log E) binv P" and "rapid_reaches E P P'"
    and "view (ls_store (rp_log P)) key = Some x"
  shows "view (ls_store (rp_log P')) key = Some x"
  using adds_rapid_reaches [OF assms(1-3)] assms(4) by (auto simp: map_le_def dom_def)

text \<open>C12. What a session sealed stays: if finishing a session succeeds, then whatever the store and
  its tasks do afterwards, reading the newest commit of the session from the archive returns
  exactly its bytes.\<close>

theorem finished_commit_is_read_back:
  assumes "env_ok E binv view" and "rapid_inv (le_log E) binv P" and "rp_session P = Some S" and "se_latest S = Some (obj, b)"
    and "rapid_finish E strm P = (Inr (), P1)" and "rapid_reaches E P1 P2"
    and "st_get (lg_snapshots (le_log E)) obj (ls_store (rp_log P2)) = Inr found"
  shows "found = Some b"
proof -
  let ?R = "\<lparr>rn_session = S, rn_log = rp_log P\<rparr>"
  from assms(3,5) obtain R where f: "session_finish E ?R = (Inr (), R)"
    and P1: "P1 = P\<lparr>rp_session := None, rp_log := rn_log R\<rparr>"
    by (auto simp: rapid_finish_def op_simps with_session_def split: prod.splits)
  have "running_inv (le_log E) binv ?R" using assms(2,3) by (simp add: running_inv_def rapid_inv_def)
  from session_finish_stores [OF assms(1) this _ f] assms(4) obtain name x where R: "running_inv (le_log E) binv R"
    and x: "object_name (lg_crypto (le_log E)) obj = Inr name" "view (ls_store (rn_log R)) name = Some x" "obj_bytes x = b" by auto
  have "rapid_inv (le_log E) binv P1" using R by (simp add: P1 rapid_inv_def running_inv_def)
  note K = adds_rapid_reaches [OF assms(1) this assms(6)]
  then have v: "view (ls_store (rp_log P2)) name = Some x" "binv (ls_store (rp_log P2))"
    using x(2) by (auto simp: P1 map_le_def dom_def rapid_inv_def log_inv_def)
  have B: "bucket_laws (lg_archive (le_log E)) binv view" "lg_snapshots (le_log E) = gcs_snapshots (lg_crypto (le_log E)) (lg_archive (le_log E))"
    using env_okD(1) [OF assms(1)] by (simp_all add: log_world_def)
  from assms(7) x(1) obtain copy where c: "bk_get (lg_archive (le_log E)) name (ls_store (rp_log P2)) = Inr copy"
    "found = map_option obj_bytes copy"
    by (auto simp: B(2) gcs_snapshots_def gcs_get_def result_simps)
  with bucket_laws.get_view [OF B(1) v(2) c(1)] v(1) x(3) show "found = Some b" by auto
qed

section \<open>A concrete store\<close>

text \<open>An archive in memory with zones that are down: the session writes its commits as snapshots.\<close>

definition mem_log_env :: "((string \<times> BucketObject) list, string) log_env" where
  "mem_log_env =
     \<lparr>le_log = mem_log_storage\<lparr>lg_snapshots := gcs_snapshots hex_crypto mem_bucket\<rparr>, le_now = (\<lambda>_. 0), le_uuid = (\<lambda>_. ''id''),
      le_order = (\<lambda>_ zs. zs), le_ready = (\<lambda>n. n = 0), le_patience = 10\<rparr>"

definition mem_session :: "(string \<times> BucketObject) list Session" where
  "mem_session =
     \<lparr>se_stream = sample_stream, se_segment = None, se_preparing = None, se_next = None, se_archive = None, se_retired = None,
      se_retirement_error = None, se_latest = Some (sample_object, sample_bytes), se_version = 1, se_installed_at = 0,
      se_standard = True, se_healthy = True, se_rotated = 0, se_checkpoint = progress_logged 1 100 progress_default\<rparr>"

definition mem_rapid :: "(string \<times> BucketObject) list rapid" where
  "mem_rapid =
     \<lparr>rp_session = Some mem_session,
      rp_log = \<lparr>ls_store = [(''other'', \<lparr>generation = 1, obj_bytes = []\<rparr>)], ls_prepared = None, ls_live = [], ls_tick = 0\<rparr>,
      rp_cleanup = None\<rparr>"

lemma down_zone_adds: "zone_adds binv view (down_zone name)"
  by (simp add: zone_adds_def keeps_def down_zone_def)

lemma mem_log_env_ok: "env_ok mem_log_env (\<lambda>_. True) map_of"
  by (simp add: env_ok_def log_world_def mem_log_env_def mem.bucket_laws_axioms down_zone_adds)

lemma mem_rapid_inv: "rapid_inv (le_log mem_log_env) (\<lambda>_. True) mem_rapid"
  by (simp add: rapid_inv_def log_inv_def mem_rapid_def session_known_def mem_session_def)

lemma sample_object_name: "\<exists>name. object_name hex_crypto sample_object = Inr name \<and> name \<noteq> ''other''"
  using sample_path_name [of "show_u64_032x 1 @ ''/'' @ show_u64 1 @ ''.json''"]
  by (auto simp: sample_object_def stream_prefix_def)

lemma mem_finish: "\<exists>P. rapid_finish mem_log_env sample_stream mem_rapid = (Inr (), P)"
proof -
  obtain name where n: "object_name hex_crypto sample_object = Inr name" "name \<noteq> ''other''" using sample_object_name by blast
  show ?thesis
    by (simp add: rapid_finish_def mem_rapid_def bind_op_def ensure_op_def with_session_def session_finish_def session_get_def
        session_put_fields_def finish_archive_def install_preparing_def finish_next_def finish_worker_def mem_session_def
        ret_op_def on_log_def on_log_store_def log_ask_def mem_log_env_def gcs_snapshots_def gcs_put_def lift_op_def n replace_def
        replace_after_def mem_bucket_def finish_checkpoint_def session_now_def progress_finish_def progress_collect_def
        progress_start_def progress_logged_def progress_default_def Let_def)
qed

theorem archive_only_grows_witness:
  "\<exists>P. rapid_finish mem_log_env sample_stream mem_rapid = (Inr (), P) \<and>
     map_of (ls_store (rp_log P)) ''other'' = Some \<lparr>generation = 1, obj_bytes = []\<rparr>"
proof -
  obtain P where P: "rapid_finish mem_log_env sample_stream mem_rapid = (Inr (), P)" using mem_finish by blast
  have "map_of (ls_store (rp_log mem_rapid)) ''other'' = Some \<lparr>generation = 1, obj_bytes = []\<rparr>" by (simp add: mem_rapid_def)
  from archive_only_grows [OF mem_log_env_ok mem_rapid_inv r_into_rtranclp [where r = "rapid_step mem_log_env", OF rapid_step.finish [OF P]] this] P
  show ?thesis by blast
qed

theorem finished_commit_is_read_back_witness:
  "\<exists>P. rapid_finish mem_log_env sample_stream mem_rapid = (Inr (), P) \<and>
     st_get (lg_snapshots (le_log mem_log_env)) sample_object (ls_store (rp_log P)) = Inr (Some sample_bytes)"
proof -
  obtain P where P: "rapid_finish mem_log_env sample_stream mem_rapid = (Inr (), P)" using mem_finish by blast
  obtain name where n: "object_name hex_crypto sample_object = Inr name" using sample_object_name by blast
  obtain found where f: "st_get (lg_snapshots (le_log mem_log_env)) sample_object (ls_store (rp_log P)) = Inr found"
    by (simp add: mem_log_env_def gcs_snapshots_def gcs_get_def n mem_bucket_def)
  have "rp_session mem_rapid = Some mem_session" "se_latest mem_session = Some (sample_object, sample_bytes)"
    by (simp_all add: mem_rapid_def mem_session_def)
  from finished_commit_is_read_back [OF mem_log_env_ok mem_rapid_inv this P rtranclp.rtrancl_refl f] P f show ?thesis by blast
qed

end
