(* ===== verification/Rapid_Journal.thy ===== *)
theory Rapid_Journal
  imports Rapid_Lifecycle
begin

text \<open>
  A session as a journal. To its caller a session is an append-only journal that is open or
  broken: a commit is acknowledged only as the next version, and after a failure in the middle of
  a write nothing is acknowledged any more. To a reader after a crash, every replica of the
  segment in use holds the commits acknowledged since it was installed, and at most one more.
\<close>

section \<open>What the zones promise\<close>

text \<open>\<open>zlog r s\<close> is the log that the replica \<open>r\<close> holds in the state \<open>s\<close>. Opening makes
  a new, empty log. An append persists some beginning of the bytes and, when it succeeds,
  returns the length of the log. A read returns the log.\<close>

type_synonym 's zone_view = "Replica \<Rightarrow> 's \<Rightarrow> bytes option"

definition keeps_logs :: "'s zone_view \<Rightarrow> 's \<Rightarrow> 's \<Rightarrow> bool" where
  "keeps_logs zlog s s' \<longleftrightarrow> (\<forall>r. zlog r s \<noteq> None \<longrightarrow> zlog r s' = zlog r s)"

definition opens_log :: "'s zone_view \<Rightarrow> 's log_zone \<Rightarrow> bool" where
  "opens_log zlog z \<longleftrightarrow> (\<forall>obj s c s'. zn_open z obj s = (c, s') \<longrightarrow>
     keeps_logs zlog s s' \<and> (\<forall>r. c = Inr r \<longrightarrow> zlog r s = None \<and> zlog r s' = Some []))"

definition appends_log :: "'s zone_view \<Rightarrow> 's log_zone \<Rightarrow> bool" where
  "appends_log zlog z \<longleftrightarrow> (\<forall>r b s c s'. zn_append z r b s = (c, s') \<longrightarrow>
     (\<forall>r'. r' \<noteq> r \<longrightarrow> zlog r' s' = zlog r' s) \<and>
     (\<forall>log. zlog r s = Some log \<longrightarrow>
       (\<exists>k \<le> length b. zlog r s' = Some (log @ take k b) \<and> (\<forall>n. c = Inr n \<longrightarrow> n = of_nat (length log + k)))))"

definition reads_log :: "'s zone_view \<Rightarrow> 's log_zone \<Rightarrow> bool" where
  "reads_log zlog z \<longleftrightarrow> (\<forall>r fence s c s'. zn_read z r fence s = (c, s') \<longrightarrow>
     (\<forall>r'. zlog r' s' = zlog r' s) \<and> (\<forall>b. c = Inr b \<longrightarrow> zlog r s = Some b))"

definition deletes_log :: "'s zone_view \<Rightarrow> 's log_zone \<Rightarrow> bool" where
  "deletes_log zlog z \<longleftrightarrow> (\<forall>r s c s'. zn_delete z r s = (c, s') \<longrightarrow> (\<forall>r'. r' \<noteq> r \<longrightarrow> zlog r' s' = zlog r' s))"

definition zone_logs :: "'s zone_view \<Rightarrow> 's log_zone \<Rightarrow> bool" where
  "zone_logs zlog z \<longleftrightarrow> opens_log zlog z \<and> appends_log zlog z \<and> reads_log zlog z \<and> deletes_log zlog z"

definition log_zones :: "('s, 'v) log_storage \<Rightarrow> 's zone_view \<Rightarrow> bool" where
  "log_zones L zlog \<longleftrightarrow> (\<forall>z \<in> set (lg_zones L). zone_logs zlog z) \<and>
     (\<forall>k e b s c s' r. bk_cas (lg_archive L) k e b s = (c, s') \<longrightarrow> zlog r s' = zlog r s)"

lemma zone_logsD:
  assumes "zone_logs zlog z"
  shows "zn_open z obj s = (c, s') \<Longrightarrow> keeps_logs zlog s s'"
    and "zn_open z obj s = (Inr r, s') \<Longrightarrow> zlog r s = None \<and> zlog r s' = Some []"
    and "zn_append z r b s = (a, s') \<Longrightarrow> r' \<noteq> r \<Longrightarrow> zlog r' s' = zlog r' s"
    and "zn_append z r b s = (a, s') \<Longrightarrow> zlog r s = Some log \<Longrightarrow>
      \<exists>k \<le> length b. zlog r s' = Some (log @ take k b) \<and> (\<forall>n. a = Inr n \<longrightarrow> n = of_nat (length log + k))"
    and "zn_read z r fence s = (d, s') \<Longrightarrow> zlog r' s' = zlog r' s"
    and "zn_read z r fence s = (Inr b, s') \<Longrightarrow> zlog r s = Some b"
    and "zn_delete z r s = (u, s') \<Longrightarrow> r' \<noteq> r \<Longrightarrow> zlog r' s' = zlog r' s"
  using assms unfolding zone_logs_def opens_log_def appends_log_def reads_log_def deletes_log_def by simp_all

lemma keeps_logs_trans: "keeps_logs zlog s t \<Longrightarrow> keeps_logs zlog t u \<Longrightarrow> keeps_logs zlog s u"
  by (simp add: keeps_logs_def)

lemma keeps_logs_refl [simp]: "keeps_logs zlog s s"
  by (simp add: keeps_logs_def)

lemma keeps_logsD: "keeps_logs zlog s s' \<Longrightarrow> zlog r s = Some log \<Longrightarrow> zlog r s' = Some log"
  by (simp add: keeps_logs_def)

lemma known_logs: "log_zones L zlog \<Longrightarrow> zones_known L zs \<Longrightarrow> z \<in> set zs \<Longrightarrow> zone_logs zlog z"
  by (auto simp: log_zones_def zones_known_def)

section \<open>Opening segments\<close>

definition fresh_logs :: "'s zone_view \<Rightarrow> 's \<Rightarrow> ('s log_zone \<times> Replica) list \<Rightarrow> bool" where
  "fresh_logs zlog s opened \<longleftrightarrow> distinct (map snd opened) \<and> (\<forall>rep \<in> snd ` set opened. zlog rep s = Some [])"

lemma open_zones_logs:
  assumes Z: "log_zones L zlog" and "zones_known L zs" "open_zones obj zs s = (opened, s')"
  shows "keeps_logs zlog s s' \<and> fresh_logs zlog s' opened \<and> (\<forall>rep \<in> snd ` set opened. zlog rep s = None)"
  using assms(2,3)
proof (induction zs arbitrary: s opened s')
  case (Cons z zs)
  obtain r s1 where r: "zn_open z obj s = (r, s1)" by fastforce
  obtain op where op: "open_zones obj zs s1 = (op, s')" and o: "opened = (case r of Inr rep \<Rightarrow> (z, rep) # op | Inl _ \<Rightarrow> op)"
    using Cons.prems(2) r by (auto split: prod.splits)
  have z: "zone_logs zlog z" using known_logs [OF Z Cons.prems(1)] by simp
  have "zones_known L zs" using Cons.prems(1) by (simp add: zones_known_def)
  note IH = Cons.IH [OF this op]
  note K = zone_logsD(1) [OF z r]
  have before: "zlog rep s = None" if "zlog rep s1 = None" for rep using that keeps_logsD [OF K, of rep] by (cases "zlog rep s") auto
  show ?case
  proof (cases r)
    case (Inl e)
    with IH o before K show ?thesis by (auto intro: keeps_logs_trans)
  next
    case (Inr rep)
    note N = zone_logsD(2) [OF z r [unfolded Inr]]
    have "zlog rep s' = Some []" using keeps_logsD [of zlog s1 s'] IH N by blast
    moreover have "rep \<notin> snd ` set op" using IH N by auto
    ultimately show ?thesis using IH o Inr before N K by (auto simp: fresh_logs_def intro: keeps_logs_trans)
  qed
qed (simp add: fresh_logs_def)

lemma delete_opened_logs:
  assumes Z: "log_zones L zlog" and zs: "zones_known L zs" and r: "r \<notin> snd ` set opened"
  shows "zlog r (delete_opened zs opened s) = zlog r s"
  using r
proof (induction opened arbitrary: s)
  case (Cons x opened)
  obtain z rep where x: "x = (z, rep)" by fastforce
  define s1 where "s1 = (case find (\<lambda>z. zn_bucket z = rl_bucket rep) zs of Some z \<Rightarrow> snd (zn_delete z rep s) | None \<Rightarrow> s)"
  have "zlog r s1 = zlog r s"
  proof (cases "find (\<lambda>z. zn_bucket z = rl_bucket rep) zs")
    case (Some y)
    then have "y \<in> set zs" by (auto simp: find_Some_iff)
    from zone_logsD(7) [OF known_logs [OF Z zs this] surjective_pairing] Cons.prems Some show ?thesis by (simp add: s1_def x)
  qed (simp add: s1_def)
  with Cons.IH [of s1] Cons.prems show ?case by (simp add: x s1_def)
qed simp

lemma open_all_logs:
  assumes Z: "log_zones L zlog" and zs: "zones_known L zs" and o: "open_all zs obj s = (c, s')"
  shows "keeps_logs zlog s s'" "c = Inr (Some opened) \<Longrightarrow> fresh_logs zlog s' opened"
proof -
  obtain op s1 where op: "open_zones obj zs s = (op, s1)" by fastforce
  note O = open_zones_logs [OF Z zs op]
  have cs: "(c = Inr (Some op) \<and> s' = s1) \<or> (c = Inr None \<and> s' = delete_opened zs op s1)"
    using o op by (auto simp: open_all_def split: if_splits)
  have "keeps_logs zlog s (delete_opened zs op s1)"
    unfolding keeps_logs_def
  proof (intro allI impI)
    fix r
    assume r: "zlog r s \<noteq> None"
    then have "r \<notin> snd ` set op" using O by auto
    with delete_opened_logs [OF Z zs this] O r show "zlog r (delete_opened zs op s1) = zlog r s" by (simp add: keeps_logs_def)
  qed
  with cs O show "keeps_logs zlog s s'" "c = Inr (Some opened) \<Longrightarrow> fresh_logs zlog s' opened" by auto
qed

lemma discard_opens_logs:
  assumes Z: "log_zones L zlog"
  shows "zones_known L zs \<Longrightarrow> keeps_logs zlog s (discard_opens obj zs s)"
proof (induction zs arbitrary: s)
  case (Cons z zs)
  have z: "zone_logs zlog z" using known_logs [OF Z Cons.prems] by simp
  have zs: "zones_known L zs" using Cons.prems by (simp add: zones_known_def)
  obtain c s1 where c: "zn_open z obj s = (c, s1)" by fastforce
  note K = zone_logsD(1) [OF z c]
  show ?case
  proof (cases c)
    case (Inl e)
    with c Cons.IH [OF zs, of s1] K show ?thesis by (auto intro: keeps_logs_trans)
  next
    case (Inr rep)
    note N = zone_logsD(2) [OF z c [unfolded Inr]]
    have "keeps_logs zlog s (snd (zn_delete z rep s1))"
      unfolding keeps_logs_def
    proof (intro allI impI)
      fix r
      assume r: "zlog r s \<noteq> None"
      then have "r \<noteq> rep" using N by auto
      with zone_logsD(7) [OF z surjective_pairing this] K r show "zlog r (snd (zn_delete z rep s1)) = zlog r s"
        by (simp add: keeps_logs_def)
    qed
    from keeps_logs_trans [OF this Cons.IH [OF zs]] c Inr show ?thesis by simp
  qed
qed simp

lemma open_nearest_logs:
  assumes Z: "log_zones L zlog"
  shows "zones_known L zs \<Longrightarrow> open_nearest zs obj s = (c, s') \<Longrightarrow>
    keeps_logs zlog s s' \<and> (\<forall>opened. c = Inr (Some opened) \<longrightarrow> fresh_logs zlog s' opened)"
proof (induction zs arbitrary: s)
  case (Cons z zs)
  have z: "zone_logs zlog z" using known_logs [OF Z Cons.prems(1)] by simp
  have zs: "zones_known L zs" using Cons.prems(1) by (simp add: zones_known_def)
  obtain d s1 where d: "zn_open z obj s = (d, s1)" by fastforce
  note K = zone_logsD(1) [OF z d]
  show ?case
  proof (cases d)
    case (Inl e)
    with Cons.prems(2) d have "open_nearest zs obj s1 = (c, s')" by simp
    from Cons.IH [OF zs this] K show ?thesis by (blast intro: keeps_logs_trans)
  next
    case (Inr rep)
    with Cons.prems(2) d have eq: "c = Inr (Some [(z, rep)])" "s' = discard_opens obj zs s1" by auto
    note D = discard_opens_logs [OF Z zs, of s1 obj]
    have "zlog rep s1 = Some []" using zone_logsD(2) [OF z d [unfolded Inr]] by simp
    with keeps_logsD [OF D] eq keeps_logs_trans [OF K D] show ?thesis by (simp add: fresh_logs_def)
  qed
qed auto


text \<open>Keeping one log is an invariant of the operations, so that the rules of \<open>Op_Logic\<close> apply.\<close>

definition holds_log :: "('s, 'v) log_storage \<Rightarrow> 's zone_view \<Rightarrow> Replica \<Rightarrow> bytes \<Rightarrow> 's log_state \<Rightarrow> bool" where
  "holds_log L zlog r log l \<longleftrightarrow> zlog r (ls_store l) = Some log \<and> pred_option (prepared_known L) (ls_prepared l)"

abbreviation log_held where
  "log_held L zlog r log \<equiv> keeps (holds_log L zlog r log) no_view"

lemma held_on_store:
  assumes "\<And>s c s'. zlog r s = Some log \<Longrightarrow> m s = (c, s') \<Longrightarrow> zlog r s' = Some log \<and> (\<forall>x. c = Inr x \<longrightarrow> Q x)"
  shows "log_held L zlog r log (on_log_store m) Q"
  using assms by (auto simp: keeps_def holds_log_def on_log_store_def split: prod.splits)

lemma held_ask: "(\<And>n. Q (f n)) \<Longrightarrow> log_held L zlog r log (log_ask f) Q"
  by (simp add: keeps_def log_ask_def holds_log_def)

lemma held_prepared_new: "zones_known L zs \<Longrightarrow> log_held L zlog r log (prepared_new E pre zs place) (prepared_known L)"
  unfolding prepared_new_def by (intro keeps_bind [where Q' = "\<lambda>_. True"] held_ask keeps_ret) (simp_all add: prepared_known_def)

lemma held_take_prepared: "log_held L zlog r log take_prepared (pred_option (prepared_known L))"
  by (simp add: keeps_def take_prepared_def holds_log_def)

lemma held_prepared_take:
  assumes Z: "log_zones (le_log E) zlog" and order: "\<And>n zs. set (le_order E n zs) \<subseteq> set zs" and p: "prepared_known (le_log E) p"
  shows "log_held (le_log E) zlog r log (prepared_take E p) (\<lambda>_. True)"
proof (cases "pd_placement p")
  case All
  have "log_held (le_log E) zlog r log (on_log_store (open_all (pd_zones p) obj)) (\<lambda>_. True)" for obj
  proof (rule held_on_store)
    fix s c s'
    assume r: "zlog r s = Some log" and o: "open_all (pd_zones p) obj s = (c, s')"
    have "keeps_logs zlog s s'" using open_all_logs(1) [OF Z _ o] p by (simp add: prepared_known_def)
    from keeps_logsD [OF this r] show "zlog r s' = Some log \<and> (\<forall>x. c = Inr x \<longrightarrow> True)" by simp
  qed
  with All show ?thesis by (simp add: prepared_take_def Let_def)
next
  case Nearest
  have "log_held (le_log E) zlog r log (bind_op (log_ask (le_order E)) (\<lambda>order. on_log_store (open_nearest (order (pd_zones p)) obj))) (\<lambda>_. True)" for obj
  proof (rule keeps_bind)
    show "log_held (le_log E) zlog r log (log_ask (le_order E)) (\<lambda>order. zones_known (le_log E) (order (pd_zones p)))"
      using p order by (intro held_ask) (fastforce simp: zones_known_def prepared_known_def)
    fix ord
    assume "zones_known (le_log E) (ord (pd_zones p))"
    note near = open_nearest_logs [OF Z this, where obj = obj]
    show "log_held (le_log E) zlog r log (on_log_store (open_nearest (ord (pd_zones p)) obj)) (\<lambda>_. True)"
    proof (rule held_on_store)
      fix s c s'
      assume r: "zlog r s = Some log" and o: "open_nearest (ord (pd_zones p)) obj s = (c, s')"
      from near [OF o] keeps_logsD [of zlog s s' r log] r show "zlog r s' = Some log \<and> (\<forall>x. c = Inr x \<longrightarrow> True)" by simp
    qed
  qed
  with Nearest show ?thesis by (simp add: prepared_take_def Let_def)
qed

lemma archive_create_logs:
  assumes Z: "log_zones L zlog" and c: "archive_create L key b msg s = (c, s')"
  shows "zlog r s' = zlog r s"
proof -
  obtain d t where d: "bk_cas (lg_archive L) key None b s = (d, t)" by fastforce
  have "s' = t"
    using c by (auto simp: archive_create_def bind_op_def ensure_op_def ret_op_def replace_def d split: sum.splits if_splits)
  moreover have "zlog r t = zlog r s" using Z d unfolding log_zones_def by blast
  ultimately show ?thesis by simp
qed

lemma held_segment_open:
  assumes Z: "log_zones (le_log E) zlog" and order: "\<And>n zs. set (le_order E n zs) \<subseteq> set zs"
    and placed: "pred_option (zones_known (le_log E)) placed"
  shows "log_held (le_log E) zlog r log (segment_open E strm first placed) (\<lambda>_. True)"
proof -
  have all: "zones_known (le_log E) (lg_zones (le_log E))" by (simp add: zones_known_def)
  have prepare: "log_held (le_log E) zlog r log (case prepared of
          Some p \<Rightarrow> ensure_op (pd_prefix p = pre) ''prepared log belongs to another actor'' (ret_op p)
        | None \<Rightarrow>
            (case placed of
               Some zones \<Rightarrow> prepared_new E pre zones All
             | None \<Rightarrow> prepared_new E pre (lg_zones (le_log E)) (lg_placement (le_log E)))) (prepared_known (le_log E))"
    if "pred_option (prepared_known (le_log E)) prepared" for prepared pre
    using that placed all by (intro keeps_option keeps_ensure keeps_ret held_prepared_new) simp_all
  have create: "log_held (le_log E) zlog r log (on_log_store (archive_create (le_log E) key b msg)) (\<lambda>_. True)" for key b msg
    using archive_create_logs [OF Z] by (intro held_on_store) simp
  show ?thesis unfolding segment_open_def Let_def
    apply (rule adds_bind [OF adds_lift])
    apply (rule adds_bind [OF adds_lift])
    apply (rule keeps_bind [OF held_take_prepared])
    apply (rule keeps_bind [OF prepare], assumption)
    apply (rule keeps_bind [OF held_prepared_take [OF Z order]], assumption)
    apply (intro adds_rules create)
    done
qed

lemma prepared_take_fresh:
  assumes Z: "log_zones (le_log E) zlog" and order: "\<And>n zs. set (le_order E n zs) \<subseteq> set zs" and p: "prepared_known (le_log E) p"
    and t: "prepared_take E p l = (Inr (Some opened), l')"
  shows "fresh_logs zlog (ls_store l') opened"
proof (cases "pd_placement p")
  case All
  with t obtain s where "open_all (pd_zones p) (pd_prefix p @ pd_id p @ ''.segment'') (ls_store l) = (Inr (Some opened), s)" "ls_store l' = s"
    by (auto simp: prepared_take_def Let_def on_log_store_def split: prod.splits)
  with open_all_logs(2) [OF Z] p show ?thesis by (auto simp: prepared_known_def)
next
  case Nearest
  with t obtain n s s' where o: "open_nearest (le_order E n (pd_zones p)) (pd_prefix p @ pd_id p @ ''.segment'') s = (Inr (Some opened), s')"
    "ls_store l' = s'"
    by (auto simp: prepared_take_def Let_def on_log_store_def log_ask_def op_simps split: prod.splits)
  have "zones_known (le_log E) (le_order E n (pd_zones p))" using p order [of n] by (fastforce simp: prepared_known_def zones_known_def)
  with open_nearest_logs [OF Z this o(1)] o(2) show ?thesis by simp
qed

lemma segment_open_fresh:
  assumes Z: "log_zones (le_log E) zlog" and order: "\<And>n zs. set (le_order E n zs) \<subseteq> set zs"
    and placed: "pred_option (zones_known (le_log E)) placed" and l: "pred_option (prepared_known (le_log E)) (ls_prepared l)"
    and o: "segment_open E strm first placed l = (Inr (Some sg), l')"
  shows "fresh_logs zlog (ls_store l') (sg_writers sg)" "sg_offset sg = 0" "sg_healthy sg"
    "mf_replicas (sg_manifest sg) = map snd (sg_writers sg)"
proof -
  let ?M = "\<lambda>p opened. \<lparr>mf_format = 1, mf_id = pd_id p, mf_stream = strm, mf_first_version = first, mf_replicas = map snd opened\<rparr>"
  let ?publish = "\<lambda>p opened. bind_op (lift_op (replica_zones (le_log E) (mf_replicas (?M p opened)))) (\<lambda>zones.
       bind_op (lift_op (manifest_key (lg_crypto (le_log E)) (?M p opened))) (\<lambda>key.
       bind_op (lift_op (lg_manifest_encode (le_log E) (?M p opened))) (\<lambda>b.
       bind_op (on_log_store (archive_create (le_log E) key b ''conflicting log manifest'')) (\<lambda>_.
       ret_op (Some \<lparr>sg_manifest = ?M p opened, sg_zones = zones, sg_writers = opened, sg_offset = 0, sg_healthy = True\<rparr>)))))"
  from o obtain pre p l1 l2 x where
    p: "(case ls_prepared l of
          Some p \<Rightarrow> ensure_op (pd_prefix p = pre) ''prepared log belongs to another actor'' (ret_op p)
        | None \<Rightarrow>
            (case placed of
               Some zones \<Rightarrow> prepared_new E pre zones All
             | None \<Rightarrow> prepared_new E pre (lg_zones (le_log E)) (lg_placement (le_log E)))) (l\<lparr>ls_prepared := None\<rparr>) = (Inr p, l1)"
    and x: "prepared_take E p l1 = (Inr x, l2)" "(case x of None \<Rightarrow> ret_op None | Some opened \<Rightarrow> ?publish p opened) l2 = (Inr (Some sg), l')"
    unfolding segment_open_def Let_def bind_op_Inr lift_op_Inr take_prepared_def prod.inject by blast
  from x(2) obtain opened where opened: "x = Some opened" "?publish p opened l2 = (Inr (Some sg), l')"
    by (cases x) (simp_all add: ret_op_def)
  note t = x(1) [unfolded opened(1)]
  from opened(2) obtain key b zones where
    a: "on_log_store (archive_create (le_log E) key b ''conflicting log manifest'') l2 = (Inr (), l')"
    and sg: "sg = \<lparr>sg_manifest = ?M p opened, sg_zones = zones, sg_writers = opened, sg_offset = 0, sg_healthy = True\<rparr>"
    by (auto simp: op_simps)
  have "prepared_known (le_log E) p"
    using p l placed by (auto simp: op_simps prepared_new_def prepared_known_def zones_known_def split: option.splits)
  from prepared_take_fresh [OF Z order this t] have "fresh_logs zlog (ls_store l2) opened" .
  moreover have "zlog r (ls_store l') = zlog r (ls_store l2)" for r
    using a archive_create_logs [OF Z] by (auto simp: on_log_store_def split: prod.splits)
  ultimately show "fresh_logs zlog (ls_store l') (sg_writers sg)" "sg_offset sg = 0" "sg_healthy sg"
    "mf_replicas (sg_manifest sg) = map snd (sg_writers sg)"
    by (simp_all add: sg fresh_logs_def)
qed

section \<open>Appending to a segment\<close>

lemma flush_all_logs:
  assumes Z: "log_zones L zlog" and f: "flush_all frame ws s = (rs, s')" and "zones_known L (map fst ws)"
    and "distinct (map snd ws)" "\<forall>rep \<in> snd ` set ws. zlog rep s = Some log"
  shows "(\<forall>rep \<in> snd ` set ws. \<exists>k \<le> length frame. zlog rep s' = Some (log @ take k frame)) \<and>
    (\<forall>r. r \<notin> snd ` set ws \<longrightarrow> zlog r s' = zlog r s) \<and>
    (length log + length frame < 2 ^ 64 \<longrightarrow> check_flushed (of_nat (length log + length frame)) rs = Inr () \<longrightarrow>
      (\<forall>rep \<in> snd ` set ws. zlog rep s' = Some (log @ frame)))"
  using assms(2-)
proof (induction ws arbitrary: s rs)
  case (Cons w ws)
  obtain z rep where w: "w = (z, rep)" by fastforce
  have z: "zone_logs zlog z" using known_logs [OF Z Cons.prems(2)] by (simp add: w)
  obtain c s1 where c: "zn_append z rep frame s = (c, s1)" by fastforce
  obtain rs' where f: "flush_all frame ws s1 = (rs', s')" and rs: "rs = c # rs'"
    using Cons.prems(1) c by (auto simp: w split: prod.splits)
  have rep: "rep \<notin> snd ` set ws" using Cons.prems(3) by (auto simp: w)
  have others: "zlog r s1 = zlog r s" if "r \<noteq> rep" for r using zone_logsD(3) [OF z c that] .
  have "\<forall>r \<in> snd ` set ws. zlog r s1 = Some log"
  proof
    fix r
    assume r: "r \<in> snd ` set ws"
    then have "r \<noteq> rep" using rep by auto
    with others [OF this] Cons.prems(4) r show "zlog r s1 = Some log" by simp
  qed
  moreover have "zones_known L (map fst ws)" "distinct (map snd ws)" using Cons.prems(2,3) by (simp_all add: zones_known_def)
  ultimately have IH: "(\<forall>rep \<in> snd ` set ws. \<exists>k \<le> length frame. zlog rep s' = Some (log @ take k frame))"
    "\<And>r. r \<notin> snd ` set ws \<Longrightarrow> zlog r s' = zlog r s1"
    "length log + length frame < 2 ^ 64 \<Longrightarrow> check_flushed (of_nat (length log + length frame)) rs' = Inr () \<Longrightarrow>
      \<forall>rep \<in> snd ` set ws. zlog rep s' = Some (log @ frame)"
    using Cons.IH [OF f] by blast+
  have "zlog rep s = Some log" using Cons.prems(4) by (simp add: w)
  from zone_logsD(4) [OF z c this] obtain k where k: "k \<le> length frame" "zlog rep s1 = Some (log @ take k frame)"
    "\<And>n. c = Inr n \<Longrightarrow> n = of_nat (length log + k)" by blast
  have rep': "zlog rep s' = Some (log @ take k frame)" using IH(2) [OF rep] k(2) by simp
  have full: "k = length frame" if "length log + length frame < 2 ^ 64" "c = Inr (of_nat (length log + length frame))"
  proof -
    have "(of_nat (length log + length frame) :: u64) = of_nat (length log + k)" using k(3) that(2) by blast
    moreover have "length log + k < 2 ^ 64" using that(1) k(1) by simp
    ultimately have "length log + length frame = length log + k"
      using that(1) by (metis unat_of_nat_u64)
    then show ?thesis by simp
  qed
  have checked: "c = Inr (of_nat (length log + length frame))" "check_flushed (of_nat (length log + length frame)) rs' = Inr ()"
    if "check_flushed (of_nat (length log + length frame)) rs = Inr ()"
    using that unfolding rs check_flushed.simps rbind_Inr_iff ensure_Inr_iff by blast+
  have ws: "snd ` set (w # ws) = insert rep (snd ` set ws)" by (simp add: w)
  show ?case unfolding ws
  proof (intro conjI allI impI)
    show "\<forall>rep \<in> insert rep (snd ` set ws). \<exists>k \<le> length frame. zlog rep s' = Some (log @ take k frame)"
      using IH(1) rep' k(1) by blast
    show "zlog r s' = zlog r s" if "r \<notin> insert rep (snd ` set ws)" for r
      using that IH(2) [of r] others [of r] by simp
    assume len: "length log + length frame < 2 ^ 64" and "check_flushed (of_nat (length log + length frame)) rs = Inr ()"
    note ch = checked [OF this(2)]
    have "zlog rep s' = Some (log @ frame)" using rep' full [OF len ch(1)] by simp
    with IH(3) [OF len ch(2)] show "\<forall>rep \<in> insert rep (snd ` set ws). zlog rep s' = Some (log @ frame)" by blast
  qed
qed simp


text \<open>What a segment holds of the entries \<open>tail\<close>: every replica holds the frames of all of them
  and perhaps a beginning of one more, and exactly them while the segment is healthy.\<close>

type_synonym entries = "(u64 \<times> bytes) list"

definition entry_records :: "entries \<Rightarrow> Record list" where
  "entry_records es = map (\<lambda>(v, b). \<lparr>rec_version = v, rec_state = b\<rparr>) es"

definition segment_holds :: "crypto \<Rightarrow> 's zone_view \<Rightarrow> 's Segment \<Rightarrow> 's \<Rightarrow> entries \<Rightarrow> bool" where
  "segment_holds C zlog sg s tail \<longleftrightarrow>
     mf_replicas (sg_manifest sg) = map snd (sg_writers sg) \<and> distinct (map snd (sg_writers sg)) \<and>
     (\<exists>more bs. length more \<le> 1 \<and> encoded C (entry_records tail @ more) bs \<and> consecutive None (entry_records tail @ more) \<and>
       (\<forall>rep \<in> snd ` set (sg_writers sg). \<exists>log. zlog rep s = Some log \<and> log_copy bs (length tail) log) \<and>
       (sg_healthy sg \<longrightarrow> more = [] \<and> length (concat bs) < 2 ^ 64 \<and> sg_offset sg = of_nat (length (concat bs)) \<and>
         (\<forall>rep \<in> snd ` set (sg_writers sg). zlog rep s = Some (concat bs))))"

lemma entry_records_simps [simp]:
  "entry_records [] = []" "entry_records (es @ [(v, b)]) = entry_records es @ [\<lparr>rec_version = v, rec_state = b\<rparr>]"
  "length (entry_records es) = length es"
  by (simp_all add: entry_records_def)

lemma encoded_snoc: "encoded C (rs @ [r]) bs \<longleftrightarrow> (\<exists>bs' b. bs = bs' @ [b] \<and> encoded C rs bs' \<and> record_encode C r = Inr b)"
  unfolding encoded_def list_all2_append1 by (auto simp: list_all2_Cons1 list_all2_lengthD)

lemma encoded_length: "encoded C rs bs \<Longrightarrow> length bs = length rs"
  by (auto simp: encoded_def dest: list_all2_lengthD)

lemma consecutive_snoc:
  "consecutive prev xs \<Longrightarrow> (xs \<noteq> [] \<Longrightarrow> checked_add (rec_version (last xs)) 1 = Some (rec_version r)) \<Longrightarrow>
    (xs = [] \<Longrightarrow> follows_version prev (rec_version r)) \<Longrightarrow> consecutive prev (xs @ [r])"
proof (induction xs arbitrary: prev)
  case (Cons x xs)
  have "consecutive (Some (rec_version x)) (xs @ [r])"
  proof (rule Cons.IH)
    show "consecutive (Some (rec_version x)) xs" using Cons.prems(1) by simp
    show "checked_add (rec_version (last xs)) 1 = Some (rec_version r)" if "xs \<noteq> []" using that Cons.prems(2) by simp
    show "follows_version (Some (rec_version x)) (rec_version r)" if "xs = []"
      using that Cons.prems(2) by (simp add: follows_version_def)
  qed
  with Cons.prems(1) show ?case by simp
qed simp

lemma segment_holds_open:
  "fresh_logs zlog s (sg_writers sg) \<Longrightarrow> sg_offset sg = 0 \<Longrightarrow> mf_replicas (sg_manifest sg) = map snd (sg_writers sg) \<Longrightarrow>
    segment_holds C zlog sg s []"
  unfolding segment_holds_def fresh_logs_def by (intro conjI exI [of _ "[]"]) (auto simp: log_copy_def)

lemma segment_holds_change:
  assumes "segment_holds C zlog sg s tail" "\<And>rep. rep \<in> snd ` set (sg_writers sg) \<Longrightarrow> zlog rep s' = zlog rep s"
  shows "segment_holds C zlog sg s' tail"
  using assms unfolding segment_holds_def by (metis (no_types, lifting))

lemma segment_holds_log:
  assumes "segment_holds C zlog sg s tail" "rep \<in> snd ` set (sg_writers sg)"
  shows "\<exists>log. zlog rep s = Some log"
  using assms unfolding segment_holds_def by blast

lemma segment_append_cases:
  assumes a: "segment_append C v b sg s = (c, sg', s')"
  shows "(sg' = sg \<and> s' = s \<and> \<not> is_ok c) \<or>
    (\<exists>frame expected flushed. sg_healthy sg \<and> record_encode C \<lparr>rec_version = v, rec_state = b\<rparr> = Inr frame \<and>
      checked_add (sg_offset sg) (of_nat (length frame)) = Some expected \<and> flush_all frame (sg_writers sg) s = (flushed, s') \<and>
      (check_flushed expected flushed = Inr () \<and> is_ok c \<and> sg' = sg\<lparr>sg_offset := expected, sg_healthy := True\<rparr> \<or>
       check_flushed expected flushed \<noteq> Inr () \<and> \<not> is_ok c \<and> sg' = sg\<lparr>sg_healthy := False\<rparr>))"
proof (cases "sg_healthy sg")
  case True
  show ?thesis
  proof (cases "record_encode C \<lparr>rec_version = v, rec_state = b\<rparr>")
    case (Inr frame)
    show ?thesis
    proof (cases "checked_add (sg_offset sg) (of_nat (length frame))")
      case (Some expected)
      obtain flushed t where f: "flush_all frame (sg_writers sg) s = (flushed, t)" by fastforce
      have ev: "segment_append C v b sg s = (case check_flushed expected flushed of
          Inl e \<Rightarrow> (Inl e, sg\<lparr>sg_healthy := False\<rparr>, t) | Inr _ \<Rightarrow> (Inr frame, sg\<lparr>sg_offset := expected, sg_healthy := True\<rparr>, t))"
        by (simp add: segment_append_def True Inr Some f)
      have res: "t = s' \<and> (check_flushed expected flushed = Inr () \<and> is_ok c \<and> sg' = sg\<lparr>sg_offset := expected, sg_healthy := True\<rparr> \<or>
          check_flushed expected flushed \<noteq> Inr () \<and> \<not> is_ok c \<and> sg' = sg\<lparr>sg_healthy := False\<rparr>)"
        using a unfolding ev by (cases "check_flushed expected flushed") auto
      then have "t = s'" by blast
      with res True Inr Some f show ?thesis by blast
    next
      case None
      with a True Inr have "c = Inl ''log offset overflow''" "sg' = sg" "s' = s" by (simp_all add: segment_append_def)
      then show ?thesis by simp
    qed
  next
    case (Inl e)
    with a True have "c = Inl e" "sg' = sg" "s' = s" by (simp_all add: segment_append_def)
    then show ?thesis by simp
  qed
next
  case False
  with a have "\<not> is_ok c" "sg' = sg" "s' = s" by (auto simp: segment_append_def)
  then show ?thesis by simp
qed

text \<open>Appending the next entry. If every zone reports the whole frame, every replica holds it;
  if anything else happens, every replica still holds the entries before.\<close>

lemma segment_append_holds:
  assumes Z: "log_zones L zlog" and C: "crypto_ok C" and known: "zones_known L (map fst (sg_writers sg))"
    and holds: "segment_holds C zlog sg s tail"
    and next_version: "tail \<noteq> [] \<Longrightarrow> checked_add (fst (last tail)) 1 = Some v"
    and a: "segment_append C v b sg s = (c, sg', s')"
  shows "is_ok c \<Longrightarrow> segment_holds C zlog sg' s' (tail @ [(v, b)])" "\<not> is_ok c \<Longrightarrow> segment_holds C zlog sg' s' tail"
    "sg_writers sg' = sg_writers sg"
proof -
  let ?r = "\<lparr>rec_version = v, rec_state = b\<rparr>"
  show w: "sg_writers sg' = sg_writers sg"
    using a by (auto simp: segment_append_def split: if_splits sum.splits option.splits prod.splits)
  have "(is_ok c \<longrightarrow> segment_holds C zlog sg' s' (tail @ [(v, b)])) \<and> (\<not> is_ok c \<longrightarrow> segment_holds C zlog sg' s' tail)"
  proof (cases "sg' = sg \<and> s' = s \<and> \<not> is_ok c")
    case False
    with segment_append_cases [OF a] obtain frame expected flushed where healthy: "sg_healthy sg" and frame: "record_encode C ?r = Inr frame"
      and expected: "checked_add (sg_offset sg) (of_nat (length frame)) = Some expected"
      and flush: "flush_all frame (sg_writers sg) s = (flushed, s')"
      and res: "check_flushed expected flushed = Inr () \<and> is_ok c \<and> sg' = sg\<lparr>sg_offset := expected, sg_healthy := True\<rparr> \<or>
        check_flushed expected flushed \<noteq> Inr () \<and> \<not> is_ok c \<and> sg' = sg\<lparr>sg_healthy := False\<rparr>"
      by blast
    from holds healthy obtain bs where man: "mf_replicas (sg_manifest sg) = map snd (sg_writers sg)" "distinct (map snd (sg_writers sg))"
      and bs: "encoded C (entry_records tail) bs" "consecutive None (entry_records tail)"
        "length (concat bs) < 2 ^ 64" "sg_offset sg = of_nat (length (concat bs))"
        "\<forall>rep \<in> snd ` set (sg_writers sg). zlog rep s = Some (concat bs)"
      unfolding segment_holds_def by auto
    have fl: "length frame < 2 ^ 64" using record_encode_Inr(2,3) [OF C frame] by (simp add: HEADER_def)
    from expected have u: "unat expected = length (concat bs) + length frame"
      using bs(3) fl by (simp add: checked_add_Some_iff bs(4) unat_of_nat_u64)
    have "expected = of_nat (unat expected)" by simp
    then have e: "expected = of_nat (length (concat bs) + length frame)" "length (concat bs) + length frame < 2 ^ 64"
      using u64_bound [of expected] unfolding u by blast+
    note F = flush_all_logs [OF Z flush known man(2) bs(5)]
    have "follows_version None v" by (simp add: follows_version_def)
    have consec: "consecutive None (entry_records tail @ [?r])"
    proof (rule consecutive_snoc [OF bs(2)])
      assume ne: "entry_records tail \<noteq> []"
      then have "tail \<noteq> []" by auto
      then show "checked_add (rec_version (last (entry_records tail))) 1 = Some (rec_version ?r)"
        using next_version by (simp add: entry_records_def last_map case_prod_beta)
    qed (simp add: follows_version_def)
    have enc: "encoded C (entry_records tail @ [?r]) (bs @ [frame])" using bs(1) frame by (auto simp: encoded_snoc)
    have len: "length bs = length tail" using encoded_length [OF bs(1)] by simp
    show ?thesis
    proof (cases "check_flushed expected flushed = Inr ()")
      case True
      then have full: "\<forall>rep \<in> snd ` set (sg_writers sg). zlog rep s' = Some (concat bs @ frame)" using F e by blast
      have "log_copy (bs @ [frame]) (length (tail @ [(v, b)])) (concat bs @ frame)"
        unfolding log_copy_def by (rule exI [of _ "length (concat bs @ frame)"]) (simp add: len)
      with full have copies: "\<forall>rep \<in> snd ` set (sg_writers sg). \<exists>log. zlog rep s' = Some log \<and>
          log_copy (bs @ [frame]) (length (tail @ [(v, b)])) log" by blast
      from res True have sg': "sg' = sg\<lparr>sg_offset := expected, sg_healthy := True\<rparr>" "is_ok c" by simp_all
      have "segment_holds C zlog sg' s' (tail @ [(v, b)])" unfolding segment_holds_def
        by (intro conjI exI [of _ "[] :: Record list"] exI [of _ "bs @ [frame]"] copies [folded w])
          (use man enc consec full e in \<open>simp_all add: sg'(1)\<close>)
      with sg'(2) show ?thesis by simp
    next
      case False
      have "log_copy (bs @ [frame]) (length tail) (concat bs @ take k frame)" for k
        unfolding log_copy_def by (rule exI [of _ "length (concat bs) + k"]) (simp add: len)
      with F have "\<forall>rep \<in> snd ` set (sg_writers sg). \<exists>log. zlog rep s' = Some log \<and> log_copy (bs @ [frame]) (length tail) log" by blast
      then have copies: "\<forall>rep \<in> snd ` set (sg_writers sg'). \<exists>log. zlog rep s' = Some log \<and> log_copy (bs @ [frame]) (length tail) log"
        unfolding w .
      from res False have sg': "sg' = sg\<lparr>sg_healthy := False\<rparr>" "\<not> is_ok c" by simp_all
      have "segment_holds C zlog sg' s' tail" unfolding segment_holds_def
        by (intro conjI exI [of _ "[?r]"] exI [of _ "bs @ [frame]"] copies) (use man enc consec in \<open>simp_all add: sg'(1)\<close>)
      with sg'(2) show ?thesis by simp
    qed
  qed (use holds in simp)
  then show "is_ok c \<Longrightarrow> segment_holds C zlog sg' s' (tail @ [(v, b)])" "\<not> is_ok c \<Longrightarrow> segment_holds C zlog sg' s' tail" by simp_all
qed


section \<open>The invariant of a session\<close>

text \<open>The acknowledged entries of a session: the versions after the base, one by one, each with the
  bytes of a commit of this stream and version.\<close>

definition entries_ok :: "('s, 'v) log_env \<Rightarrow> StateStream \<Rightarrow> entries \<Rightarrow> bool" where
  "entries_ok E strm es \<longleftrightarrow> (\<forall>i < length es. unat (fst (es ! i)) = unat (ss_base_version strm) + i + 1 \<and>
     (\<exists>ref. stream_snapshot (lg_crypto (le_log E)) (lg_json (le_log E)) strm (snd (es ! i)) = Inr ref \<and>
        sr_state_version ref = fst (es ! i)))"

definition installed_entries :: "'s Session \<Rightarrow> entries \<Rightarrow> entries" where
  "installed_entries S es = drop (unat (se_installed_at S) - unat (ss_base_version (se_stream S))) es"

text \<open>The shape of a session. A healthy session that has opened its log either writes snapshots or has
  a healthy segment with its archive worker.\<close>

definition session_shape :: "'s Session \<Rightarrow> bool" where
  "session_shape S \<longleftrightarrow>
     (se_standard S \<longrightarrow> se_segment S = None) \<and> (se_segment S = None \<longrightarrow> se_archive S = None) \<and>
     (se_archive S = None \<longrightarrow> se_segment S = None) \<and> (se_preparing S \<noteq> None \<longrightarrow> se_segment S = None \<and> se_version S = se_installed_at S) \<and>
     (se_healthy S \<longrightarrow> pred_option sg_healthy (se_segment S) \<and> (se_preparing S = None \<longrightarrow> se_standard S \<or> se_segment S \<noteq> None)) \<and>
     progress_ok (se_version S) (se_checkpoint S) \<and> (se_latest S = None \<longrightarrow> pg_logged (se_checkpoint S) = [])"

definition session_entries :: "('s, 'v) log_env \<Rightarrow> entries \<Rightarrow> 's Session \<Rightarrow> bool" where
  "session_entries E es S \<longleftrightarrow> entries_ok E (se_stream S) es \<and>
     unat (se_version S) = unat (ss_base_version (se_stream S)) + length es \<and>
     ss_base_version (se_stream S) \<le> se_installed_at S \<and> se_installed_at S \<le> se_version S"

definition journal_inv :: "('s, 'v) log_env \<Rightarrow> 's zone_view \<Rightarrow> ('s \<Rightarrow> bool) \<Rightarrow> entries \<Rightarrow> 's running \<Rightarrow> bool" where
  "journal_inv E zlog binv es R \<longleftrightarrow>
     running_inv (le_log E) binv R \<and> session_shape (rn_session R) \<and> session_entries E es (rn_session R) \<and>
     pred_option (\<lambda>sg. segment_holds (lg_crypto (le_log E)) zlog sg (ls_store (rn_log R)) (installed_entries (rn_session R) es))
       (se_segment (rn_session R))"

definition journal_world :: "('s, 'v) log_env \<Rightarrow> 's zone_view \<Rightarrow> ('s \<Rightarrow> bool) \<Rightarrow> ('s \<Rightarrow> string \<rightharpoonup> BucketObject) \<Rightarrow> bool" where
  "journal_world E zlog binv view \<longleftrightarrow>
     env_ok E binv view \<and> log_zones (le_log E) zlog \<and> crypto_ok (lg_crypto (le_log E))"

lemma journal_worldD:
  assumes "journal_world E zlog binv view"
  shows "env_ok E binv view" "log_zones (le_log E) zlog" "crypto_ok (lg_crypto (le_log E))"
    "log_world (le_log E) binv view" "set (le_order E n zs) \<subseteq> set zs"
  using assms by (simp_all add: journal_world_def env_ok_def)

abbreviation journal_keeps where
  "journal_keeps E zlog binv es \<equiv> keeps (journal_inv E zlog binv es) no_view"

lemma journal_running: "journal_inv E zlog binv es R \<Longrightarrow> running_inv (le_log E) binv R"
  by (simp add: journal_inv_def)

lemma journal_change_log:
  assumes J: "journal_inv E zlog binv es R" and l: "log_inv (le_log E) binv l"
    and same: "\<And>sg rep log. se_segment (rn_session R) = Some sg \<Longrightarrow> rep \<in> snd ` set (sg_writers sg) \<Longrightarrow>
      zlog rep (ls_store (rn_log R)) = Some log \<Longrightarrow> zlog rep (ls_store l) = Some log"
  shows "journal_inv E zlog binv es (R\<lparr>rn_log := l\<rparr>)"
proof (cases "se_segment (rn_session R)")
  case (Some sg)
  let ?C = "lg_crypto (le_log E)" and ?es = "installed_entries (rn_session R) es"
  from J Some have h: "segment_holds ?C zlog sg (ls_store (rn_log R)) ?es" by (simp add: journal_inv_def)
  have "segment_holds ?C zlog sg (ls_store l) ?es"
  proof (rule segment_holds_change [OF h])
    fix rep
    assume rep: "rep \<in> snd ` set (sg_writers sg)"
    from segment_holds_log [OF h rep] same [OF Some rep] show "zlog rep (ls_store l) = zlog rep (ls_store (rn_log R))" by auto
  qed
  with J l Some show ?thesis by (simp add: journal_inv_def running_inv_def)
qed (use J l in \<open>simp add: journal_inv_def running_inv_def\<close>)

lemma journal_on_log:
  assumes k: "log_keeps (le_log E) binv view m Q" and h: "\<And>r log. log_held (le_log E) zlog r log m (\<lambda>_. True)"
    and J: "journal_inv E zlog binv es R" and m: "on_log m R = (c, R')"
  shows "journal_inv E zlog binv es R'" "rn_session R' = rn_session R" "c = Inr x \<Longrightarrow> Q x"
proof -
  obtain d l where d: "m (rn_log R) = (d, l)" by fastforce
  with m have R': "R' = R\<lparr>rn_log := l\<rparr>" "c = d" by (auto simp: on_log_def)
  have inv: "log_inv (le_log E) binv (rn_log R)" using journal_running [OF J] by (simp add: running_inv_def)
  note K = keepsD [OF k inv d]
  from K(3) R'(2) show "c = Inr x \<Longrightarrow> Q x" by simp
  have "zlog rep (ls_store l) = Some log" if "zlog rep (ls_store (rn_log R)) = Some log" for rep log
  proof -
    have "holds_log (le_log E) zlog rep log (rn_log R)" using that inv by (simp add: holds_log_def log_inv_def)
    from keepsD(1) [OF h this d] show ?thesis by (simp add: holds_log_def)
  qed
  with journal_change_log [OF J K(1)] show "journal_inv E zlog binv es R'" unfolding R'(1) by blast
  show "rn_session R' = rn_session R" by (simp add: R'(1))
qed

lemma journal_keeps_on_log:
  assumes k: "log_keeps (le_log E) binv view m Q" and h: "\<And>r log. log_held (le_log E) zlog r log m (\<lambda>_. True)"
  shows "journal_keeps E zlog binv es (on_log m) Q"
proof (rule keepsI)
  fix R c R'
  assume "journal_inv E zlog binv es R" "on_log m R = (c, R')"
  from journal_on_log(1,3) [OF k h this] show "journal_inv E zlog binv es R' \<and> no_view R \<subseteq>\<^sub>m no_view R' \<and> (\<forall>x. c = Inr x \<longrightarrow> Q x)"
    by simp
qed

lemma journal_now: "journal_keeps E zlog binv es (session_now E) (\<lambda>_. True)"
  unfolding session_now_def by (rule journal_keeps_on_log [where view = no_view, OF adds_ask]) (rule held_ask, simp)


subsection \<open>Operations that leave the entries alone\<close>

text \<open>What the entries of a session depend on.\<close>

definition session_core :: "'s Session \<Rightarrow> StateStream \<times> u64 \<times> u64 \<times> 's Segment option" where
  "session_core S = (se_stream S, se_version S, se_installed_at S, se_segment S)"

lemma journal_change_session:
  assumes J: "journal_inv E zlog binv es R" and "session_known (le_log E) S" "session_shape S"
    and "session_core S = session_core (rn_session R)"
  shows "journal_inv E zlog binv es (R\<lparr>rn_session := S\<rparr>)"
  using assms by (simp add: journal_inv_def running_inv_def session_core_def session_entries_def installed_entries_def)

lemma journal_put_fields:
  assumes "\<And>S. session_known (le_log E) S \<Longrightarrow> session_known (le_log E) (g S)" "\<And>S. session_shape S \<Longrightarrow> session_shape (g S)"
    and "\<And>S. session_core (g S) = session_core S"
  shows "journal_keeps E zlog binv es (session_put_fields g) (\<lambda>_. True)"
proof (rule keepsI)
  fix R c R'
  assume J: "journal_inv E zlog binv es R" and eq: "session_put_fields g R = (c, R')"
  have "journal_inv E zlog binv es (R\<lparr>rn_session := g (rn_session R)\<rparr>)"
    using J assms by (intro journal_change_session [OF J]) (simp_all add: journal_inv_def running_inv_def)
  with eq show "journal_inv E zlog binv es R' \<and> no_view R \<subseteq>\<^sub>m no_view R' \<and> (\<forall>x. c = Inr x \<longrightarrow> True)"
    by (auto simp: session_put_fields_def)
qed

lemma journal_session_get:
  "(\<And>S. session_known (le_log E) S \<Longrightarrow> Q (f S)) \<Longrightarrow> journal_keeps E zlog binv es (session_get f) Q"
  by (simp add: keeps_def session_get_def journal_inv_def running_inv_def)

lemmas journal_get = journal_session_get [where Q = "\<lambda>_. True", simplified]

lemma archiver_finish_finished: "archiver_is_finished a \<Longrightarrow> archiver_finish E a l = (c, l') \<Longrightarrow> l' = l"
  by (cases "le_patience E") (auto simp: archiver_finish_def archiver_is_finished_def archiver_close_def split: worker_at.splits)

lemma journal_collect_retired:
  assumes W: "journal_world E zlog binv view"
  shows "journal_keeps E zlog binv es (collect_retired E) (\<lambda>_. True)"
proof -
  have fin: "journal_keeps E zlog binv es (on_log (archiver_finish E a)) (\<lambda>_. True)" if "archiver_is_finished a" for a
    by (rule journal_keeps_on_log [OF adds_archiver_finish [OF journal_worldD(1) [OF W]]])
      (use archiver_finish_finished [OF that] in \<open>auto simp: keeps_def\<close>)
  show ?thesis unfolding collect_retired_def
    by (intro adds_rules journal_get fin journal_put_fields) (simp_all add: session_known_def session_shape_def session_core_def)
qed

lemma progress_logged_collect: "pg_logged pg = [] \<Longrightarrow> pg_logged (progress_collect now pg) = []"
  by (auto simp: progress_collect_def progress_completed_def Let_def split: option.splits checkpoint_task.splits sum.splits)

lemma progress_logged_schedule: "pg_logged pg = [] \<Longrightarrow> pg_logged (progress_schedule now newest v pg) = []"
  using progress_logged_collect [of pg now]
  by (auto simp: progress_schedule_def progress_start_def Let_def split: option.splits)

lemma journal_schedule: "journal_keeps E zlog binv es (session_schedule E) (\<lambda>_. True)"
  unfolding session_schedule_def
  by (intro adds_rules journal_now journal_put_fields)
    (simp_all add: session_known_def session_shape_def session_core_def progress_ok_schedule progress_logged_schedule)

subsection \<open>Opening a segment\<close>

lemma await_preparing_opens:
  assumes W: "journal_world E zlog binv view" and J: "journal_inv E zlog binv es R" and p: "preparing_known (le_log E) p"
    and a: "await_preparing E p R = (c, R')"
  shows "journal_inv E zlog binv es R'" "rn_session R' = rn_session R"
    "c = Inr x \<Longrightarrow> pred_option (segment_known (le_log E)) x"
    "c = Inr (Some sg) \<Longrightarrow> sg_healthy sg \<and> segment_holds (lg_crypto (le_log E)) zlog sg (ls_store (rn_log R')) []"
proof -
  note E = journal_worldD [OF W]
  let ?open = "segment_open E (se_stream (rn_session R)) (pr_first p) (pr_placed p)"
  have o: "on_log ?open R = (c, R')" using a by (simp add: await_preparing_def bind_op_def session_get_def)
  have pl: "pred_option (zones_known (le_log E)) (pr_placed p)" using p by (simp add: preparing_known_def)
  note L = journal_on_log [OF keeps_segment_open [OF E(1) pl] held_segment_open [OF E(2,5) pl] J o]
  show "journal_inv E zlog binv es R'" "rn_session R' = rn_session R" "c = Inr x \<Longrightarrow> pred_option (segment_known (le_log E)) x"
    using L by blast+
  assume c: "c = Inr (Some sg)"
  from o c obtain l where l: "?open (rn_log R) = (Inr (Some sg), l)" "rn_log R' = l" by (auto simp: on_log_def split: prod.splits)
  have "pred_option (prepared_known (le_log E)) (ls_prepared (rn_log R))"
    using journal_running [OF J] by (simp add: running_inv_def log_inv_def)
  note F = segment_open_fresh [OF E(2,5) pl this l(1)]
  from segment_holds_open [OF F(1,2,4)] F(3) l(2)
  show "sg_healthy sg \<and> segment_holds (lg_crypto (le_log E)) zlog sg (ls_store (rn_log R')) []" by simp
qed

lemma installed_entries_version:
  "session_entries E es S \<Longrightarrow> se_installed_at S = se_version S \<Longrightarrow> installed_entries S es = []"
  by (simp add: session_entries_def installed_entries_def)

lemma journal_install:
  assumes J: "journal_inv E zlog binv es R" and p: "se_preparing (rn_session R) = None"
    and x: "pred_option (segment_known (le_log E)) x"
    and h: "\<And>sg. x = Some sg \<Longrightarrow> sg_healthy sg \<and> segment_holds (lg_crypto (le_log E)) zlog sg (ls_store (rn_log R)) []"
  shows "journal_inv E zlog binv es (R\<lparr>rn_session := session_install x (rn_session R)\<rparr>)"
proof -
  let ?S = "session_install x (rn_session R)"
  have e: "session_entries E es ?S"
    using J by (auto simp: journal_inv_def session_entries_def session_install_def word_le_nat_alt)
  have "installed_entries ?S es = []"
    by (rule installed_entries_version [OF e]) (simp add: session_install_def)
  moreover have "se_segment ?S = x" by (simp add: session_install_def)
  moreover have "session_shape ?S" using J p h
    by (cases x) (auto simp: journal_inv_def session_shape_def session_install_def)
  moreover have "session_known (le_log E) ?S" using J x
    by (simp add: journal_inv_def running_inv_def session_known_def session_install_def)
  ultimately show ?thesis using J e h by (cases x) (simp_all add: journal_inv_def running_inv_def)
qed

lemma journal_install_preparing:
  assumes W: "journal_world E zlog binv view" and J: "journal_inv E zlog binv es R" and h: "\<not> se_healthy (rn_session R)"
    and i: "install_preparing E R = (c, R')"
  shows "journal_inv E zlog binv es R'"
proof (cases "se_preparing (rn_session R)")
  case None
  with i J show ?thesis by (simp add: install_preparing_def bind_op_def session_get_def ret_op_def)
next
  case (Some p)
  let ?R = "R\<lparr>rn_session := (rn_session R)\<lparr>se_preparing := None\<rparr>\<rparr>"
  have K: "session_known (le_log E) (rn_session R)" "session_shape (rn_session R)"
    using J by (simp_all add: journal_inv_def running_inv_def)
  have p: "preparing_known (le_log E) p" using K(1) Some by (simp add: session_known_def)
  have J1: "journal_inv E zlog binv es ?R"
    by (rule journal_change_session [OF J]) (use K h in \<open>simp_all add: session_known_def session_shape_def session_core_def\<close>)
  obtain x R2 where a: "await_preparing E p ?R = (x, R2)" by fastforce
  note A = await_preparing_opens [OF W J1 p a]
  have i': "bind_op (await_preparing E p) (\<lambda>sg. session_put_fields (session_install sg)) ?R = (c, R')"
    using i Some by (simp add: install_preparing_def bind_op_def session_get_def session_put_fields_def)
  show ?thesis
  proof (cases x)
    case (Inl e)
    with i' a A(1) show ?thesis by (simp add: bind_op_def)
  next
    case (Inr sg)
    with i' a have "R' = R2\<lparr>rn_session := session_install sg (rn_session R2)\<rparr>" by (simp add: bind_op_def session_put_fields_def)
    with journal_install [OF A(1) _ A(3) [OF Inr]] A(2,4) Inr show ?thesis by simp
  qed
qed

subsection \<open>Rotation\<close>

lemma journal_retire:
  assumes J: "journal_inv E zlog binv es R" and p: "se_preparing (rn_session R) = None"
    and x: "segment_known (le_log E) sg"
    and h: "sg_healthy sg \<and> segment_holds (lg_crypto (le_log E)) zlog sg (ls_store (rn_log R)) []"
  shows "journal_inv E zlog binv es (R\<lparr>rn_session := retire sg (rn_session R)\<rparr>)"
proof -
  obtain r where r: "retire sg (rn_session R) = (session_install (Some sg) (rn_session R))\<lparr>se_retired := r\<rparr>"
  proof (cases "se_archive (rn_session R)")
    case None
    then show ?thesis
      by (intro that [of "se_retired (rn_session R)"]) (simp add: retire_def session_install_def Let_def)
  next
    case (Some a)
    then show ?thesis
      by (intro that [of "Some (a\<lparr>ac_pending := archiver_close (ac_pending a)\<rparr>)"]) (simp add: retire_def session_install_def Let_def)
  qed
  have I: "journal_inv E zlog binv es (R\<lparr>rn_session := session_install (Some sg) (rn_session R)\<rparr>)"
    using journal_install [OF J p, of "Some sg"] x h by simp
  from journal_change_session [OF I, of "retire sg (rn_session R)"] I show ?thesis
    by (simp add: r journal_inv_def running_inv_def session_known_def session_shape_def session_core_def)
qed

definition journal_ready :: "('s, 'v) log_env \<Rightarrow> 's zone_view \<Rightarrow> ('s \<Rightarrow> bool) \<Rightarrow> entries \<Rightarrow> 's running \<Rightarrow> bool" where
  "journal_ready E zlog binv es R \<longleftrightarrow> journal_inv E zlog binv es R \<and> se_preparing (rn_session R) = None"

abbreviation ready_keeps where
  "ready_keeps E zlog binv es \<equiv> keeps (journal_ready E zlog binv es) no_view"

lemma ready_keepsI:
  assumes "journal_keeps E zlog binv es m Q" "frames se_preparing m"
  shows "ready_keeps E zlog binv es m Q"
proof (rule keepsI)
  fix R c R'
  assume "journal_ready E zlog binv es R" and m: "m R = (c, R')"
  then have J: "journal_inv E zlog binv es R" "se_preparing (rn_session R) = None" by (simp_all add: journal_ready_def)
  from keepsD [OF assms(1) J(1) m] framesD [OF assms(2) m] J(2)
  show "journal_ready E zlog binv es R' \<and> no_view R \<subseteq>\<^sub>m no_view R' \<and> (\<forall>x. c = Inr x \<longrightarrow> Q x)"
    by (simp add: journal_ready_def)
qed

text \<open>The replacement for the segment is opened and installed, or not.\<close>

lemma ready_replace_segment:
  assumes W: "journal_world E zlog binv view" and p: "preparing_known (le_log E) p"
    and k: "ready_keeps E zlog binv es k (\<lambda>_. True)"
  shows "ready_keeps E zlog binv es (bind_op (try_op (await_preparing E p)) (\<lambda>r.
       bind_op (case r of Inr (Some sg) \<Rightarrow> session_put_fields (retire sg) | _ \<Rightarrow> ret_op ()) (\<lambda>_. k))) (\<lambda>_. True)"
proof (rule keepsI)
  fix R c R'
  assume R: "journal_ready E zlog binv es R"
    and eq: "bind_op (try_op (await_preparing E p)) (\<lambda>r.
       bind_op (case r of Inr (Some sg) \<Rightarrow> session_put_fields (retire sg) | _ \<Rightarrow> ret_op ()) (\<lambda>_. k)) R = (c, R')"
  from R have J: "journal_inv E zlog binv es R" and P: "se_preparing (rn_session R) = None" by (simp_all add: journal_ready_def)
  obtain x R1 where a: "await_preparing E p R = (x, R1)" by fastforce
  note A = await_preparing_opens [OF W J p a]
  have "\<exists>R2. journal_ready E zlog binv es R2 \<and> k R2 = (c, R')"
  proof (cases "\<exists>sg. x = Inr (Some sg)")
    case True
    then obtain sg where x: "x = Inr (Some sg)" by blast
    have "journal_inv E zlog binv es (R1\<lparr>rn_session := retire sg (rn_session R1)\<rparr>)"
      using journal_retire [OF A(1)] A(2) P A(3,4) x by simp
    moreover have "se_preparing (retire sg (rn_session R1)) = None"
      using A(2) P by (simp add: retire_def session_install_def Let_def split: option.splits)
    moreover have "k (R1\<lparr>rn_session := retire sg (rn_session R1)\<rparr>) = (c, R')"
      using eq a x by (simp add: bind_op_def try_op_def session_put_fields_def)
    ultimately show ?thesis by (auto simp: journal_ready_def)
  next
    case False
    then have "k R1 = (c, R')"
      using eq a by (auto simp: bind_op_def try_op_def ret_op_def split: sum.splits option.splits)
    with A(1,2) P show ?thesis by (auto simp: journal_ready_def)
  qed
  with k show "journal_ready E zlog binv es R' \<and> no_view R \<subseteq>\<^sub>m no_view R' \<and> (\<forall>x. c = Inr x \<longrightarrow> True)"
    by (auto dest: keepsD(1))
qed


lemma ready_rotate_to:
  assumes W: "journal_world E zlog binv view"
  shows "ready_keeps E zlog binv es (rotate_to E first) (\<lambda>_. True)"
proof -
  have get: "ready_keeps E zlog binv es (session_get f) Q" if "\<And>S. session_known (le_log E) S \<Longrightarrow> Q (f S)" for f :: "'a Session \<Rightarrow> 'c" and Q
    by (rule ready_keepsI [OF journal_session_get]) (use that in \<open>auto intro: frames_session_get\<close>)
  have fields: "ready_keeps E zlog binv es (session_put_fields g) (\<lambda>_. True)"
    if "\<And>S. session_known (le_log E) S \<Longrightarrow> session_known (le_log E) (g S)" "\<And>S. session_shape S \<Longrightarrow> session_shape (g S)"
      "\<And>S. session_core (g S) = session_core S" "\<And>S. se_preparing (g S) = se_preparing S" for g
    by (rule ready_keepsI [OF journal_put_fields]) (use that in \<open>auto intro: frames_put_fields\<close>)
  have ask: "ready_keeps E zlog binv es (on_log (log_ask f)) (\<lambda>_. True)" for f :: "nat \<Rightarrow> 'c"
    by (rule ready_keepsI [OF journal_keeps_on_log [where view = no_view, OF adds_ask]]) (auto intro: held_ask frames_on_log)
  note shape = session_known_def session_shape_def session_core_def
  show ?thesis unfolding rotate_to_def
    apply (rule keeps_bind [where Q' = "preparing_known (le_log E)"])
     apply (rule get)
     apply (auto simp: session_known_def preparing_known_def segment_known_def pred_option_def split: option.splits)[1]
    apply (rule keeps_bind [where Q' = "\<lambda>_. True"])
     apply (rule fields; simp add: shape)
    apply (rule keeps_bind [OF ask])
    apply (rule keeps_if [OF adds_ret])
    apply (rule keeps_bind [where Q' = "\<lambda>_. True"])
     apply (rule fields; simp add: shape)
    apply (rule ready_replace_segment [OF W], assumption)
    apply (rule keeps_bind [where Q' = "\<lambda>_. True"])
     apply (unfold session_now_def, rule ask)
    apply (rule fields; simp add: shape)
    done
qed

lemma journal_rotate:
  assumes W: "journal_world E zlog binv view" and J: "journal_inv E zlog binv es R" and r: "session_rotate E R = (c, R')"
  shows "journal_inv E zlog binv es R'"
proof -
  obtain d R1 where d: "collect_retired E R = (d, R1)" by fastforce
  note J1 = keepsD(1) [OF journal_collect_retired [OF W] J d]
  obtain n R2 where n: "session_now E R1 = (n, R2)" by fastforce
  note J2 = keepsD(1) [OF journal_now J1 n]
  show ?thesis
  proof (cases "R' = R1 \<or> R' = R2")
    case False
    with r d n obtain first where v: "se_version (rn_session R2) \<noteq> se_installed_at (rn_session R2)"
      and to: "rotate_to E first R2 = (c, R')"
      by (auto simp: session_rotate_def bind_op_def session_get_def ret_op_def split: sum.splits if_splits option.splits)
    from J2 v have "journal_ready E zlog binv es R2" by (auto simp: journal_ready_def journal_inv_def session_shape_def)
    from keepsD(1) [OF ready_rotate_to [OF W] this to] show ?thesis by (simp add: journal_ready_def)
  qed (use J1 J2 in auto)
qed

text \<open>What a caller sees of a session.\<close>

definition session_face :: "'s Session \<Rightarrow> StateStream \<times> u64 \<times> (string \<times> bytes) option \<times> bool" where
  "session_face S = (se_stream S, se_version S, se_latest S, se_healthy S)"

lemma session_face_retire: "session_face (retire sg S) = session_face S"
  by (simp add: session_face_def retire_def session_install_def Let_def split: option.splits)

lemma frames_rotate: "frames session_face (session_rotate E)"
  unfolding session_rotate_def collect_retired_def rotate_to_def session_now_def
  by (intro allI frames_rules frames_put_fields session_face_retire) (simp_all add: session_face_def)

lemma frames_schedule: "frames session_face (session_schedule E)"
  unfolding session_schedule_def session_now_def by (intro allI frames_rules frames_put_fields) (simp add: session_face_def)

subsection \<open>Writing\<close>

lemma entries_last:
  assumes "session_entries E es S" "es \<noteq> []"
  shows "fst (last es) = se_version S"
proof -
  from assms(1) have "unat (fst (es ! (length es - 1))) = unat (ss_base_version (se_stream S)) + (length es - 1) + 1"
    using assms(2) by (simp add: session_entries_def entries_ok_def)
  also have "\<dots> = unat (se_version S)" using assms by (simp add: session_entries_def Suc_leI)
  finally show ?thesis using assms(2) by (simp add: last_conv_nth word_unat_eq_iff)
qed

lemma installed_entries_snoc:
  "session_entries E es S \<Longrightarrow> installed_entries S (es @ [e]) = installed_entries S es @ [e]"
  by (simp add: session_entries_def installed_entries_def word_le_nat_alt)

lemma installed_entries_last:
  assumes "session_entries E es S" "installed_entries S es \<noteq> []"
  shows "fst (last (installed_entries S es)) = se_version S"
proof -
  have "es \<noteq> []" using assms(2) by (auto simp: installed_entries_def)
  from entries_last [OF assms(1) this] assms(2) show ?thesis by (simp add: installed_entries_def)
qed

lemma session_entries_snoc:
  assumes "session_entries E es S" "checked_add (se_version S) 1 = Some v"
    and "stream_snapshot (lg_crypto (le_log E)) (lg_json (le_log E)) (se_stream S) b = Inr ref" "sr_state_version ref = v"
    and "se_stream S' = se_stream S" "se_version S' = v" "se_installed_at S' = se_installed_at S"
  shows "session_entries E (es @ [(v, b)]) S'"
proof -
  have v: "unat v = unat (ss_base_version (se_stream S)) + length es + 1"
    using assms(1,2) by (simp add: session_entries_def checked_add_Some_iff)
  then have "entries_ok E (se_stream S) (es @ [(v, b)])"
    using assms(1,3,4) by (auto simp: session_entries_def entries_ok_def nth_append less_Suc_eq)
  moreover have "se_version S \<le> v" using assms(2) by (simp add: checked_add_Some_iff word_le_nat_alt)
  ultimately show ?thesis using assms v by (auto simp: session_entries_def)
qed

lemma journal_acknowledge:
  assumes J: "journal_inv E zlog binv es R" and p: "se_preparing (rn_session R) = None"
    and v: "checked_add (se_version (rn_session R)) 1 = Some v"
    and ref: "stream_snapshot (lg_crypto (le_log E)) (lg_json (le_log E)) (se_stream (rn_session R)) b = Inr ref" "sr_state_version ref = v"
    and shape: "se_standard (rn_session R) \<or> se_segment (rn_session R) \<noteq> None" "pred_option sg_healthy sg"
    and sg: "pred_option (segment_known (le_log E)) sg" "sg = None \<longleftrightarrow> se_segment (rn_session R) = None"
    and a: "a = None \<longleftrightarrow> se_archive (rn_session R) = None" and l: "log_inv (le_log E) binv l"
    and holds: "pred_option (\<lambda>sg. segment_holds (lg_crypto (le_log E)) zlog sg (ls_store l) (installed_entries (rn_session R) es @ [(v, b)])) sg"
  shows "journal_inv E zlog binv (es @ [(v, b)])
    \<lparr>rn_session = acknowledge obj v b ((rn_session R)\<lparr>se_segment := sg, se_archive := a\<rparr>), rn_log = l\<rparr>"
proof -
  let ?S = "acknowledge obj v b ((rn_session R)\<lparr>se_segment := sg, se_archive := a\<rparr>)"
  from J have K: "session_known (le_log E) (rn_session R)" "session_shape (rn_session R)" "session_entries E es (rn_session R)"
    by (simp_all add: journal_inv_def running_inv_def)
  have "session_entries E (es @ [(v, b)]) ?S"
    by (rule session_entries_snoc [OF K(3) v ref]) (simp_all add: acknowledge_def)
  moreover have "session_known (le_log E) ?S" using K(1) sg(1) by (simp add: session_known_def acknowledge_def)
  moreover have "se_version (rn_session R) < v" using v by (simp add: checked_add_Some_iff word_less_nat_alt)
  then have "session_shape ?S" using K(2) p shape sg(2) a
    by (auto simp: session_shape_def acknowledge_def intro: progress_ok_logged)
  moreover have "installed_entries ?S (es @ [(v, b)]) = installed_entries (rn_session R) es @ [(v, b)]"
    using installed_entries_snoc [OF K(3)] by (simp add: installed_entries_def acknowledge_def)
  ultimately show ?thesis using l holds by (simp add: journal_inv_def running_inv_def acknowledge_def)
qed


lemma await_preparing_session: "await_preparing E p R = (c, R') \<Longrightarrow> rn_session R' = rn_session R"
  by (auto simp: await_preparing_def bind_op_def session_get_def on_log_def split: prod.splits)

lemma install_preparing_done:
  assumes "install_preparing E R = (Inr (), R')"
  shows "se_preparing (rn_session R') = None"
proof (cases "se_preparing (rn_session R)")
  case None
  with assms show ?thesis by (auto simp: install_preparing_def op_simps session_get_def)
next
  case (Some p)
  with assms obtain x R1 where "await_preparing E p (R\<lparr>rn_session := (rn_session R)\<lparr>se_preparing := None\<rparr>\<rparr>) = (Inr x, R1)"
    "R' = R1\<lparr>rn_session := session_install x (rn_session R1)\<rparr>"
    by (auto simp: install_preparing_def op_simps session_get_def session_put_fields_def)
  with await_preparing_session show ?thesis by (fastforce simp: session_install_def)
qed

lemma frames_append_segment: "frames session_face (append_segment E v b)"
  by (auto simp: keeps_def append_segment_def session_face_def split: option.splits prod.splits)

lemma frames_persist: "frames session_face (persist E obj v b)"
proof -
  have remember: "only_adds (\<lambda>R. session_face (rn_session R) = x) no_view (remember_frame v n)" for x v n
    by (auto simp: keeps_def remember_frame_def split: option.splits)
  show ?thesis
    unfolding persist_def hand_over_def session_now_def
    by (intro allI frames_rules frames_put_fields remember frames_append_segment [THEN spec]) (simp add: session_face_def)
qed

lemma gcs_put_logs:
  assumes W: "log_world L binv view" and Z: "log_zones L zlog" and put: "st_put (lg_snapshots L) obj b s = (c, s')"
  shows "zlog r s' = zlog r s"
proof (cases "object_name (lg_crypto L) obj")
  case (Inl e)
  with W put show ?thesis by (simp add: log_world_def gcs_snapshots_def gcs_put_def bind_op_def lift_op_def)
next
  case (Inr name)
  obtain d t where d: "bk_cas (lg_archive L) name None b s = (d, t)" by fastforce
  have "s' = t" using W put Inr d
    by (auto simp: log_world_def gcs_snapshots_def gcs_put_def bind_op_def lift_op_def replace_def ensure_op_def ret_op_def
        split: sum.splits if_splits)
  moreover have "zlog r t = zlog r s" using Z d unfolding log_zones_def by blast
  ultimately show ?thesis by simp
qed

lemma journal_persist_standard:
  assumes W: "journal_world E zlog binv view" and J: "journal_inv E zlog binv es R" and st: "se_standard (rn_session R)"
    and p: "persist E obj v b R = (c, R')"
  shows "journal_inv E zlog binv es R'" "rn_session R' = rn_session R"
proof -
  note E = journal_worldD [OF W]
  let ?put = "on_log_store (st_put (lg_snapshots (le_log E)) obj b)"
  have put: "on_log ?put R = (c, R')" using p st by (simp add: persist_def bind_op_def session_get_def)
  have held: "log_held (le_log E) zlog r log ?put (\<lambda>_. True)" for r log
    using gcs_put_logs [OF E(4,2)] by (intro held_on_store) simp
  from journal_on_log(1,2) [OF keeps_on_store [OF adds_gcs_put [OF E(4)]] held J put]
  show "journal_inv E zlog binv es R'" "rn_session R' = rn_session R" .
qed

lemma persist_log:
  assumes st: "\<not> se_standard (rn_session R)" and sg: "se_segment (rn_session R) = Some sg" and a: "se_archive (rn_session R) = Some a"
    and ap: "segment_append (lg_crypto (le_log E)) v b sg (ls_store (rn_log R)) = (c, sg', s)"
    and p: "persist E obj v b R = (d, R')"
  shows "c = Inl e \<Longrightarrow> \<not> is_ok d \<and> R' = R\<lparr>rn_session := (rn_session R)\<lparr>se_segment := Some sg'\<rparr>, rn_log := (rn_log R)\<lparr>ls_store := s\<rparr>\<rparr>"
    and "c = Inr frame \<Longrightarrow> is_ok d \<and> ls_store (rn_log R') = s \<and> ls_prepared (rn_log R') = ls_prepared (rn_log R) \<and>
      (\<exists>a'. rn_session R' = (rn_session R)\<lparr>se_segment := Some sg', se_archive := Some a'\<rparr>)"
proof -
  have ev: "persist E obj v b R = bind_op (append_segment E v b) (\<lambda>frame. bind_op (remember_frame v (length frame)) (\<lambda>_. hand_over E frame v)) R"
    using st by (simp add: persist_def bind_op_def session_get_def)
  show "c = Inl e \<Longrightarrow> \<not> is_ok d \<and> R' = R\<lparr>rn_session := (rn_session R)\<lparr>se_segment := Some sg'\<rparr>, rn_log := (rn_log R)\<lparr>ls_store := s\<rparr>\<rparr>"
    using p sg ap unfolding ev by (auto simp: bind_op_def append_segment_def)
  assume "c = Inr frame"
  then show "is_ok d \<and> ls_store (rn_log R') = s \<and> ls_prepared (rn_log R') = ls_prepared (rn_log R) \<and>
      (\<exists>a'. rn_session R' = (rn_session R)\<lparr>se_segment := Some sg', se_archive := Some a'\<rparr>)"
    using p sg a ap unfolding ev
    by (auto simp: bind_op_def append_segment_def remember_frame_def hand_over_def session_get_def lift_op_def session_now_def
        on_log_def log_ask_def session_put_fields_def)
qed


lemma journal_persist_log:
  assumes W: "journal_world E zlog binv view" and J: "journal_inv E zlog binv es R" and h: "\<not> se_healthy (rn_session R)"
    and pr: "se_preparing (rn_session R) = None" and st: "\<not> se_standard (rn_session R)"
    and v: "checked_add (se_version (rn_session R)) 1 = Some v"
    and ref: "stream_snapshot (lg_crypto (le_log E)) (lg_json (le_log E)) (se_stream (rn_session R)) b = Inr ref" "sr_state_version ref = v"
    and p: "persist E obj v b R = (c, R')"
  shows "\<not> is_ok c \<Longrightarrow> journal_inv E zlog binv es R'"
    "is_ok c \<Longrightarrow> journal_inv E zlog binv (es @ [(v, b)]) (R'\<lparr>rn_session := acknowledge obj v b (rn_session R')\<rparr>)"
proof -
  note E = journal_worldD [OF W]
  let ?C = "lg_crypto (le_log E)" and ?S = "rn_session R" and ?s = "ls_store (rn_log R)"
  from J have K: "session_known (le_log E) ?S" "session_shape ?S" "session_entries E es ?S" "log_inv (le_log E) binv (rn_log R)"
    by (simp_all add: journal_inv_def running_inv_def)
  have "(\<not> is_ok c \<longrightarrow> journal_inv E zlog binv es R') \<and>
    (is_ok c \<longrightarrow> journal_inv E zlog binv (es @ [(v, b)]) (R'\<lparr>rn_session := acknowledge obj v b (rn_session R')\<rparr>))"
  proof (cases "se_segment ?S")
    case None
    with p st have "c = Inl ''Rapid stream missing''" "R' = R"
      by (auto simp: persist_def bind_op_def session_get_def append_segment_def)
    with J show ?thesis by simp
  next
    case (Some sg)
    then obtain a where a: "se_archive ?S = Some a" using K(2) by (auto simp: session_shape_def)
    obtain r sg' s' where ap: "segment_append ?C v b sg ?s = (r, sg', s')" by (metis prod_cases3)
    from K(1) Some have kn: "segment_known (le_log E) sg" by (simp add: session_known_def)
    have bi: "binv ?s" using K(4) by (simp add: log_inv_def)
    note S = adds_segment_append [OF E(4) kn bi ap]
    have zk: "zones_known (le_log E) (map fst (sg_writers sg))" using kn by (simp add: segment_known_def)
    have holds: "segment_holds ?C zlog sg ?s (installed_entries ?S es)" using J Some by (simp add: journal_inv_def)
    have nv: "checked_add (fst (last (installed_entries ?S es))) 1 = Some v" if "installed_entries ?S es \<noteq> []"
      using installed_entries_last [OF K(3) that] v by simp
    note H = segment_append_holds [OF E(2,3) zk holds nv ap]
    show ?thesis
    proof (cases r)
      case (Inl e)
      note P = persist_log(1) [OF st Some a ap p Inl]
      let ?R = "R\<lparr>rn_session := ?S\<lparr>se_segment := Some sg'\<rparr>, rn_log := (rn_log R)\<lparr>ls_store := s'\<rparr>\<rparr>"
      have "journal_inv E zlog binv es ?R"
        using K S H(2) Inl h a st pr J Some
        by (simp add: journal_inv_def running_inv_def log_inv_def session_known_def session_shape_def session_entries_def installed_entries_def)
      with P show ?thesis by simp
    next
      case (Inr frame)
      note P = persist_log(2) [OF st Some a ap p Inr]
      then obtain a' where a': "rn_session R' = ?S\<lparr>se_segment := Some sg', se_archive := Some a'\<rparr>" by blast
      have healthy: "sg_healthy sg'" using ap Inr
        by (auto simp: segment_append_def split: if_splits sum.splits option.splits prod.splits)
      have "journal_inv E zlog binv (es @ [(v, b)])
          \<lparr>rn_session = acknowledge obj v b (?S\<lparr>se_segment := Some sg', se_archive := Some a'\<rparr>), rn_log = rn_log R'\<rparr>"
        by (rule journal_acknowledge [OF J pr v ref]) (use P S H(1) Inr a Some healthy K(4) in \<open>simp_all add: log_inv_def\<close>)
      moreover have "R'\<lparr>rn_session := acknowledge obj v b (rn_session R')\<rparr> =
          \<lparr>rn_session = acknowledge obj v b (?S\<lparr>se_segment := Some sg', se_archive := Some a'\<rparr>), rn_log = rn_log R'\<rparr>"
        using a' by (cases R') simp
      ultimately show ?thesis using P by simp
    qed
  qed
  then show "\<not> is_ok c \<Longrightarrow> journal_inv E zlog binv es R'"
    "is_ok c \<Longrightarrow> journal_inv E zlog binv (es @ [(v, b)]) (R'\<lparr>rn_session := acknowledge obj v b (rn_session R')\<rparr>)" by simp_all
qed

lemma journal_persist:
  assumes W: "journal_world E zlog binv view" and J: "journal_inv E zlog binv es R" and h: "\<not> se_healthy (rn_session R)"
    and pr: "se_preparing (rn_session R) = None"
    and v: "checked_add (se_version (rn_session R)) 1 = Some v"
    and ref: "stream_snapshot (lg_crypto (le_log E)) (lg_json (le_log E)) (se_stream (rn_session R)) b = Inr ref" "sr_state_version ref = v"
    and p: "persist E obj v b R = (c, R')"
  shows "\<not> is_ok c \<Longrightarrow> journal_inv E zlog binv es R'"
    "is_ok c \<Longrightarrow> journal_inv E zlog binv (es @ [(v, b)]) (R'\<lparr>rn_session := acknowledge obj v b (rn_session R')\<rparr>)"
proof -
  have "(\<not> is_ok c \<longrightarrow> journal_inv E zlog binv es R') \<and>
    (is_ok c \<longrightarrow> journal_inv E zlog binv (es @ [(v, b)]) (R'\<lparr>rn_session := acknowledge obj v b (rn_session R')\<rparr>))"
  proof (cases "se_standard (rn_session R)")
    case True
    note P = journal_persist_standard [OF W J True p]
    from J True have none: "se_segment (rn_session R) = None" "se_archive (rn_session R) = None"
      by (auto simp: journal_inv_def session_shape_def)
    have l: "log_inv (le_log E) binv (rn_log R')" using P(1) by (simp add: journal_inv_def running_inv_def)
    have "journal_inv E zlog binv (es @ [(v, b)])
        \<lparr>rn_session = acknowledge obj v b ((rn_session R)\<lparr>se_segment := None, se_archive := None\<rparr>), rn_log = rn_log R'\<rparr>"
      by (rule journal_acknowledge [OF J pr v ref]) (use l none True in simp_all)
    moreover have "R'\<lparr>rn_session := acknowledge obj v b (rn_session R')\<rparr> =
        \<lparr>rn_session = acknowledge obj v b ((rn_session R)\<lparr>se_segment := None, se_archive := None\<rparr>), rn_log = rn_log R'\<rparr>"
      using P(2) none by (cases R'; cases "rn_session R") simp
    ultimately show ?thesis using P(1) by simp
  next
    case False
    from journal_persist_log [OF W J h pr False v ref p] show ?thesis by simp
  qed
  then show "\<not> is_ok c \<Longrightarrow> journal_inv E zlog binv es R'"
    "is_ok c \<Longrightarrow> journal_inv E zlog binv (es @ [(v, b)]) (R'\<lparr>rn_session := acknowledge obj v b (rn_session R')\<rparr>)" by simp_all
qed


text \<open>The part of a write after its checks.\<close>

definition session_write :: "('s, 'v) log_env \<Rightarrow> string \<Rightarrow> u64 \<Rightarrow> bytes \<Rightarrow> ('s running, unit) op" where
  "session_write E obj v b =
     bind_op (session_rotate E) (\<lambda>_.
     bind_op (session_put_fields (se_healthy_update (\<lambda>_. False))) (\<lambda>_.
     bind_op (install_preparing E) (\<lambda>_.
     bind_op (persist E obj v b) (\<lambda>_.
     bind_op (session_put_fields (acknowledge obj v b)) (\<lambda>_.
     session_schedule E)))))"

lemma session_put_write:
  assumes "session_put E obj b R = (c, R')"
  shows "(\<not> is_ok c \<and> R' = R) \<or> (is_ok c \<and> R' = R \<and> session_cached (rn_session R) obj = Some b) \<or>
    (\<exists>ref. se_healthy (rn_session R) \<and>
      stream_snapshot (lg_crypto (le_log E)) (lg_json (le_log E)) (se_stream (rn_session R)) b = Inr ref \<and>
      checked_add (se_version (rn_session R)) 1 = Some (sr_state_version ref) \<and>
      session_write E obj (sr_state_version ref) b R = (c, R'))"
proof (cases "stream_snapshot (lg_crypto (le_log E)) (lg_json (le_log E)) (se_stream (rn_session R)) b")
  case (Inl e)
  with assms show ?thesis
    by (auto simp: session_put_def bind_op_def session_get_def ensure_op_def lift_op_def split: if_splits)
next
  case (Inr ref)
  have ev: "session_put E obj b R =
     ensure_op (se_healthy (rn_session R)) ''uncertain write requires activation recovery'' (
     ensure_op (sr_object ref = obj) ''snapshot belongs to another stream'' (
     if session_cached (rn_session R) obj = Some b then ret_op ()
     else ensure_op (checked_add (se_version (rn_session R)) 1 = Some (sr_state_version ref)) ''nonconsecutive state version''
       (session_write E obj (sr_state_version ref) b))) R"
    by (simp add: session_put_def session_write_def bind_op_def session_get_def ensure_op_def lift_op_def Inr)
  from assms Inr show ?thesis unfolding ev by (auto simp: ensure_op_def ret_op_def split: if_splits)
qed

lemma session_schedule_ok: "\<exists>R'. session_schedule E R = (Inr (), R')"
  by (simp add: session_schedule_def bind_op_def session_now_def on_log_def log_ask_def session_put_fields_def)

lemma session_write_journal:
  assumes W: "journal_world E zlog binv view" and J: "journal_inv E zlog binv es R" and h: "se_healthy (rn_session R)"
    and ref: "stream_snapshot (lg_crypto (le_log E)) (lg_json (le_log E)) (se_stream (rn_session R)) b = Inr ref" "sr_state_version ref = v"
    and v: "checked_add (se_version (rn_session R)) 1 = Some v"
    and w: "session_write E obj v b R = (c, R')"
  shows "(\<not> is_ok c \<and> journal_inv E zlog binv es R' \<and> session_face (rn_session R') = session_face (rn_session R)) \<or>
    (\<not> is_ok c \<and> journal_inv E zlog binv es R' \<and> session_face (rn_session R') = session_face ((rn_session R)\<lparr>se_healthy := False\<rparr>)) \<or>
    (is_ok c \<and> journal_inv E zlog binv (es @ [(v, b)]) R' \<and>
      session_face (rn_session R') = (se_stream (rn_session R), v, Some (obj, b), True))"
proof -
  obtain d1 R1 where r1: "session_rotate E R = (d1, R1)" by fastforce
  note J1 = journal_rotate [OF W J r1] and f1 = framesD [OF frames_rotate r1]
  let ?R2 = "R1\<lparr>rn_session := (rn_session R1)\<lparr>se_healthy := False\<rparr>\<rparr>"
  have "journal_inv E zlog binv es ?R2"
    by (rule journal_change_session [OF J1])
      (use J1 in \<open>simp_all add: journal_inv_def running_inv_def session_known_def session_shape_def session_core_def\<close>)
  note J2 = this
  obtain d3 R3 where r3: "install_preparing E ?R2 = (d3, R3)" by fastforce
  have J3: "journal_inv E zlog binv es R3" by (rule journal_install_preparing [OF W J2 _ r3]) simp
  have "frames session_face (install_preparing E)"
    by (rule frames_install_preparing) (simp_all add: session_face_def session_install_def)
  from framesD [OF this r3] f1 have f3: "session_face (rn_session R3) = session_face ((rn_session R)\<lparr>se_healthy := False\<rparr>)"
    by (simp add: session_face_def)
  obtain d4 R4 where r4: "persist E obj v b R3 = (d4, R4)" by fastforce
  have f4: "session_face (rn_session R4) = session_face ((rn_session R)\<lparr>se_healthy := False\<rparr>)"
    using framesD [OF frames_persist r4] f3 by simp
  have P: "(is_ok d4 \<longrightarrow> journal_inv E zlog binv (es @ [(v, b)]) (R4\<lparr>rn_session := acknowledge obj v b (rn_session R4)\<rparr>)) \<and>
      (\<not> is_ok d4 \<longrightarrow> journal_inv E zlog binv es R4)" if "is_ok d3"
  proof -
    have p: "se_preparing (rn_session R3) = None" using install_preparing_done r3 that by (auto simp: is_ok_iff)
    have S3: "\<not> se_healthy (rn_session R3)" "checked_add (se_version (rn_session R3)) 1 = Some v"
      "stream_snapshot (lg_crypto (le_log E)) (lg_json (le_log E)) (se_stream (rn_session R3)) b = Inr ref"
      using f3 v ref(1) by (simp_all add: session_face_def)
    from journal_persist [OF W J3 S3(1) p S3(2,3) ref(2) r4] show ?thesis by blast
  qed
  let ?R5 = "R4\<lparr>rn_session := acknowledge obj v b (rn_session R4)\<rparr>"
  obtain R6 where r6: "session_schedule E ?R5 = (Inr (), R6)" using session_schedule_ok by blast
  have f6: "session_face (rn_session R6) = (se_stream (rn_session R), v, Some (obj, b), True)"
    using framesD [OF frames_schedule r6] f4 by (simp add: session_face_def acknowledge_def)
  have J6: "journal_inv E zlog binv (es @ [(v, b)]) R6" if "is_ok d3" "is_ok d4"
    using keepsD(1) [OF journal_schedule _ r6] P that by blast
  consider (rotate) e where "d1 = Inl e" | (install) e where "d1 = Inr ()" "d3 = Inl e"
    | (persist) e where "d1 = Inr ()" "d3 = Inr ()" "d4 = Inl e" | (acked) "d1 = Inr ()" "d3 = Inr ()" "d4 = Inr ()"
    by (metis old.unit.exhaust sum.exhaust)
  then show ?thesis
  proof cases
    case rotate
    with w r1 have "c = Inl e" "R' = R1" by (simp_all add: session_write_def bind_op_def)
    with J1 f1 show ?thesis by simp
  next
    case install
    with w r1 r3 have "c = Inl e" "R' = R3" by (simp_all add: session_write_def bind_op_def session_put_fields_def)
    with J3 f3 show ?thesis by simp
  next
    case persist
    with w r1 r3 r4 have "c = Inl e" "R' = R4" by (simp_all add: session_write_def bind_op_def session_put_fields_def)
    with P persist f4 show ?thesis by simp
  next
    case acked
    with w r1 r3 r4 r6 have "c = Inr ()" "R' = R6" by (simp_all add: session_write_def bind_op_def session_put_fields_def)
    with J6 acked f6 show ?thesis by simp
  qed
qed

lemma session_put_journal:
  assumes W: "journal_world E zlog binv view" and J: "journal_inv E zlog binv es R" and put: "session_put E obj b R = (c, R')"
  shows "(journal_inv E zlog binv es R' \<and> session_face (rn_session R') = session_face (rn_session R)) \<or>
    (\<not> is_ok c \<and> journal_inv E zlog binv es R' \<and> session_face (rn_session R') = session_face ((rn_session R)\<lparr>se_healthy := False\<rparr>)) \<or>
    (\<exists>v. is_ok c \<and> se_healthy (rn_session R) \<and> journal_inv E zlog binv (es @ [(v, b)]) R' \<and>
      checked_add (se_version (rn_session R)) 1 = Some v \<and> session_face (rn_session R') = (se_stream (rn_session R), v, Some (obj, b), True))"
  using session_put_write [OF put]
proof (elim disjE exE conjE)
  fix ref
  assume "se_healthy (rn_session R)"
    "stream_snapshot (lg_crypto (le_log E)) (lg_json (le_log E)) (se_stream (rn_session R)) b = Inr ref"
    "checked_add (se_version (rn_session R)) 1 = Some (sr_state_version ref)"
    "session_write E obj (sr_state_version ref) b R = (c, R')"
  from session_write_journal [OF W J this(1,2) refl this(3,4)] this(1,3) show ?thesis by blast
qed (use J in auto)


section \<open>Runs of a session\<close>

text \<open>The background tasks of a session step its archive workers and write checkpoints. They, and
  whatever else happens in the storage, leave the logs of the segment in use alone.\<close>

definition background :: "('s, 'v) log_env \<Rightarrow> 's zone_view \<Rightarrow> ('s \<Rightarrow> bool) \<Rightarrow> 's running \<Rightarrow> 's running \<Rightarrow> bool" where
  "background E zlog binv R R' \<longleftrightarrow> (\<exists>a r pg l.
     R' = R\<lparr>rn_session := (rn_session R)\<lparr>se_archive := a, se_retired := r, se_checkpoint := pg\<rparr>, rn_log := l\<rparr> \<and>
     (a = None \<longleftrightarrow> se_archive (rn_session R) = None) \<and>
     (pg = se_checkpoint (rn_session R) \<or>
       (\<exists>s. checkpoint_run (le_log E) (ls_live (rn_log R)) (se_checkpoint (rn_session R)) (ls_store (rn_log R)) = (pg, s))) \<and>
     log_inv (le_log E) binv l \<and>
     (\<forall>sg \<in> set_option (se_segment (rn_session R)). \<forall>rep \<in> snd ` set (sg_writers sg).
       zlog rep (ls_store l) = zlog rep (ls_store (rn_log R))))"

text \<open>A run from the opening of the session, with the entries that its callers were told are
  stored: a write that returned without an error and advanced the version.\<close>

inductive session_run :: "('s, 'v) log_env \<Rightarrow> 's zone_view \<Rightarrow> ('s \<Rightarrow> bool) \<Rightarrow> StateStream \<Rightarrow> entries \<Rightarrow> 's running \<Rightarrow> bool"
  for E zlog binv strm where
  opened: "log_inv (le_log E) binv l \<Longrightarrow> session_open E strm l = (Inr S, l') \<Longrightarrow>
     session_run E zlog binv strm [] \<lparr>rn_session = S, rn_log = l'\<rparr>"
| put: "session_run E zlog binv strm es R \<Longrightarrow> session_put E obj b R = (c, R') \<Longrightarrow>
     session_run E zlog binv strm
       (if is_ok c \<and> se_version (rn_session R') \<noteq> se_version (rn_session R) then es @ [(se_version (rn_session R'), b)] else es) R'"
| tick: "session_run E zlog binv strm es R \<Longrightarrow> rotation_tick E R = (c, R') \<Longrightarrow> session_run E zlog binv strm es R'"
| restored: "session_run E zlog binv strm es R \<Longrightarrow> rs_checkpoint_version restored \<le> se_version (rn_session R) \<Longrightarrow>
     session_restored E obj b restored R = (c, R') \<Longrightarrow> session_run E zlog binv strm es R'"
| tasks: "session_run E zlog binv strm es R \<Longrightarrow> background E zlog binv R R' \<Longrightarrow> session_run E zlog binv strm es R'"

lemma progress_logged_default [simp]: "pg_logged progress_default = []"
  by (simp add: progress_default_def)

lemma session_open_journal:
  assumes l: "log_inv (le_log E) binv l" and o: "session_open E strm l = (Inr S, l')"
  shows "journal_inv E zlog binv [] \<lparr>rn_session = S, rn_log = l'\<rparr>" "se_stream S = strm" "se_healthy S" "se_version S = ss_base_version strm"
  using assms
  by (auto simp: session_open_def op_simps log_ask_def journal_inv_def running_inv_def log_inv_def session_known_def
      preparing_known_def session_shape_def session_entries_def entries_ok_def progress_ok_default)

lemma rotation_tick_journal:
  assumes W: "journal_world E zlog binv view" and J: "journal_inv E zlog binv es R" and t: "rotation_tick E R = (c, R')"
  shows "journal_inv E zlog binv es R'" "session_face (rn_session R') = session_face (rn_session R)"
proof -
  obtain d R1 where d: "session_rotate E R = (d, R1)" by fastforce
  note J1 = journal_rotate [OF W J d] and f1 = framesD [OF frames_rotate d]
  have "R' = R1 \<or> session_schedule E R1 = (c, R')"
    using t d by (auto simp: rotation_tick_def bind_op_def session_get_def ret_op_def split: sum.splits if_splits)
  then show "journal_inv E zlog binv es R'" "session_face (rn_session R') = session_face (rn_session R)"
    using J1 f1 keepsD(1) [OF journal_schedule J1] framesD [OF frames_schedule, of E R1 c R'] by auto
qed

lemma session_restored_journal:
  assumes J: "journal_inv E zlog binv es R" and v: "rs_checkpoint_version restored \<le> se_version (rn_session R)"
    and r: "session_restored E obj b restored R = (c, R')"
  shows "journal_inv E zlog binv es R'" "se_healthy (rn_session R') = se_healthy (rn_session R)"
    "se_version (rn_session R') = se_version (rn_session R)" "se_stream (rn_session R') = se_stream (rn_session R)"
proof -
  let ?S = "(rn_session R)\<lparr>se_latest := Some (obj, b),
    se_checkpoint := progress_restored restored (se_version (rn_session R)) (se_checkpoint (rn_session R))\<rparr>"
  have "R' = R \<or> se_latest (rn_session R) = None \<and> session_schedule E (R\<lparr>rn_session := ?S\<rparr>) = (c, R')"
    using r by (auto simp: session_restored_def bind_op_def session_get_def lift_op_def ret_op_def session_put_fields_def
        split: sum.splits if_splits)
  then have "journal_inv E zlog binv es R' \<and> se_healthy (rn_session R') = se_healthy (rn_session R) \<and>
    se_version (rn_session R') = se_version (rn_session R) \<and> se_stream (rn_session R') = se_stream (rn_session R)"
  proof
    assume s: "se_latest (rn_session R) = None \<and> session_schedule E (R\<lparr>rn_session := ?S\<rparr>) = (c, R')"
    from J have K: "session_known (le_log E) (rn_session R)" "session_shape (rn_session R)"
      by (simp_all add: journal_inv_def running_inv_def)
    have "progress_ok (se_version (rn_session R)) (se_checkpoint (rn_session R))" "pg_logged (se_checkpoint (rn_session R)) = []"
      using K(2) s by (simp_all add: session_shape_def)
    note P = progress_ok_restored [OF this v]
    have "journal_inv E zlog binv es (R\<lparr>rn_session := ?S\<rparr>)"
      by (rule journal_change_session [OF J]) (use K P in \<open>simp_all add: session_known_def session_shape_def session_core_def\<close>)
    from keepsD(1) [OF journal_schedule this] framesD [OF frames_schedule] s show ?thesis by (fastforce simp: session_face_def)
  qed (use J in simp)
  then show "journal_inv E zlog binv es R'" "se_healthy (rn_session R') = se_healthy (rn_session R)"
    "se_version (rn_session R') = se_version (rn_session R)" "se_stream (rn_session R') = se_stream (rn_session R)" by simp_all
qed

lemma background_journal:
  assumes J: "journal_inv E zlog binv es R" and b: "background E zlog binv R R'"
  shows "journal_inv E zlog binv es R'" "session_face (rn_session R') = session_face (rn_session R)"
proof -
  from b obtain a r pg l where
    R': "R' = R\<lparr>rn_session := (rn_session R)\<lparr>se_archive := a, se_retired := r, se_checkpoint := pg\<rparr>, rn_log := l\<rparr>"
    and a: "a = None \<longleftrightarrow> se_archive (rn_session R) = None"
    and pg: "pg = se_checkpoint (rn_session R) \<or>
       (\<exists>s. checkpoint_run (le_log E) (ls_live (rn_log R)) (se_checkpoint (rn_session R)) (ls_store (rn_log R)) = (pg, s))"
    and l: "log_inv (le_log E) binv l"
    and same: "\<forall>sg \<in> set_option (se_segment (rn_session R)). \<forall>rep \<in> snd ` set (sg_writers sg).
       zlog rep (ls_store l) = zlog rep (ls_store (rn_log R))"
    unfolding background_def by (elim exE conjE) (rule that)
  from J have K: "session_known (le_log E) (rn_session R)" "session_shape (rn_session R)"
    by (simp_all add: journal_inv_def running_inv_def)
  have "pg_logged pg = pg_logged (se_checkpoint (rn_session R))"
    using pg by (auto simp: checkpoint_run_def split: option.splits checkpoint_task.splits prod.splits)
  moreover have "progress_ok (se_version (rn_session R)) pg" using pg K(2) progress_ok_run by (auto simp: session_shape_def)
  ultimately have "session_shape ((rn_session R)\<lparr>se_archive := a, se_retired := r, se_checkpoint := pg\<rparr>)"
    using K(2) a by (simp add: session_shape_def)
  then have J1: "journal_inv E zlog binv es (R\<lparr>rn_session := (rn_session R)\<lparr>se_archive := a, se_retired := r, se_checkpoint := pg\<rparr>\<rparr>)"
    by (intro journal_change_session [OF J]) (use K in \<open>simp_all add: session_known_def session_core_def\<close>)
  from journal_change_log [OF J1 l] same show "journal_inv E zlog binv es R'" unfolding R' by simp
  show "session_face (rn_session R') = session_face (rn_session R)" by (simp add: R' session_face_def)
qed


section \<open>The journal a session implements\<close>

text \<open>The specification: an append-only list of commits with consecutive versions. While the journal is
  open a commit may be appended; it may break, and a broken journal never changes again.\<close>

record journal =
  jn_entries :: entries
  jn_open :: bool

definition journal_empty :: journal where
  "journal_empty = \<lparr>jn_entries = [], jn_open = True\<rparr>"

inductive journal_step :: "(u64 \<Rightarrow> bytes \<Rightarrow> bool) \<Rightarrow> u64 \<Rightarrow> journal \<Rightarrow> journal \<Rightarrow> bool" for commit base where
  append: "jn_open j \<Longrightarrow> unat v = unat base + length (jn_entries j) + 1 \<Longrightarrow> commit v b \<Longrightarrow>
     journal_step commit base j (j\<lparr>jn_entries := jn_entries j @ [(v, b)]\<rparr>)"
| break: "jn_open j \<Longrightarrow> journal_step commit base j (j\<lparr>jn_open := False\<rparr>)"

definition journal_of :: "entries \<Rightarrow> 's running \<Rightarrow> journal" where
  "journal_of es R = \<lparr>jn_entries = es, jn_open = se_healthy (rn_session R)\<rparr>"

definition stream_commit :: "('s, 'v) log_env \<Rightarrow> StateStream \<Rightarrow> u64 \<Rightarrow> bytes \<Rightarrow> bool" where
  "stream_commit E strm v b \<longleftrightarrow>
     (\<exists>ref. stream_snapshot (lg_crypto (le_log E)) (lg_json (le_log E)) strm b = Inr ref \<and> sr_state_version ref = v)"

lemma entries_ok_commit:
  assumes "entries_ok E strm (es @ [(v, b)])"
  shows "stream_commit E strm v b" "unat v = unat (ss_base_version strm) + length es + 1"
proof -
  from assms have "\<forall>i < length (es @ [(v, b)]). unat (fst ((es @ [(v, b)]) ! i)) = unat (ss_base_version strm) + i + 1 \<and>
     stream_commit E strm (fst ((es @ [(v, b)]) ! i)) (snd ((es @ [(v, b)]) ! i))"
    by (simp add: entries_ok_def stream_commit_def)
  from spec [OF this, of "length es"] show "stream_commit E strm v b" "unat v = unat (ss_base_version strm) + length es + 1" by simp_all
qed

text \<open>Every step of a run is a step of the journal or leaves it alone.\<close>

lemma put_simulates:
  assumes W: "journal_world E zlog binv view" and J: "journal_inv E zlog binv es R" and strm: "se_stream (rn_session R) = strm"
    and put: "session_put E obj b R = (c, R')"
    and es': "es' = (if is_ok c \<and> se_version (rn_session R') \<noteq> se_version (rn_session R) then es @ [(se_version (rn_session R'), b)] else es)"
  shows "journal_inv E zlog binv es' R' \<and> se_stream (rn_session R') = strm \<and>
    (journal_of es' R' = journal_of es R \<or> journal_step (stream_commit E strm) (ss_base_version strm) (journal_of es R) (journal_of es' R'))"
  using session_put_journal [OF W J put]
proof (elim disjE exE conjE)
  assume i: "journal_inv E zlog binv es R'" and f: "session_face (rn_session R') = session_face (rn_session R)"
  then have "es' = es" by (simp add: es' session_face_def)
  with i f strm show ?thesis by (simp add: journal_of_def session_face_def)
next
  assume i: "\<not> is_ok c" "journal_inv E zlog binv es R'" and f: "session_face (rn_session R') = session_face ((rn_session R)\<lparr>se_healthy := False\<rparr>)"
  then have "es' = es" by (simp add: es')
  moreover have "journal_of es R' = journal_of es R \<or> jn_open (journal_of es R) \<and> journal_of es R' = (journal_of es R)\<lparr>jn_open := False\<rparr>"
    using f by (auto simp: journal_of_def session_face_def)
  ultimately show ?thesis using i f strm journal_step.break by (auto simp: session_face_def)
next
  fix v
  assume i: "is_ok c" "se_healthy (rn_session R)" "journal_inv E zlog binv (es @ [(v, b)]) R'"
    "checked_add (se_version (rn_session R)) 1 = Some v" and f: "session_face (rn_session R') = (se_stream (rn_session R), v, Some (obj, b), True)"
  then have e: "es' = es @ [(v, b)]" by (auto simp: es' session_face_def checked_add_Some_iff)
  have "entries_ok E strm (es @ [(v, b)])" using i(3) f strm by (simp add: journal_inv_def session_entries_def session_face_def)
  note C = entries_ok_commit [OF this]
  have "journal_step (stream_commit E strm) (ss_base_version strm) (journal_of es R) ((journal_of es R)\<lparr>jn_entries := jn_entries (journal_of es R) @ [(v, b)]\<rparr>)"
    by (rule journal_step.append) (use i(2) C in \<open>simp_all add: journal_of_def\<close>)
  moreover have "journal_of es' R' = (journal_of es R)\<lparr>jn_entries := jn_entries (journal_of es R) @ [(v, b)]\<rparr>"
    using f i(2) by (simp add: e journal_of_def session_face_def)
  ultimately show ?thesis using i(3) f strm by (simp add: e session_face_def)
qed

lemma session_run_journal:
  assumes W: "journal_world E zlog binv view" and run: "session_run E zlog binv strm es R"
  shows "journal_inv E zlog binv es R \<and> se_stream (rn_session R) = strm \<and>
    (journal_step (stream_commit E strm) (ss_base_version strm))\<^sup>*\<^sup>* journal_empty (journal_of es R)"
  using run
proof (induction rule: session_run.induct)
  case (opened l S l')
  note O = session_open_journal [OF opened]
  then have "journal_of [] \<lparr>rn_session = S, rn_log = l'\<rparr> = journal_empty" by (simp add: journal_of_def journal_empty_def)
  with O show ?case by simp
next
  case (put es R obj b c R')
  from put_simulates [OF W _ _ put.hyps(2) refl] put.IH show ?case
    by (metis (no_types, lifting) rtranclp.rtrancl_into_rtrancl)
next
  case (tick es R c R')
  with rotation_tick_journal [OF W _ tick.hyps(2)] show ?case by (auto simp: journal_of_def session_face_def)
next
  case (restored es R rest obj b c R')
  with session_restored_journal [OF _ restored.hyps(2,3)] show ?case by (auto simp: journal_of_def)
next
  case (tasks es R R')
  with background_journal [OF _ tasks.hyps(2)] show ?case by (auto simp: journal_of_def session_face_def)
qed


section \<open>Correctness of sessions\<close>

lemma read_copies_logs:
  assumes Z: "log_zones L zlog"
  shows "read_copies L fence reps s = (copies, s') \<Longrightarrow> \<forall>b \<in> set copies. \<exists>rep \<in> set reps. zlog rep s = Some b"
proof (induction reps arbitrary: s copies)
  case (Cons r reps)
  show ?case
  proof (cases "zone_of L r")
    case (Inl e)
    with Cons show ?thesis by (auto simp: bind_op_def lift_op_def)
  next
    case (Inr z)
    then have "z \<in> set (lg_zones L)" by (auto simp: zone_of_def context_opt_Inr_iff find_Some_iff)
    then have z: "zone_logs zlog z" using Z by (simp add: log_zones_def)
    obtain c t where c: "zn_read z r fence s = (c, t)" by fastforce
    have same: "zlog r' t = zlog r' s" for r' using zone_logsD(5) [OF z c] .
    show ?thesis
    proof (cases c)
      case (Inl e)
      with Cons.prems Inr c have "read_copies L fence reps t = (copies, s')" by (simp add: bind_op_def lift_op_def)
      from Cons.IH [OF this] same show ?thesis by auto
    next
      case (Inr b)
      note rb = zone_logsD(6) [OF z c [unfolded Inr]]
      from Cons.prems \<open>zone_of L r = Inr z\<close> c Inr obtain bs where bs: "read_copies L fence reps t = (bs, s')" "copies = b # bs"
        by (auto simp: bind_op_def lift_op_def split: prod.splits)
      from Cons.IH [OF bs(1)] rb same show ?thesis by (auto simp: bs(2))
    qed
  qed
qed simp


text \<open>C2. Acknowledged commits survive a crash: at any point of a run, in the middle of a failed
  write too, a reader that reaches at least one replica of the segment in use reads every commit
  acknowledged since the segment was installed, in order, followed by at most one commit that was
  being written.\<close>

theorem acknowledged_commits_survive_crash:
  assumes "journal_world E zlog binv view" and "session_run E zlog binv strm es R"
    and "se_segment (rn_session R) = Some sg"
    and "read_copies (le_log E) fence (mf_replicas (sg_manifest sg)) (ls_store (rn_log R)) = (copy # copies, s')"
  shows "\<exists>more. length more \<le> 1 \<and>
    read_replicas (le_log E) (sg_manifest sg) fence (ls_store (rn_log R)) =
      (Inr (entry_records (installed_entries (rn_session R) es) @ more), s')"
proof -
  note W = journal_worldD [OF assms(1)]
  let ?C = "lg_crypto (le_log E)" and ?s = "ls_store (rn_log R)" and ?es = "installed_entries (rn_session R) es"
  from session_run_journal [OF assms(1,2)] assms(3) have "segment_holds ?C zlog sg ?s ?es" by (simp add: journal_inv_def)
  then obtain more bs where reps: "mf_replicas (sg_manifest sg) = map snd (sg_writers sg)" and m: "length more \<le> 1"
    and e: "encoded ?C (entry_records ?es @ more) bs" "consecutive None (entry_records ?es @ more)"
    and logs: "\<forall>rep \<in> snd ` set (sg_writers sg). \<exists>log. zlog rep ?s = Some log \<and> log_copy bs (length ?es) log"
    unfolding segment_holds_def by blast
  have "\<forall>b \<in> set (copy # copies). log_copy bs (length ?es) b"
  proof
    fix b
    assume "b \<in> set (copy # copies)"
    with read_copies_logs [OF W(2) assms(4)] obtain rep where "rep \<in> set (mf_replicas (sg_manifest sg))" "zlog rep ?s = Some b" by blast
    with logs reps show "log_copy bs (length ?es) b" by force
  qed
  from read_replicas_copies [OF W(3) e _ this assms(4)] obtain n where n: "length ?es \<le> n"
    "read_replicas (le_log E) (sg_manifest sg) fence ?s = (Inr (take n (entry_records ?es @ more)), s')" by auto
  have "take n (entry_records ?es @ more) = entry_records ?es @ take (n - length ?es) more" using n(1) by simp
  moreover have "length (take (n - length ?es) more) \<le> 1" using m by simp
  ultimately show ?thesis using n(2) by metis
qed

text \<open>C20. Sessions are well formed: at every point of a run a healthy session that has opened its log
  either writes snapshots or has a healthy segment together with its archive worker, so that a
  write never finds one of them missing; and the bookkeeping of checkpoints is sorted, lies after
  the last checkpoint and not ahead of the session.\<close>

theorem running_session_well_formed:
  assumes "journal_world E zlog binv view" and "session_run E zlog binv strm es R"
  shows "session_shape (rn_session R)"
  using session_run_journal [OF assms] by (simp add: journal_inv_def)


section \<open>A concrete session\<close>

text \<open>An archive and the logs of one zone in memory.\<close>

type_synonym disk = "(string \<times> BucketObject) list \<times> (Replica \<times> bytes) list"

definition disk_log :: "disk zone_view" where
  "disk_log r s = map_of (snd s) r"

definition disk_bucket :: "disk bucket" where
  "disk_bucket =
     \<lparr>bk_get = (\<lambda>k s. bk_get mem_bucket k (fst s)), bk_range = (\<lambda>k start len s. bk_range mem_bucket k start len (fst s)),
      bk_cas = (\<lambda>k e b s. case bk_cas mem_bucket k e b (fst s) of (r, m) \<Rightarrow> (r, (m, snd s))),
      bk_list = (\<lambda>p s. bk_list mem_bucket p (fst s))\<rparr>"

definition disk_zone :: "disk log_zone" where
  "disk_zone =
     \<lparr>zn_bucket = ''z1'',
      zn_open = (\<lambda>obj s. let r = \<lparr>rl_bucket = ''z1'', rl_object = obj, rl_generation = 1\<rparr> in
        if map_of (snd s) r = None then (Inr r, (fst s, (r, []) # snd s)) else (Inl ''exists'', s)),
      zn_append = (\<lambda>r b s. case map_of (snd s) r of
        None \<Rightarrow> (Inl ''missing'', s)
      | Some log \<Rightarrow> (Inr (of_nat (length log + length b)), (fst s, AList.update r (log @ b) (snd s)))),
      zn_read = (\<lambda>r fence s. (context_opt ''missing'' (map_of (snd s) r), s)),
      zn_read_range = (\<lambda>_ _ _ s. (Inl ''down'', s)), zn_delete = (\<lambda>_ s. (Inl ''down'', s))\<rparr>"

definition disk_log_storage :: "(disk, string) log_storage" where
  "disk_log_storage =
     \<lparr>lg_crypto = hex_crypto, lg_json = sample_json, lg_archive = disk_bucket, lg_snapshots = gcs_snapshots hex_crypto disk_bucket,
      lg_zones = [disk_zone], lg_placement = All, lg_batch_bytes = 1000,
      lg_batch_interval = 10, lg_compact = (\<lambda>_. Inl ''none''), lg_checkpoint_json = no_checkpoint_json,
      lg_manifest_encode = (\<lambda>_. Inr []), lg_manifest_decode = (\<lambda>_. Inl ''none''), lg_closed_encode = (\<lambda>_. Inr []),
      lg_closed_decode = (\<lambda>_. Inl ''none''), lg_index_encode = (\<lambda>_. Inr []), lg_index_decode = (\<lambda>_. Inl ''none''),
      lg_parse_uuid = (\<lambda>_. Inr ())\<rparr>"

definition disk_env :: "(disk, string) log_env" where
  "disk_env =
     \<lparr>le_log = disk_log_storage, le_now = (\<lambda>_. 0), le_uuid = (\<lambda>_. ''id''), le_order = (\<lambda>_ zs. zs), le_ready = (\<lambda>_. True),
      le_patience = 10\<rparr>"

definition disk_start :: "disk log_state" where
  "disk_start = \<lparr>ls_store = ([], []), ls_prepared = None, ls_live = [], ls_tick = 0\<rparr>"

lemma disk_bucket_laws: "bucket_laws disk_bucket (\<lambda>_. True) (\<lambda>s. map_of (fst s))"
proof (unfold_locales, goal_cases)
  case (5 s k e b r s')
  then obtain m where m: "bk_cas mem_bucket k e b (fst s) = (r, m)" "s' = (m, snd s)" by (auto simp: disk_bucket_def split: prod.splits)
  from mem.cas_view [OF _ m(1)] show ?case by (simp add: m(2))
qed (simp_all add: disk_bucket_def mem.get_view mem.range_view mem.list_view)

lemma disk_zone_logs: "zone_logs disk_log disk_zone"
  by (auto simp: zone_logs_def opens_log_def appends_log_def reads_log_def deletes_log_def keeps_logs_def disk_log_def disk_zone_def
      Let_def update_conv' context_opt_Inr_iff split: if_splits option.splits)

lemma disk_journal_world: "journal_world disk_env disk_log (\<lambda>_. True) (\<lambda>s. map_of (fst s))"
proof -
  have "zone_adds (\<lambda>_. True) (\<lambda>s. map_of (fst s)) disk_zone"
    by (auto simp: zone_adds_def keeps_def disk_zone_def Let_def split: if_splits option.splits)
  then have "env_ok disk_env (\<lambda>_. True) (\<lambda>s. map_of (fst s))"
    by (simp add: env_ok_def log_world_def disk_env_def disk_log_storage_def disk_bucket_laws)
  moreover have "log_zones disk_log_storage disk_log"
    by (auto simp: log_zones_def disk_log_storage_def disk_zone_logs disk_log_def disk_bucket_def split: prod.splits)
  ultimately show ?thesis by (simp add: journal_world_def disk_env_def disk_log_storage_def crypto_ok_hex)
qed


lemma disk_env_simps [simp]:
  "le_log disk_env = disk_log_storage" "lg_crypto disk_log_storage = hex_crypto" "lg_json disk_log_storage = sample_json"
  "lg_zones disk_log_storage = [disk_zone]" "lg_placement disk_log_storage = All" "lg_manifest_encode disk_log_storage M = Inr []"
  "le_uuid disk_env n = ''id''" "le_now disk_env n = 0" "zn_bucket disk_zone = ''z1''" "lg_archive disk_log_storage = disk_bucket"
  by (simp_all add: disk_env_def disk_log_storage_def disk_zone_def)

lemma sample_stream_object: "stream_object sample_stream 1 = sample_object"
  by (simp add: stream_object_def sample_stream_def sample_object_def)

lemma disk_segment_open:
  assumes "ls_store l = ([], [])" "ls_prepared l = None"
  shows "\<exists>sg l'. segment_open disk_env sample_stream 1 None l = (Inr (Some sg), l') \<and>
    (\<exists>rep. sg_writers sg = [(disk_zone, rep)] \<and> rl_bucket rep = ''z1'' \<and> disk_log rep (ls_store l') = Some []) \<and>
    sg_offset sg = 0 \<and> sg_healthy sg"
proof -
  obtain name where name: "object_name hex_crypto (ROOT @ ''snapshots/'' @ actor_path hex_crypto sample_actor @ ''/'') = Inr name"
    using sample_path_name [of "[]"] by auto
  have pre: "logs_prefix hex_crypto sample_actor = Inr (replace_first ''snapshots-'' ''logs-'' name)"
    using sample_actor_valid name by (simp add: logs_prefix_def snapshots_def)
  obtain base where base: "object_name hex_crypto (ss_prefix sample_stream) = Inr base"
    using sample_path_name [of "show_u64_032x 1 @ ''/''"] by (auto simp: sample_stream_def stream_prefix_def)
  let ?rep = "\<lparr>rl_bucket = ''z1'', rl_object = replace_first ''snapshots-'' ''logs-'' name @ ''id.segment'', rl_generation = 1\<rparr>"
  let ?M = "\<lparr>mf_format = 1, mf_id = ''id'', mf_stream = sample_stream, mf_first_version = 1, mf_replicas = [?rep]\<rparr>"
  obtain key where key: "manifest_key hex_crypto ?M = Inr key" using base by (simp add: manifest_key_def)
  have create: "archive_create disk_log_storage key [] msg ([], d) = (Inr (), ([(key, \<lparr>generation = 1, obj_bytes = []\<rparr>)], d))" for msg d
    by (simp add: archive_create_def bind_op_def replace_def disk_bucket_def mem_bucket_def replace_after_def ensure_op_def ret_op_def)
  have open_zone: "open_all [disk_zone] (replace_first ''snapshots-'' ''logs-'' name @ ''id.segment'') ([], []) =
      (Inr (Some [(disk_zone, ?rep)]), ([], [(?rep, [])]))"
    by (simp add: open_all_def disk_zone_def Let_def)
  have zone: "zone_of disk_log_storage ?rep = Inr disk_zone" by (simp add: zone_of_def)
  show ?thesis using assms
    by (simp add: segment_open_def Let_def bind_op_def lift_op_def sample_stream_object sample_object_actor pre take_prepared_def
        prepared_new_def log_ask_def ret_op_def prepared_take_def on_log_store_def open_zone zone key create disk_log_def)
qed

lemma disk_persist:
  assumes "sg_writers sg = [(disk_zone, rep)]" "disk_log rep (ls_store l) = Some []" "sg_offset sg = 0" "sg_healthy sg"
    and "se_segment S = Some sg" "se_archive S = Some a" "\<not> se_standard S"
  shows "\<exists>sg' a' l' log. persist disk_env sample_object 1 sample_bytes \<lparr>rn_session = S, rn_log = l\<rparr> =
      (Inr (), \<lparr>rn_session = S\<lparr>se_segment := Some sg', se_archive := Some a'\<rparr>, rn_log = l'\<rparr>) \<and>
    sg_writers sg' = sg_writers sg \<and> disk_log rep (ls_store l') = Some log"
proof -
  obtain bs where bs: "encoded hex_crypto [log_record] bs" "length (concat bs) < 2 ^ 64" using log_record_encoded by blast
  then obtain b where b: "record_encode hex_crypto log_record = Inr b" "length b < 2 ^ 64" by auto
  have add: "checked_add 0 (of_nat (length b)) = Some (of_nat (length b) :: u64)" using b(2) by (simp add: checked_add_Some_iff)
  have flush: "zn_append disk_zone rep b (ls_store l) =
      (Inr (of_nat (length b)), (fst (ls_store l), AList.update rep b (snd (ls_store l))))"
    using assms(2) by (simp add: disk_zone_def disk_log_def)
  have ap: "segment_append hex_crypto 1 sample_bytes sg (ls_store l) =
      (Inr b, sg\<lparr>sg_offset := of_nat (length b), sg_healthy := True\<rparr>, (fst (ls_store l), AList.update rep b (snd (ls_store l))))"
    using b(1) by (simp add: segment_append_def assms(1,3,4) log_record_def add flush)
  let ?sg = "sg\<lparr>sg_offset := of_nat (length b), sg_healthy := True\<rparr>"
  let ?a = "a\<lparr>ac_pending := archiver_append (archiver_batch_bytes disk_log_storage) 0 b 1 (ac_pending a)\<rparr>"
  obtain l' where "persist disk_env sample_object 1 sample_bytes \<lparr>rn_session = S, rn_log = l\<rparr> =
      (Inr (), \<lparr>rn_session = S\<lparr>se_segment := Some ?sg, se_archive := Some ?a\<rparr>, rn_log = l'\<rparr>)" "disk_log rep (ls_store l') = Some b"
    by (simp add: persist_def bind_op_def session_get_def append_segment_def assms(5-7) ap remember_frame_def hand_over_def
        lift_op_def session_now_def on_log_def log_ask_def session_put_fields_def disk_log_def update_conv')
  then show ?thesis by (intro exI [of _ ?sg] exI [of _ ?a] exI [of _ l'] exI [of _ b]) simp
qed

lemma disk_run:
  "\<exists>R sg rep log. session_run disk_env disk_log (\<lambda>_. True) sample_stream [(1, sample_bytes)] R \<and> se_segment (rn_session R) = Some sg \<and>
     mf_replicas (sg_manifest sg) = [rep] \<and> rl_bucket rep = ''z1'' \<and> disk_log rep (ls_store (rn_log R)) = Some log \<and>
     installed_entries (rn_session R) [(1, sample_bytes)] = [(1, sample_bytes)]"
proof -
  let ?run = "session_run disk_env disk_log (\<lambda>_. True) sample_stream"
  let ?S = "\<lparr>se_stream = sample_stream, se_segment = None, se_preparing = Some \<lparr>pr_first = 1, pr_placed = None\<rparr>,
             se_next = None, se_archive = None, se_retired = None, se_retirement_error = None, se_latest = None,
             se_version = 0, se_installed_at = 0, se_standard = False,
             se_healthy = True, se_rotated = 0, se_checkpoint = progress_default\<rparr>"
  let ?l = "disk_start\<lparr>ls_tick := Suc 0\<rparr>" and ?l2 = "disk_start\<lparr>ls_tick := Suc (Suc 0)\<rparr>"
  let ?R = "\<lparr>rn_session = ?S, rn_log = ?l\<rparr>"
  have base: "ss_base_version sample_stream = 0" by (simp add: sample_stream_def)
  have "log_inv disk_log_storage (\<lambda>_. True) disk_start" by (simp add: log_inv_def disk_start_def)
  moreover have "session_open disk_env sample_stream disk_start = (Inr ?S, ?l)"
    by (simp add: session_open_def bind_op_def lift_op_def log_ask_def ret_op_def base checked_add_def disk_start_def)
  ultimately have run0: "?run [] ?R" using session_run.opened [of disk_env "\<lambda>_. True" disk_start sample_stream ?S ?l disk_log] by simp
  have rotate: "session_rotate disk_env ?R = (Inr (), \<lparr>rn_session = ?S, rn_log = ?l2\<rparr>)"
    by (simp add: session_rotate_def collect_retired_def bind_op_def session_get_def ret_op_def session_now_def on_log_def log_ask_def disk_start_def)
  have "ls_store ?l2 = ([], [])" "ls_prepared ?l2 = None" by (simp_all add: disk_start_def)
  from disk_segment_open [OF this] obtain sg l3 rep where o: "segment_open disk_env sample_stream 1 None ?l2 = (Inr (Some sg), l3)"
    "sg_writers sg = [(disk_zone, rep)]" "rl_bucket rep = ''z1''" "disk_log rep (ls_store l3) = Some []" "sg_offset sg = 0" "sg_healthy sg"
    by blast
  let ?S2 = "?S\<lparr>se_healthy := False, se_preparing := None\<rparr>"
  let ?S3 = "session_install (Some sg) ?S2"
  have install: "install_preparing disk_env \<lparr>rn_session = ?S\<lparr>se_healthy := False\<rparr>, rn_log = ?l2\<rparr> = (Inr (), \<lparr>rn_session = ?S3, rn_log = l3\<rparr>)"
    using o(1) by (simp add: install_preparing_def bind_op_def session_get_def session_put_fields_def await_preparing_def on_log_def)
  have S3: "se_segment ?S3 = Some sg" "se_archive ?S3 = Some (archiver_new (sg_manifest sg) 0)" "\<not> se_standard ?S3"
    by (simp_all add: session_install_def)
  from disk_persist [OF o(2,4-6) S3] obtain sg' a' l4 log where
    persist: "persist disk_env sample_object 1 sample_bytes \<lparr>rn_session = ?S3, rn_log = l3\<rparr> =
      (Inr (), \<lparr>rn_session = ?S3\<lparr>se_segment := Some sg', se_archive := Some a'\<rparr>, rn_log = l4\<rparr>)"
    and l4: "sg_writers sg' = sg_writers sg" "disk_log rep (ls_store l4) = Some log" by blast
  let ?S4 = "acknowledge sample_object 1 sample_bytes (?S3\<lparr>se_segment := Some sg', se_archive := Some a'\<rparr>)"
  obtain R where sched: "session_schedule disk_env \<lparr>rn_session = ?S4, rn_log = l4\<rparr> = (Inr (), R)" using session_schedule_ok by blast
  then have R: "se_segment (rn_session R) = Some sg'" "ls_store (rn_log R) = ls_store l4" "se_version (rn_session R) = 1"
    "installed_entries (rn_session R) [(1, sample_bytes)] = [(1, sample_bytes)]"
    by (auto simp: session_schedule_def bind_op_def session_now_def on_log_def log_ask_def session_put_fields_def acknowledge_def
        installed_entries_def session_install_def base)
  have "session_write disk_env sample_object 1 sample_bytes ?R = (Inr (), R)"
    unfolding session_write_def using rotate install persist sched by (simp add: bind_op_def session_put_fields_def)
  moreover have ref: "sr_object sample_ref = sample_object" "sr_state_version sample_ref = 1"
    by (simp_all add: sample_ref_def snapshot_ref_new_def sample_snapshot_def)
  ultimately have "session_put disk_env sample_object sample_bytes ?R = (Inr (), R)"
    by (simp add: session_put_def session_write_def bind_op_def session_get_def ensure_op_def lift_op_def sample_stream_snapshot
        session_cached_def checked_add_def)
  from session_run.put [OF run0 this] R(3) have "?run [(1, sample_bytes)] R" by simp
  moreover from session_run_journal [OF disk_journal_world this] R(1) have "mf_replicas (sg_manifest sg') = map snd (sg_writers sg')"
    by (simp add: journal_inv_def segment_holds_def)
  ultimately show ?thesis using R(1,2,4) o(2,3) l4 by auto
qed



theorem acknowledged_commits_survive_crash_witness:
  "\<exists>(R :: disk running) sg more s. se_segment (rn_session R) = Some sg \<and>
     read_replicas disk_log_storage (sg_manifest sg) True (ls_store (rn_log R)) = (Inr (log_record # more), s) \<and> length more \<le> 1"
proof -
  obtain R sg rep log where run: "session_run disk_env disk_log (\<lambda>_. True) sample_stream [(1, sample_bytes)] R"
    and sg: "se_segment (rn_session R) = Some sg" "mf_replicas (sg_manifest sg) = [rep]" "rl_bucket rep = ''z1''"
      "disk_log rep (ls_store (rn_log R)) = Some log"
    and es: "installed_entries (rn_session R) [(1, sample_bytes)] = [(1, sample_bytes)]" using disk_run by blast
  have "read_copies (le_log disk_env) True (mf_replicas (sg_manifest sg)) (ls_store (rn_log R)) = (log # [], ls_store (rn_log R))"
    using sg by (simp add: zone_of_def bind_op_def lift_op_def disk_log_def disk_zone_def)
  from acknowledged_commits_survive_crash [OF disk_journal_world run sg(1) this] obtain more where "length more \<le> 1"
    "read_replicas disk_log_storage (sg_manifest sg) True (ls_store (rn_log R)) = (Inr (log_record # more), ls_store (rn_log R))"
    by (auto simp: es entry_records_def log_record_def)
  with sg(1) show ?thesis by blast
qed

theorem running_session_well_formed_witness: "\<exists>R :: disk running. session_shape (rn_session R) \<and> se_segment (rn_session R) \<noteq> None"
proof -
  obtain R sg where "session_run disk_env disk_log (\<lambda>_. True) sample_stream [(1, sample_bytes)] R" "se_segment (rn_session R) = Some sg"
    using disk_run by blast
  with running_session_well_formed [OF disk_journal_world this(1)] show ?thesis by auto
qed

end
