(* ===== verification/Actor_Protocol.thy ===== *)
theory Actor_Protocol
  imports State_Snapshots
begin

text \<open>
  What hosts, actors and the executor of the actor code exchange: invocations and their checks
  (\<open>actor/protocol.rs\<close>), socket events and effects with their validation
  (\<open>actor/executor_connection.rs\<close>, \<open>actor/socket.rs\<close>), and the calls that actor code
  makes to its database (\<open>actor/database.rs\<close>). JSON values are of the type variable
  \<open>'v\<close>; what the code asks of one, and base64, are the parameters of \<open>json_value\<close>.
  A \<open>RawValue\<close> is its text, and a double is its 64 bits.
\<close>

section \<open>Invocations\<close>

record 'v ActorInvocation =
  iv_request_id :: string
  iv_actor :: ActorKey
  iv_method :: string
  iv_args :: "'v list"

definition invocation_validate :: "'v ActorInvocation \<Rightarrow> unit result" where
  "invocation_validate i =
     ensure (iv_request_id i \<noteq> []) ''request ID must not be empty'' (
     ensure (length (iv_request_id i) \<le> 255) ''request ID must be at most 255 bytes'' (
     rbind (actor_validate (iv_actor i)) (\<lambda>_.
     rbind (validate_component ''actor method'' (iv_method i) MAX_METHOD_BYTES) (\<lambda>_. Inr ()))))"

record 'v ActorCall =
  ac_request_id :: string
  ac_actor_name :: string
  ac_actor_id :: string
  ac_method :: string
  ac_args :: "'v list"

definition in_project :: "'v ActorCall \<Rightarrow> string \<Rightarrow> 'v ActorInvocation" where
  "in_project c project =
     \<lparr>iv_request_id = ac_request_id c,
      iv_actor = \<lparr>project_id = project, actor_name = ac_actor_name c, actor_id = ac_actor_id c\<rparr>,
      iv_method = ac_method c, iv_args = ac_args c\<rparr>"

record ActorInvocationFailure =
  fl_code :: string
  fl_message :: string

definition outcome_unknown_after_execution :: ActorInvocationFailure where
  "outcome_unknown_after_execution =
     \<lparr>fl_code = ''outcome_unknown'',
      fl_message = ''actor execution completed, but its durable publication outcome could not be confirmed''\<rparr>"

section \<open>Sockets\<close>

record 'v ActorSocketConnection =
  sk_id :: string
  sk_metadata :: 'v
  sk_tags :: "string list"

datatype ActorSocketMessage = Text string | Binary string

datatype 'v ActorSocketEvent =
    Connect "'v ActorSocketConnection"
  | Message string ActorSocketMessage
  | Disconnect "'v ActorSocketConnection" "16 word" string bool

record 'v ActorSocketInvocation =
  si_request_id :: string
  si_actor :: ActorKey
  si_event :: "'v ActorSocketEvent"
  si_connections :: "'v ActorSocketConnection list"

datatype ActorSocketTagMatch = MatchAll | MatchAny

datatype 'v ActorSocketEffect =
    SetAutoResponse "string option" "string option"
  | StateSnapshotEffect string 'v "u64 option"
  | StateUpdate 'v "string list" "string list" "u64 option"
  | Send string ActorSocketMessage
  | Broadcast ActorSocketMessage "string list" "string list" ActorSocketTagMatch
  | Close string "16 word" string
  | Reject string "16 word" string
  | SetMetadata string 'v
  | SetTags string "string list"

definition socket_event_name :: "'v ActorSocketEvent \<Rightarrow> string" where
  "socket_event_name e =
     (case e of Connect _ \<Rightarrow> ''onConnect'' | Message _ _ \<Rightarrow> ''onMessage'' | Disconnect _ _ _ _ \<Rightarrow> ''onDisconnect'')"

section \<open>Validation of socket effects\<close>

record 'v json_value =
  jv_to_vec :: "'v \<Rightarrow> bytes result"
  jv_is_object :: "'v \<Rightarrow> bool"
  jv_get :: "'v \<Rightarrow> string \<Rightarrow> 'v option"
  jv_null :: 'v
  jv_base64 :: "string \<Rightarrow> bytes result"

definition MAX_SOCKET_METADATA_BYTES :: nat where "MAX_SOCKET_METADATA_BYTES = 16 * 1024"
definition MAX_SOCKET_CONNECTION_ID_BYTES :: nat where "MAX_SOCKET_CONNECTION_ID_BYTES = 128"
definition MAX_SOCKET_TAGS :: nat where "MAX_SOCKET_TAGS = 10"
definition MAX_SOCKET_TAG_CHARACTERS :: nat where "MAX_SOCKET_TAG_CHARACTERS = 256"
definition MAX_SOCKET_CLOSE_REASON_BYTES :: nat where "MAX_SOCKET_CLOSE_REASON_BYTES = 123"

text \<open>\<open>chars().count()\<close> over the UTF-8 bytes: every byte but the continuation bytes.\<close>

definition char_count :: "string \<Rightarrow> nat" where
  "char_count s = length (filter (\<lambda>c. (of_char c :: nat) < 128 \<or> 192 \<le> (of_char c :: nat)) s)"

text \<open>A loop that stops at the first error.\<close>

fun check_all :: "('a \<Rightarrow> unit result) \<Rightarrow> 'a list \<Rightarrow> unit result" where
  "check_all f [] = Inr ()"
| "check_all f (x # xs) = rbind (f x) (\<lambda>_. check_all f xs)"

definition validate_socket_metadata :: "'v json_value \<Rightarrow> 'v \<Rightarrow> unit result" where
  "validate_socket_metadata V metadata =
     rbind (jv_to_vec V metadata) (\<lambda>b.
     ensure (length b \<le> MAX_SOCKET_METADATA_BYTES) ''socket metadata exceeds 16384 bytes'' (Inr ()))"

definition validate_public_state :: "'v json_value \<Rightarrow> 'v \<Rightarrow> unit result" where
  "validate_public_state V state =
     ensure (jv_is_object V state) ''public state must be a JSON object'' (Inr ())"

definition validate_socket_message :: "'v json_value \<Rightarrow> ActorSocketMessage \<Rightarrow> unit result" where
  "validate_socket_message V message =
     (case message of
        Binary data \<Rightarrow>
          rbind (with_context ''socket binary message is not valid base64'' (jv_base64 V data)) (\<lambda>_. Inr ())
      | Text _ \<Rightarrow> Inr ())"

definition validate_connection_id :: "string \<Rightarrow> unit result" where
  "validate_connection_id c =
     ensure (c \<noteq> []) ''socket connection ID is empty'' (
     ensure (length c \<le> MAX_SOCKET_CONNECTION_ID_BYTES) ''socket connection ID exceeds 128 bytes'' (
     Inr ()))"

definition validate_socket_tags :: "string list \<Rightarrow> unit result" where
  "validate_socket_tags tags =
     ensure (length tags \<le> MAX_SOCKET_TAGS) ''socket tags exceed 10 entries'' (
     check_all (\<lambda>tag.
       ensure (tag \<noteq> []) ''socket tag is empty'' (
       ensure (char_count tag \<le> MAX_SOCKET_TAG_CHARACTERS) ''socket tag exceeds 256 characters'' (
       Inr ()))) tags)"

definition validate_close :: "16 word \<Rightarrow> string \<Rightarrow> unit result" where
  "validate_close code reason =
     ensure (code = 1000 \<or> 3000 \<le> code \<and> code \<le> 4999)
       ''socket close code must be 1000 or between 3000 and 4999'' (
     ensure (length reason \<le> MAX_SOCKET_CLOSE_REASON_BYTES) ''socket close reason exceeds 123 bytes'' (
     Inr ()))"

definition validate_socket_effect :: "'v json_value \<Rightarrow> 'v ActorSocketEffect \<Rightarrow> unit result" where
  "validate_socket_effect V effect =
     (case effect of
        SetAutoResponse request response \<Rightarrow>
          ensure ((request \<noteq> None) = (response \<noteq> None))
            ''automatic response requires both request and response'' (
          ensure (list_all (\<lambda>v. char_count v \<le> 2048)
              ((case request of None \<Rightarrow> [] | Some v \<Rightarrow> [v]) @ (case response of None \<Rightarrow> [] | Some v \<Rightarrow> [v])))
            ''automatic response exceeds 2048 characters'' (
          Inr ()))
      | StateSnapshotEffect connection state _ \<Rightarrow>
          rbind (validate_connection_id connection) (\<lambda>_. validate_public_state V state)
      | StateUpdate changes removed except _ \<Rightarrow>
          rbind (validate_public_state V changes) (\<lambda>_.
          ensure (list_all (\<lambda>field. jv_get V changes field = None) removed)
            ''state field is both changed and removed'' (
          check_all validate_connection_id except))
      | Send connection message \<Rightarrow>
          rbind (validate_connection_id connection) (\<lambda>_. validate_socket_message V message)
      | Broadcast message except tags _ \<Rightarrow>
          rbind (check_all validate_connection_id except) (\<lambda>_.
          rbind (validate_socket_tags tags) (\<lambda>_.
          validate_socket_message V message))
      | Close connection code reason \<Rightarrow>
          rbind (validate_connection_id connection) (\<lambda>_. validate_close code reason)
      | Reject connection code reason \<Rightarrow>
          rbind (validate_connection_id connection) (\<lambda>_. validate_close code reason)
      | SetMetadata connection metadata \<Rightarrow>
          rbind (validate_connection_id connection) (\<lambda>_. validate_socket_metadata V metadata)
      | SetTags connection tags \<Rightarrow>
          rbind (validate_connection_id connection) (\<lambda>_. validate_socket_tags tags))"

definition validate_socket_effects :: "'v json_value \<Rightarrow> 'v ActorSocketEffect list \<Rightarrow> unit result" where
  "validate_socket_effects V effects = check_all (validate_socket_effect V) effects"

section \<open>Outcomes\<close>

record 'v ActorInterleavedOutcome =
  io_sequence :: u64
  io_result :: 'v
  io_effects :: "'v ActorSocketEffect list"

datatype 'v ActorMethodOutcome =
    Interleaved "'v ActorInterleavedOutcome"
  | MethodCompleted 'v "'v ActorSocketEffect list"
  | MethodFailed ActorInvocationFailure

datatype 'v ActorSocketOutcome =
    SocketInterleaved "'v ActorInterleavedOutcome"
  | Handled "'v ActorSocketEffect list"
  | SocketFailed ActorInvocationFailure

datatype 'v ActorExecutionResult =
    Completed 'v "'v ActorSocketEffect list"
  | Failed ActorInvocationFailure
  | HostUnavailable

section \<open>Database calls\<close>

datatype SqlValue =
    SqlNull
  | SqlInteger "64 word"
  | SqlReal "64 word"
  | SqlText string
  | SqlBlob bytes

datatype DatabaseCall =
    Exec string "SqlValue list" bool
  | Fields "string list option"
  | InitializeFields "(string \<times> string) list"
  | PersistField string string bool
  | DeleteField string bool
  | ReplaceFields "(string \<times> string) list"
  | Alarm
  | SetAlarm int bool
  | DeleteAlarm bool
  | Commit
  | Rollback

datatype DatabaseResult =
    Rows "string list" "SqlValue list list"
  | FieldValues "(string \<times> string) list"
  | AlarmAt "int option"
  | Done

fun immediate :: "DatabaseCall \<Rightarrow> bool" where
  "immediate (Exec _ _ i) = i"
| "immediate (PersistField _ _ i) = i"
| "immediate (DeleteField _ i) = i"
| "immediate (SetAlarm _ i) = i"
| "immediate (DeleteAlarm i) = i"
| "immediate _ = False"

section \<open>Facts about validated effects\<close>

lemma check_all_Inr_iff [result_simps]: "check_all f xs = Inr u \<longleftrightarrow> (\<forall>x \<in> set xs. f x = Inr ())"
  by (induction xs) (auto simp: result_simps)

text \<open>The connections an effect names.\<close>

fun effect_connections :: "'v ActorSocketEffect \<Rightarrow> string list" where
  "effect_connections (SetAutoResponse _ _) = []"
| "effect_connections (StateSnapshotEffect c _ _) = [c]"
| "effect_connections (StateUpdate _ _ except _) = except"
| "effect_connections (Send c _) = [c]"
| "effect_connections (Broadcast _ except _ _) = except"
| "effect_connections (Close c _ _) = [c]"
| "effect_connections (Reject c _ _) = [c]"
| "effect_connections (SetMetadata c _) = [c]"
| "effect_connections (SetTags c _) = [c]"

lemma validate_connection_id_Inr [result_simps]:
  "validate_connection_id c = Inr u \<longleftrightarrow> c \<noteq> [] \<and> length c \<le> 128"
  by (auto simp: validate_connection_id_def MAX_SOCKET_CONNECTION_ID_BYTES_def result_simps)

lemma validated_connections:
  assumes "validate_socket_effects V effects = Inr ()" and "e \<in> set effects" and "c \<in> set (effect_connections e)"
  shows "c \<noteq> [] \<and> length c \<le> 128"
proof -
  from assms(1,2) have "validate_socket_effect V e = Inr ()"
    by (simp add: validate_socket_effects_def result_simps)
  with assms(3) show ?thesis by (cases e) (auto simp: validate_socket_effect_def result_simps)
qed

end
