(* ===== verification/Sqlite_Capture.thy ===== *)
theory Sqlite_Capture
  imports Ownership Payload
begin

text \<open>
  Capturing the transactions of the SQLite database of an actor
  (\<open>litestream/storage.rs\<close>). The replica directory that the replication library fills is a
  listing of file names with what reading them gives, per compaction level, or the failure to list
  it (a directory that does not exist lists nothing); the contents arrive as the pieces that \<open>payload::copy\<close> spools. A capture collects the files of the
  transactions that have not been published yet and checks that they leave no gap.
\<close>

section \<open>The files of a replica directory\<close>

type_synonym replica_dir = "byte \<Rightarrow> (string \<times> bytes list result) list result"

definition ltx_range :: "string \<Rightarrow> (u64 \<times> u64) option" where
  "ltx_range name =
     Option.bind (strip_suffix ''.ltx'' name) (\<lambda>stem.
     Option.bind (split_once (CHR ''-'') stem) (\<lambda>(lo, hi).
     if length lo \<noteq> 16 \<or> length hi \<noteq> 16 then None
     else
       Option.bind (from_str_radix 16 lo) (\<lambda>lo.
       Option.bind (from_str_radix 16 hi) (\<lambda>hi.
       if lo > 0 \<and> lo \<le> hi then Some (lo, hi) else None))))"

definition read_ltx :: "byte \<Rightarrow> u64 \<Rightarrow> u64 \<Rightarrow> bytes list result \<Rightarrow> LtxFile result" where
  "read_ltx level lo hi contents =
     rbind contents (\<lambda>pieces.
     rbind (payload_copy pieces) (\<lambda>data.
     Inr \<lparr>ltx_level = level, ltx_first = lo, ltx_last = hi, ltx_data = data\<rparr>))"

definition wanted_ltx ::
    "u64 \<Rightarrow> u64 \<Rightarrow> string \<times> bytes list result \<Rightarrow> (u64 \<times> u64 \<times> bytes list result) option" where
  "wanted_ltx after through entry =
     (case ltx_range (fst entry) of
        None \<Rightarrow> None
      | Some (lo, hi) \<Rightarrow>
          if hi > through \<or> hi \<le> after then None else Some (lo, hi, snd entry))"

fun read_ltx_all :: "byte \<Rightarrow> (u64 \<times> u64 \<times> bytes list result) list \<Rightarrow> LtxFile list result" where
  "read_ltx_all level [] = Inr []"
| "read_ltx_all level ((lo, hi, contents) # rest) =
     rbind (read_ltx level lo hi contents) (\<lambda>f.
     rbind (read_ltx_all level rest) (\<lambda>fs. Inr (f # fs)))"

definition read_ltx_files :: "replica_dir \<Rightarrow> u64 \<Rightarrow> byte \<Rightarrow> u64 \<Rightarrow> LtxFile list result" where
  "read_ltx_files dir after level through =
     rbind (dir level) (\<lambda>entries.
     let found = sort_key (\<lambda>(lo, hi, _). (lo, hi)) (List.map_filter (wanted_ltx after through) entries);
         found = (if level = 9 \<and> length found > 1 then drop (length found - 1) found else found)
     in read_ltx_all level found)"

section \<open>Collecting the files of a commit\<close>

text \<open>\<open>Iterator::max_by_key\<close>: the last of the largest elements.\<close>

fun max_by_last :: "LtxFile list \<Rightarrow> LtxFile option" where
  "max_by_last [] = None"
| "max_by_last (f # fs) =
     (case max_by_last fs of
        None \<Rightarrow> Some f
      | Some g \<Rightarrow> Some (if ltx_last f > ltx_last g then f else g))"

fun collect_deltas :: "u64 \<Rightarrow> LtxFile list \<Rightarrow> (u64 \<times> LtxFile list) result" where
  "collect_deltas nxt [] = Inr (nxt, [])"
| "collect_deltas nxt (f # fs) =
     (if ltx_last f < nxt then collect_deltas nxt fs
      else
        ensure (ltx_first f = nxt) ''Litestream capture has a transaction gap'' (
        rbind (context_opt ''Litestream transaction overflow'' (checked_add (ltx_last f) 1)) (\<lambda>nxt.
        rbind (collect_deltas nxt fs) (\<lambda>(nxt, gs). Inr (nxt, f # gs)))))"

definition collect_ltx_files :: "replica_dir \<Rightarrow> u64 \<Rightarrow> u64 \<Rightarrow> LtxFile list result" where
  "collect_ltx_files dir after through =
     rbind (read_ltx_files dir after 9 through) (\<lambda>snapshots.
     let checkpoint = max_by_last (filter (\<lambda>f. ltx_last f > after) snapshots);
         nxt = (case checkpoint of None \<Rightarrow> after + 1 | Some f \<Rightarrow> ltx_last f + 1) in
     rbind (read_ltx_files dir after 0 through) (\<lambda>deltas.
     rbind (collect_deltas nxt deltas) (\<lambda>(nxt, fs).
     rbind (context_opt ''Litestream transaction overflow'' (checked_add through 1)) (\<lambda>stop.
     ensure (nxt = stop) ''Litestream has not replicated the actor commit'' (
     Inr ((case checkpoint of None \<Rightarrow> [] | Some f \<Rightarrow> [f]) @ fs))))))"

section \<open>What is collected\<close>

text \<open>The bounds of a file name that \<open>range\<close> accepts.\<close>

lemma ltx_range_ordered: "ltx_range name = Some (lo, hi) \<Longrightarrow> 0 < lo \<and> lo \<le> hi"
  by (auto simp: ltx_range_def Option.bind_eq_Some_conv split: if_splits prod.splits)

lemma read_ltx_Inr:
  "read_ltx level lo hi contents = Inr f \<Longrightarrow>
     ltx_level f = level \<and> ltx_first f = lo \<and> ltx_last f = hi"
  by (auto simp: read_ltx_def result_simps)

definition delta_ok :: "u64 \<Rightarrow> u64 \<Rightarrow> byte \<Rightarrow> LtxFile \<Rightarrow> bool" where
  "delta_ok after through level f \<longleftrightarrow> ltx_level f = level \<and> 0 < ltx_first f \<and> ltx_first f \<le> ltx_last f \<and>
     after < ltx_last f \<and> ltx_last f \<le> through"

lemma read_ltx_all_ok:
  assumes "\<forall>(lo, hi, _) \<in> set found. 0 < lo \<and> lo \<le> hi \<and> after < hi \<and> hi \<le> through"
    and "read_ltx_all level found = Inr fs"
  shows "\<forall>f \<in> set fs. delta_ok after through level f"
  using assms
proof (induction found arbitrary: fs)
  case Nil
  then show ?case by simp
next
  case (Cons x found)
  obtain lo hi contents where x: "x = (lo, hi, contents)" by (cases x)
  from Cons.prems(2) obtain f gs where f: "read_ltx level lo hi contents = Inr f"
    and gs: "read_ltx_all level found = Inr gs" and fs: "fs = f # gs"
    by (auto simp: x result_simps)
  from Cons.IH [OF _ gs] Cons.prems(1) have "\<forall>f \<in> set gs. delta_ok after through level f" by simp
  moreover from Cons.prems(1) read_ltx_Inr [OF f] have "delta_ok after through level f"
    by (auto simp: x delta_ok_def)
  ultimately show ?case by (simp add: fs)
qed

lemma set_if_drop: "set (if c then drop n xs else xs) \<subseteq> set xs"
  by (simp add: set_drop_subset)

lemma read_ltx_files_ok:
  assumes "read_ltx_files dir after level through = Inr fs"
  shows "\<forall>f \<in> set fs. delta_ok after through level f"
proof -
  from assms obtain entries where e: "dir level = Inr entries" by (auto simp: read_ltx_files_def rbind_Inr_iff)
  let ?found = "sort_key (\<lambda>(lo, hi, _). (lo, hi)) (List.map_filter (wanted_ltx after through) entries)"
  have "\<forall>(lo, hi, _) \<in> set ?found. 0 < lo \<and> lo \<le> hi \<and> after < hi \<and> hi \<le> through"
    using ltx_range_ordered
    by (auto simp: List.map_filter_def wanted_ltx_def split: option.splits if_splits prod.splits)
  moreover have "set (if level = 9 \<and> length ?found > 1 then drop (length ?found - 1) ?found else ?found) \<subseteq> set ?found"
    by (rule set_if_drop)
  ultimately have ok: "\<forall>(lo, hi, _) \<in> set (if level = 9 \<and> length ?found > 1 then drop (length ?found - 1) ?found
      else ?found). 0 < lo \<and> lo \<le> hi \<and> after < hi \<and> hi \<le> through"
    by blast
  from read_ltx_all_ok [OF ok] assms show ?thesis unfolding read_ltx_files_def Let_def e rbind_simps by blast
qed

lemma max_by_last_in: "max_by_last fs = Some f \<Longrightarrow> f \<in> set fs"
  by (induction fs arbitrary: f) (auto split: option.splits if_splits)

lemma upt_append_split: "a \<le> b \<Longrightarrow> b \<le> c \<Longrightarrow> [a ..< c] = [a ..< b] @ [b ..< c]"
  by (metis le_add_diff_inverse upt_add_eq_append)

lemma collect_deltas_cover:
  assumes "\<forall>f \<in> set fs. delta_ok after through 0 f" and "collect_deltas nxt fs = Inr (m, gs)"
  shows "set gs \<subseteq> set fs \<and> unat nxt \<le> unat m \<and> concat (map ltx_txids gs) = [unat nxt ..< unat m]"
  using assms
proof (induction fs arbitrary: nxt gs)
  case Nil
  then show ?case by simp
next
  case (Cons f fs)
  show ?case
  proof (cases "ltx_last f < nxt")
    case True
    with Cons.prems have "collect_deltas nxt fs = Inr (m, gs)" by simp
    with Cons.IH [OF _ this] Cons.prems(1) show ?thesis by auto
  next
    case False
    with Cons.prems obtain k hs where n: "ltx_first f = nxt" and k: "unat k = unat (ltx_last f) + 1"
      and rest: "collect_deltas k fs = Inr (m, hs)" and gs: "gs = f # hs"
      by (auto simp: result_simps checked_add_Some_iff)
    from Cons.IH [OF _ rest] Cons.prems(1) k have sub: "set hs \<subseteq> set fs"
      and le: "unat (ltx_last f) + 1 \<le> unat m"
      and cov: "concat (map ltx_txids hs) = [unat (ltx_last f) + 1 ..< unat m]" by auto
    from Cons.prems(1) n have "unat nxt \<le> unat (ltx_last f)"
      by (simp add: delta_ok_def word_le_nat_alt)
    with le have "unat nxt \<le> unat m"
      and "[unat nxt ..< unat m] = [unat nxt ..< unat (ltx_last f) + 1] @ [unat (ltx_last f) + 1 ..< unat m]"
      using upt_append_split [of "unat nxt" "unat (ltx_last f) + 1" "unat m"] by simp_all
    moreover have "ltx_txids f = [unat nxt ..< unat (ltx_last f) + 1]" by (simp add: ltx_txids_def n)
    ultimately show ?thesis using sub cov by (auto simp: gs simp del: upt_Suc)
  qed
qed

lemma unat_plus_1: "(x :: u64) < y \<Longrightarrow> unat (x + 1) = unat x + 1"
  using word_less_nat_alt [of x y] u64_bound [of y] unat_add_lem [of x 1] by simp

text \<open>A capture either continues after what was published or starts with a full copy, and goes
  up to the commit without a gap.\<close>

definition covers_commit :: "u64 \<Rightarrow> u64 \<Rightarrow> LtxFile list \<Rightarrow> bool" where
  "covers_commit after through fs \<longleftrightarrow>
     concat (map ltx_txids fs) = [unat after + 1 ..< unat through + 1] \<or>
     (\<exists>f gs. fs = f # gs \<and> ltx_level f = 9 \<and> after < ltx_last f \<and>
        concat (map ltx_txids fs) = [unat (ltx_first f) ..< unat through + 1])"

text \<open>C25. What a capture collects is complete: when it succeeds, its files list every transaction
  after the last published one up to the commit exactly once and in order, or they start with a
  full copy that reaches past the published state and list every transaction from there.\<close>

theorem captured_files_cover_commit:
  assumes "collect_ltx_files dir after through = Inr fs" and "after \<le> through"
  shows "covers_commit after through fs"
proof -
  from assms(1) obtain snapshots deltas m gs where s: "read_ltx_files dir after 9 through = Inr snapshots"
    and d: "read_ltx_files dir after 0 through = Inr deltas"
    and c: "collect_deltas (case max_by_last (filter (\<lambda>f. ltx_last f > after) snapshots) of
        None \<Rightarrow> after + 1 | Some f \<Rightarrow> ltx_last f + 1) deltas = Inr (m, gs)"
    and m: "unat m = unat through + 1"
    and fs: "fs = (case max_by_last (filter (\<lambda>f. ltx_last f > after) snapshots) of None \<Rightarrow> [] | Some f \<Rightarrow> [f]) @ gs"
    by (auto simp: collect_ltx_files_def result_simps Let_def checked_add_Some_iff)
  from u64_bound [of m] m have b: "unat through + 1 < 2 ^ 64" by simp
  note D = collect_deltas_cover [OF read_ltx_files_ok [OF d] c]
  show ?thesis
  proof (cases "max_by_last (filter (\<lambda>f. ltx_last f > after) snapshots)")
    case None
    have "unat (after + 1) = unat after + 1"
      using assms(2) b unat_add_lem [of after 1] by (simp add: word_le_nat_alt)
    with D None fs m show ?thesis by (simp add: covers_commit_def)
  next
    case (Some f)
    from max_by_last_in [OF Some] read_ltx_files_ok [OF s] have f: "delta_ok after through 9 f" by auto
    then have l: "unat (ltx_first f) \<le> unat (ltx_last f)" "unat (ltx_last f) \<le> unat through"
      by (simp_all add: delta_ok_def word_le_nat_alt)
    have p: "unat (ltx_last f + 1) = unat (ltx_last f) + 1"
      using l b unat_add_lem [of "ltx_last f" 1] by simp
    from D Some p m have "concat (map ltx_txids gs) = [unat (ltx_last f) + 1 ..< unat through + 1]" by simp
    moreover have "[unat (ltx_first f) ..< unat through + 1] =
      [unat (ltx_first f) ..< unat (ltx_last f) + 1] @ [unat (ltx_last f) + 1 ..< unat through + 1]"
      using l by (intro upt_append_split) simp_all
    moreover have "ltx_txids f = [unat (ltx_first f) ..< unat (ltx_last f) + 1]" by (simp add: ltx_txids_def)
    ultimately have "concat (map ltx_txids fs) = [unat (ltx_first f) ..< unat through + 1]"
      by (simp add: fs Some del: upt_Suc)
    with f show ?thesis unfolding covers_commit_def by (auto simp: fs Some delta_ok_def)
  qed
qed

section \<open>A concrete capture\<close>

definition sample_replica :: replica_dir where
  "sample_replica level =
     (if level = 9 then Inr [(''0000000000000001-0000000000000002.ltx'', Inr [str_bytes ''LTX1 pages''])]
      else if level = 0 then Inr
        [(''tmp'', Inl ''busy''), (''0000000000000004-0000000000000004.ltx'', Inr [str_bytes ''LTX1 d'']),
         (''0000000000000003-0000000000000003.ltx'', Inr [str_bytes ''LTX1'', str_bytes '' c''])]
      else Inr [])"

lemma sample_names:
  "ltx_range ''0000000000000001-0000000000000002.ltx'' = Some (1, 2)"
  "ltx_range ''0000000000000003-0000000000000003.ltx'' = Some (3, 3)"
  "ltx_range ''0000000000000004-0000000000000004.ltx'' = Some (4, 4)"
  "ltx_range ''tmp'' = None"
  by (simp_all add: ltx_range_def strip_suffix_def strip_prefix_def from_str_radix_def char_digit_def)

lemma small_copy:
  assumes "length (concat cs) < 100"
  shows "payload_copy cs = Inr (concat cs)"
proof -
  have "\<forall>c \<in> set cs. length c \<le> length (concat cs)" by (simp add: length_concat member_le_sum_list)
  with assms have "\<forall>c \<in> set cs. length c < 2 ^ 63" by fastforce
  from payload_copy_collects [OF this] assms show ?thesis by simp
qed

lemma sample_capture: "collect_ltx_files sample_replica 0 2 = Inr [sample_ltx]"
  by (simp add: collect_ltx_files_def read_ltx_files_def sample_replica_def List.map_filter_def wanted_ltx_def sample_names
      read_ltx_def small_copy str_bytes_def Let_def checked_add_def sample_ltx_def)

lemma later_capture:
  "collect_ltx_files sample_replica 1 4 =
     Inr [sample_ltx, \<lparr>ltx_level = 0, ltx_first = 3, ltx_last = 3, ltx_data = str_bytes ''LTX1 c''\<rparr>,
       \<lparr>ltx_level = 0, ltx_first = 4, ltx_last = 4, ltx_data = str_bytes ''LTX1 d''\<rparr>]"
  by (simp add: collect_ltx_files_def read_ltx_files_def sample_replica_def List.map_filter_def wanted_ltx_def sample_names
      read_ltx_def small_copy str_bytes_def Let_def checked_add_def sample_ltx_def)
    (simp add: word_le_nat_alt)

theorem captured_files_cover_commit_witness:
  "covers_commit 1 4 [sample_ltx, \<lparr>ltx_level = 0, ltx_first = 3, ltx_last = 3, ltx_data = str_bytes ''LTX1 c''\<rparr>,
     \<lparr>ltx_level = 0, ltx_first = 4, ltx_last = 4, ltx_data = str_bytes ''LTX1 d''\<rparr>]"
  by (rule captured_files_cover_commit [OF later_capture]) simp

end
