(* ===== verification/Actor_Session.thy ===== *)
theory Actor_Session
  imports Actor_Protocol Sqlite_Capture Op_Logic
begin

text \<open>
  The database session of an actor on its host (\<open>host/actor_database/session.rs\<close>, with the
  capture of \<open>litestream/storage.rs\<close>): activating it, running the database calls of the
  actor code, publishing what an invocation has committed as the next state version, and
  answering a retried invocation from the last completion. The traits the session is given
  (\<open>ActorStorage\<close>, \<open>SnapshotWriter\<close>, \<open>Replicator\<close>) and the SQLite library are the
  operations of \<open>actor_env\<close> on the state \<open>'w\<close> of everything outside the session.
  Telemetry, and the removal of the temporary directory of a database that is dropped, are left
  out.
\<close>

section \<open>The environment of a session\<close>

record ActorActivation =
  aa_owner_epoch :: u64
  aa_state_version :: u64
  aa_state :: "bytes option"

record CommitOrigin =
  co_connection_id :: "string option"
  co_interleaved :: bool

definition default_origin :: CommitOrigin where
  "default_origin = \<lparr>co_connection_id = None, co_interleaved = False\<rparr>"

definition origin_socket :: "'v ActorSocketEvent \<Rightarrow> CommitOrigin" where
  "origin_socket e =
     \<lparr>co_connection_id =
        Some (case e of Connect c \<Rightarrow> sk_id c | Disconnect c _ _ _ \<Rightarrow> sk_id c | Message c _ \<Rightarrow> c),
      co_interleaved = False\<rparr>"

record Executed =
  ex_result :: "DatabaseResult result"
  ex_committed :: bool

record ('w, 'v) actor_env =
  ae_crypto :: crypto
  ae_json :: "'v snapshot_json"
  ae_ensure_authority :: "('w, unit) op"
  ae_acquire_actor :: "('w, ActorActivation) op"
  ae_load_actor_state :: "u64 \<Rightarrow> ('w, u64 \<times> bytes) op"
  ae_read_sqlite :: "bytes \<Rightarrow> ('w, SqliteSnapshot) op"
  ae_get_alarm :: "('w, int option) op"
  ae_update_alarm :: "int option \<Rightarrow> ('w, unit) op"
  ae_prepare_state_write :: "u64 \<Rightarrow> u64 \<Rightarrow> ('w, WritePlan) op"
  ae_full_snapshots :: "u64 option"
  ae_resume_parent :: "'v StateSnapshot \<Rightarrow> bytes \<Rightarrow> SnapshotRef option result"
  ae_write_snapshot :: "WritePlan \<Rightarrow> bytes \<Rightarrow> ('w, unit) op"
  ae_tempdir :: "('w, string) op"
  ae_create_tables :: "string \<Rightarrow> ('w, unit) op"
  ae_restore :: "LtxFile list \<Rightarrow> string \<Rightarrow> u64 \<Rightarrow> ('w, unit) op"
  ae_register :: "string \<Rightarrow> u64 option \<Rightarrow> u64 option \<Rightarrow> ('w, u64) op"
  ae_sync :: "string \<Rightarrow> ('w, u64) op"
  ae_replica :: "string \<Rightarrow> 'w \<Rightarrow> replica_dir"
  ae_prune :: "string \<Rightarrow> u64 \<Rightarrow> ('w, unit) op"
  ae_db_open :: "string \<Rightarrow> ('w, unit) op"
  ae_db_call :: "string \<Rightarrow> DatabaseCall \<Rightarrow> ('w, Executed) op"
  ae_unix_millis :: "('w, u64) op"

section \<open>The resident database\<close>

record SqliteCapture =
  cap_path :: string
  cap_txid :: u64
  cap_published :: u64

record 'v PendingStateCommit =
  pc_snapshot :: "'v StateSnapshot"
  pc_txid :: u64
  pc_ticket :: WritePlan
  pc_durable :: bool

record 'v ResidentDatabase =
  rd_sqlite :: SqliteCapture
  rd_sqlite_head :: "SnapshotRef option"
  rd_owner_epoch :: u64
  rd_state_version :: u64
  rd_published :: "u64 option"
  rd_synced :: u64
  rd_last_request_id :: "string option"
  rd_last_result :: "'v option"
  rd_next_write :: "WritePlan option"
  rd_pending :: "'v PendingStateCommit option"

definition capture_open :: "('w, 'v) actor_env \<Rightarrow> string \<Rightarrow> u64 option \<Rightarrow> u64 option \<Rightarrow> ('w, SqliteCapture) op" where
  "capture_open E path full resume_at =
     bind_op (ae_create_tables E path) (\<lambda>_.
     bind_op (ae_register E path full resume_at) (\<lambda>position.
     ret_op \<lparr>cap_path = path, cap_txid = position, cap_published = position\<rparr>))"

definition capture_new :: "('w, 'v) actor_env \<Rightarrow> u64 option \<Rightarrow> ('w, SqliteCapture) op" where
  "capture_new E full = bind_op (ae_tempdir E) (\<lambda>path. capture_open E path full None)"

definition capture_restore ::
    "('w, 'v) actor_env \<Rightarrow> LtxFile list \<Rightarrow> u64 \<Rightarrow> u64 option \<Rightarrow> bool \<Rightarrow> ('w, SqliteCapture) op" where
  "capture_restore E fs tx full resume =
     bind_op (ae_tempdir E) (\<lambda>path.
     bind_op (ae_restore E fs path tx) (\<lambda>_.
     capture_open E path full (if resume then Some tx else None)))"

text \<open>The capture of a commit. The files are collected first; a failure to remove the local
  copies is only reported.\<close>

definition capture :: "('w, 'v) actor_env \<Rightarrow> u64 \<Rightarrow> (SqliteCapture \<times> 'w, LtxFile list) op" where
  "capture E tx = (\<lambda>(c, w).
     case ensure (cap_txid c \<le> tx) ''SQLite transaction went backwards''
            (collect_ltx_files (ae_replica E (cap_path c) w) (cap_published c) tx) of
       Inl e \<Rightarrow> (Inl e, (c, w))
     | Inr fs \<Rightarrow>
         (case ae_prune E (cap_path c) tx w of
            (_, w) \<Rightarrow> (Inr fs, (c\<lparr>cap_txid := tx, cap_published := tx\<rparr>, w))))"

definition resident_open :: "('w, 'v) actor_env \<Rightarrow> u64 \<Rightarrow> SqliteCapture \<Rightarrow> ('w, 'v ResidentDatabase) op" where
  "resident_open E epoch c =
     bind_op (ae_db_open E (cap_path c)) (\<lambda>_.
     ret_op \<lparr>rd_sqlite = c, rd_sqlite_head = None, rd_owner_epoch = epoch, rd_state_version = 0,
             rd_published = None, rd_synced = cap_txid c, rd_last_request_id = None,
             rd_last_result = None, rd_next_write = None, rd_pending = None\<rparr>)"

definition unpublished :: "'v ResidentDatabase \<Rightarrow> u64 option \<Rightarrow> u64 option" where
  "unpublished d committed =
     (case committed of
        None \<Rightarrow> None
      | Some tx \<Rightarrow>
          if (case rd_published d of None \<Rightarrow> True | Some published \<Rightarrow> published < tx) then Some tx else None)"

definition set_completion :: "string \<Rightarrow> 'v option \<Rightarrow> 'v ResidentDatabase \<Rightarrow> 'v ResidentDatabase" where
  "set_completion request completed d =
     d\<lparr>rd_last_request_id := map_option (\<lambda>_. request) completed, rd_last_result := completed\<rparr>"

definition replay :: "'v ResidentDatabase \<Rightarrow> string \<Rightarrow> 'v option" where
  "replay d request = (if rd_last_request_id d = Some request then rd_last_result d else None)"

section \<open>Operations on a resident database\<close>

text \<open>The session lends its database to an operation: the state is the database and what is
  outside the session, and what a failed operation did to either stays.\<close>

type_synonym ('w, 'v, 'a) resident_op = "('v ResidentDatabase \<times> 'w, 'a) op"

definition outside :: "('w, 'a) op \<Rightarrow> ('w, 'v, 'a) resident_op" where
  "outside m = (\<lambda>(d, w). case m w of (r, w') \<Rightarrow> (r, (d, w')))"

definition resident :: "('w, 'v, 'v ResidentDatabase) resident_op" where
  "resident = (\<lambda>(d, w). (Inr d, (d, w)))"

definition change :: "('v ResidentDatabase \<Rightarrow> 'v ResidentDatabase) \<Rightarrow> ('w, 'v, unit) resident_op" where
  "change f = (\<lambda>(d, w). (Inr (), (f d, w)))"

definition capture_sqlite :: "('w, 'v) actor_env \<Rightarrow> u64 \<Rightarrow> ('w, 'v, SqliteSnapshot) resident_op" where
  "capture_sqlite E tx =
     bind_op (\<lambda>(d, w). case capture E tx (rd_sqlite d, w) of (r, (c, w)) \<Rightarrow> (r, (d\<lparr>rd_sqlite := c\<rparr>, w))) (\<lambda>fs.
     bind_op (lift_op (context_opt ''actor commit has no replication files''
                (case fs of [] \<Rightarrow> None | f # _ \<Rightarrow> Some f))) (\<lambda>f.
     bind_op resident (\<lambda>d.
     bind_op (if ltx_first f = 1 then ret_op None
              else bind_op (lift_op (context_opt ''SQLite state has no durable head'' (rd_sqlite_head d)))
                     (\<lambda>h. ret_op (Some h))) (\<lambda>p.
     ret_op \<lparr>txid = cap_txid (rd_sqlite d), parent = p, files = fs\<rparr>))))"

definition renew_pending :: "('w, 'v) actor_env \<Rightarrow> 'v PendingStateCommit \<Rightarrow> ('w, 'v, unit) resident_op" where
  "renew_pending E p =
     bind_op resident (\<lambda>d.
     bind_op (outside (ae_prepare_state_write E (rd_owner_epoch d) (rd_state_version d))) (\<lambda>renewed.
     ensure_op (wp_stream renewed = wp_stream (pc_ticket p) \<and>
                wp_object_name renewed = wp_object_name (pc_ticket p)) ''pending writer has been fenced'' (
     bind_op (change (\<lambda>d. d\<lparr>rd_pending := Some (p\<lparr>pc_ticket := renewed\<rparr>)\<rparr>)) (\<lambda>_.
     bind_op (lift_op (snapshot_encode (ae_json E) (pc_snapshot p))) (\<lambda>b.
     bind_op (outside (ae_write_snapshot E renewed b)) (\<lambda>_.
     change (\<lambda>d. d\<lparr>rd_pending := Some (p\<lparr>pc_ticket := renewed, pc_durable := True\<rparr>)\<rparr>)))))))"

definition install_pending :: "('w, 'v) actor_env \<Rightarrow> 'v PendingStateCommit \<Rightarrow> ('w, 'v, unit) resident_op" where
  "install_pending E p =
     bind_op (lift_op (context_opt ''state version overflow'' (checked_add (state_version (pc_snapshot p)) 1))) (\<lambda>nxt.
     bind_op (change (\<lambda>d. d\<lparr>rd_pending := None\<rparr>)) (\<lambda>_.
     bind_op (lift_op (snapshot_encode (ae_json E) (pc_snapshot p))) (\<lambda>b.
     change (\<lambda>d. (set_completion (request_id (pc_snapshot p)) (completion (pc_snapshot p)) d)
       \<lparr>rd_sqlite_head := Some (snapshot_ref_new (ae_crypto E) (wp_object_name (pc_ticket p)) (pc_snapshot p) b),
        rd_state_version := state_version (pc_snapshot p),
        rd_published := Some (pc_txid p),
        rd_next_write := Some ((pc_ticket p)\<lparr>wp_state_version := nxt,
          wp_object_name := stream_object (wp_stream (pc_ticket p)) nxt\<rparr>)\<rparr>))))"

definition finish_pending_commit :: "('w, 'v) actor_env \<Rightarrow> ('w, 'v, unit) resident_op" where
  "finish_pending_commit E =
     bind_op resident (\<lambda>d.
     case rd_pending d of
       None \<Rightarrow> ret_op ()
     | Some p \<Rightarrow>
         bind_op (if pc_durable p then ret_op () else renew_pending E p) (\<lambda>_.
         bind_op resident (\<lambda>d.
         case rd_pending d of
           None \<Rightarrow> lift_op (Inl ''panic: pending commit checked above'')
         | Some p \<Rightarrow> install_pending E p)))"

definition write_ticket :: "('w, 'v) actor_env \<Rightarrow> u64 \<Rightarrow> u64 \<Rightarrow> ('w, 'v, WritePlan) resident_op" where
  "write_ticket E epoch nxt =
     bind_op resident (\<lambda>d.
     bind_op (change (\<lambda>d. d\<lparr>rd_next_write := None\<rparr>)) (\<lambda>_.
     let prepare = outside (ae_prepare_state_write E epoch (rd_state_version d)) in
     case rd_next_write d of
       Some ticket \<Rightarrow>
         if wp_state_version ticket = nxt \<and> ss_owner_epoch (wp_stream ticket) = epoch then ret_op ticket
         else prepare
     | None \<Rightarrow> prepare))"

definition commit_snapshot ::
    "'v ActorInvocation \<Rightarrow> u64 \<Rightarrow> 'v option \<Rightarrow> CommitOrigin \<Rightarrow> u64 \<Rightarrow> SqliteSnapshot \<Rightarrow> u64 \<Rightarrow> 'v StateSnapshot" where
  "commit_snapshot iv epoch completed origin version sq ms =
     \<lparr>attribution = Some \<lparr>operation = iv_method iv, connection_id = co_connection_id origin,
        committed_at_ms = ms, interleaved = co_interleaved origin\<rparr>,
      state_version = version, owner_epoch = epoch, request_id = iv_request_id iv,
      sqlite = sq, completion = completed\<rparr>"

text \<open>The commit with its bytes and its ticket, before it becomes the pending one.\<close>

definition begin_commit ::
    "('w, 'v) actor_env \<Rightarrow> 'v ActorInvocation \<Rightarrow> u64 \<Rightarrow> 'v option \<Rightarrow> u64 \<Rightarrow> CommitOrigin \<Rightarrow>
      ('w, 'v, bytes \<times> 'v PendingStateCommit) resident_op" where
  "begin_commit E iv epoch completed tx origin =
     bind_op resident (\<lambda>d.
     bind_op (lift_op (context_opt ''actor state version overflow'' (checked_add (rd_state_version d) 1))) (\<lambda>nxt.
     bind_op (write_ticket E epoch nxt) (\<lambda>ticket.
     ensure_op (wp_state_version ticket = nxt) ''state write ticket has the wrong version'' (
     ensure_op (ss_owner_epoch (wp_stream ticket) = epoch) ''write capability belongs to another owner epoch'' (
     bind_op (capture_sqlite E tx) (\<lambda>sq.
     bind_op (outside (ae_unix_millis E)) (\<lambda>ms.
     let snapshot = commit_snapshot iv epoch completed origin nxt sq ms in
     bind_op (lift_op (snapshot_encode (ae_json E) snapshot)) (\<lambda>b.
     ret_op (b, \<lparr>pc_snapshot = snapshot, pc_txid = tx, pc_ticket = ticket, pc_durable = False\<rparr>)))))))))"

definition publish_state_once ::
    "('w, 'v) actor_env \<Rightarrow> 'v ActorInvocation \<Rightarrow> u64 \<Rightarrow> 'v option \<Rightarrow> u64 \<Rightarrow> CommitOrigin \<Rightarrow> ('w, 'v, unit) resident_op" where
  "publish_state_once E iv epoch completed tx origin =
     bind_op (begin_commit E iv epoch completed tx origin) (\<lambda>(b, p).
     bind_op (change (\<lambda>d. d\<lparr>rd_pending := Some p\<rparr>)) (\<lambda>_.
     bind_op (outside (ae_write_snapshot E (pc_ticket p) b)) (\<lambda>_.
     bind_op (change (\<lambda>d. d\<lparr>rd_pending := Some (p\<lparr>pc_durable := True\<rparr>)\<rparr>)) (\<lambda>_.
     finish_pending_commit E))))"

definition publish_state ::
    "('w, 'v) actor_env \<Rightarrow> 'v ActorInvocation \<Rightarrow> u64 \<Rightarrow> 'v option \<Rightarrow> u64 \<Rightarrow> CommitOrigin \<Rightarrow> ('w, 'v, unit) resident_op" where
  "publish_state E iv epoch completed tx origin = publish_state_once E iv epoch completed tx origin"

definition publish_result ::
    "('w, 'v) actor_env \<Rightarrow> 'v ActorInvocation \<Rightarrow> u64 \<Rightarrow> 'v \<Rightarrow> u64 \<Rightarrow> CommitOrigin \<Rightarrow> ('w, 'v, unit) resident_op" where
  "publish_result E iv epoch result tx origin = publish_state E iv epoch (Some result) tx origin"

definition publish_immediate ::
    "('w, 'v) actor_env \<Rightarrow> 'v ActorInvocation \<Rightarrow> u64 \<Rightarrow> CommitOrigin \<Rightarrow> ('w, 'v, unit) resident_op" where
  "publish_immediate E iv epoch origin =
     bind_op (outside (ae_ensure_authority E)) (\<lambda>_.
     bind_op resident (\<lambda>d.
     ensure_op (case rd_published d of None \<Rightarrow> True | Some published \<Rightarrow> published < rd_synced d)
       ''immediate write must advance SQLite transaction'' (
     bind_op (publish_state E iv epoch None (rd_synced d) origin) (\<lambda>_.
     outside (ae_ensure_authority E)))))"

datatype DatabaseReply = ReplyExecuted DatabaseResult "u64 option" | ReplyRejected string

definition sync_commit ::
    "('w, 'v) actor_env \<Rightarrow> 'v ActorInvocation \<Rightarrow> u64 \<Rightarrow> CommitOrigin \<Rightarrow> bool \<Rightarrow> ('w, 'v, unit) resident_op" where
  "sync_commit E iv epoch origin now =
     bind_op resident (\<lambda>d.
     bind_op (outside (ae_sync E (cap_path (rd_sqlite d)))) (\<lambda>synced.
     bind_op (change (\<lambda>d. d\<lparr>rd_synced := synced\<rparr>)) (\<lambda>_.
     if now \<and> synced > rd_synced d then publish_immediate E iv epoch origin else ret_op ())))"

definition run_database_call ::
    "('w, 'v) actor_env \<Rightarrow> 'v ActorInvocation \<Rightarrow> u64 \<Rightarrow> CommitOrigin \<Rightarrow> DatabaseCall \<Rightarrow> ('w, 'v, DatabaseReply) resident_op" where
  "run_database_call E iv epoch origin call =
     bind_op resident (\<lambda>d.
     bind_op (try_op (outside (ae_db_call E (cap_path (rd_sqlite d)) call))) (\<lambda>ran.
     case ran of
       Inl e \<Rightarrow> ret_op (ReplyRejected e)
     | Inr ex \<Rightarrow>
         bind_op (if ex_committed ex then sync_commit E iv epoch origin (immediate call) else ret_op ()) (\<lambda>_.
         bind_op resident (\<lambda>d.
         ret_op (case ex_result ex of
             Inr result \<Rightarrow> ReplyExecuted result (if call = Commit then Some (rd_synced d) else None)
           | Inl e \<Rightarrow> ReplyRejected e)))))"

definition execute_database_call ::
    "('w, 'v) actor_env \<Rightarrow> 'v ActorInvocation \<Rightarrow> u64 option \<Rightarrow> CommitOrigin \<Rightarrow> DatabaseCall \<Rightarrow>
      ('w, 'v, DatabaseReply) resident_op" where
  "execute_database_call E iv scope origin call =
     bind_op resident (\<lambda>d.
     ensure_op (case scope of None \<Rightarrow> True | Some epoch \<Rightarrow> rd_owner_epoch d = epoch)
       ''database call ownership changed'' (
     case call of
       Alarm \<Rightarrow> bind_op (outside (ae_get_alarm E)) (\<lambda>at. ret_op (ReplyExecuted (AlarmAt at) None))
     | SetAlarm at _ \<Rightarrow> bind_op (outside (ae_update_alarm E (Some at))) (\<lambda>_. ret_op (ReplyExecuted Done None))
     | DeleteAlarm _ \<Rightarrow> bind_op (outside (ae_update_alarm E None)) (\<lambda>_. ret_op (ReplyExecuted Done None))
     | _ \<Rightarrow> run_database_call E iv (rd_owner_epoch d) origin call))"

section \<open>The session\<close>

record ('w, 'v) DatabaseSession =
  ds_world :: 'w
  ds_cached :: "'v ResidentDatabase option"
  ds_prepared :: "ActorActivation option"
  ds_activation :: "ActorActivation option"

type_synonym ('w, 'v, 'a) session_op = "(('w, 'v) DatabaseSession, 'a) op"

datatype PreparedActivation = ActivationCompleted ActorActivation | Hydrate ActorActivation

datatype 'v PreparedInvocation = Execute | InvocationCompleted "'v ActorExecutionResult"

definition on_world :: "('w, 'a) op \<Rightarrow> ('w, 'v, 'a) session_op" where
  "on_world m s = (case m (ds_world s) of (r, w) \<Rightarrow> (r, s\<lparr>ds_world := w\<rparr>))"

definition session_new :: "'w \<Rightarrow> ('w, 'v) DatabaseSession" where
  "session_new w = \<lparr>ds_world = w, ds_cached = None, ds_prepared = None, ds_activation = None\<rparr>"

definition session_version :: "('w, 'v) DatabaseSession \<Rightarrow> u64 option" where
  "session_version s =
     (case ds_cached s of
        None \<Rightarrow> None
      | Some d \<Rightarrow> if rd_state_version d > 0 then Some (rd_state_version d) else None)"

definition open_new :: "('w, 'v) actor_env \<Rightarrow> u64 \<Rightarrow> ('w, 'v ResidentDatabase) op" where
  "open_new E epoch = bind_op (capture_new E (ae_full_snapshots E)) (resident_open E epoch)"

definition load_cached :: "('w, 'v) actor_env \<Rightarrow> u64 \<Rightarrow> u64 \<Rightarrow> bytes \<Rightarrow> ('w, 'v ResidentDatabase) op" where
  "load_cached E epoch version loaded =
     bind_op (lift_op (snapshot_decode (ae_json E) loaded)) (\<lambda>snapshot.
     ensure_op (state_version snapshot = version) ''actor snapshot version does not match its state head'' (
     ensure_op (owner_epoch snapshot \<le> epoch) ''actor snapshot belongs to a newer owner epoch'' (
     bind_op (ae_read_sqlite E loaded) (\<lambda>sq.
     bind_op (lift_op (ae_resume_parent E snapshot loaded)) (\<lambda>resumed.
     bind_op (capture_restore E (files sq) (txid sq) (ae_full_snapshots E) (resumed \<noteq> None)) (\<lambda>c.
     bind_op (resident_open E epoch c) (\<lambda>d.
     ret_op (set_completion (request_id snapshot) (completion snapshot)
       (d\<lparr>rd_sqlite_head := (if rd_synced d > 0 then resumed else None),
          rd_state_version := version, rd_published := Some (rd_synced d)\<rparr>)))))))))"

definition take_or_load_state :: "('w, 'v) actor_env \<Rightarrow> u64 \<Rightarrow> ('w, 'v, 'v ResidentDatabase) session_op" where
  "take_or_load_state E epoch s =
     (let load =
        on_world (bind_op (ae_load_actor_state E epoch) (\<lambda>(version, loaded).
          if version = 0 then
            ensure_op (loaded = []) ''uninitialized actor has state'' (open_new E epoch)
          else load_cached E epoch version loaded)) (s\<lparr>ds_cached := None\<rparr>)
      in case ds_cached s of
           Some d \<Rightarrow> if rd_owner_epoch d = epoch then (Inr d, s\<lparr>ds_cached := None\<rparr>) else load
         | None \<Rightarrow> load)"

definition answer_invocation ::
    "('w, 'v) actor_env \<Rightarrow> 'v option \<Rightarrow> ('w, 'v, 'v PreparedInvocation) session_op" where
  "answer_invocation E result =
     bind_op (try_op (on_world (ae_ensure_authority E))) (\<lambda>authority.
     ret_op (case authority of
         Inl _ \<Rightarrow> InvocationCompleted HostUnavailable
       | Inr _ \<Rightarrow> (case result of
             Some v \<Rightarrow> InvocationCompleted (Completed v [])
           | None \<Rightarrow> Execute)))"

definition resolve_pending ::
    "('w, 'v) actor_env \<Rightarrow> 'v ActorInvocation \<Rightarrow> bool \<Rightarrow> 'v ResidentDatabase \<Rightarrow>
      ('w, 'v, 'v PreparedInvocation) session_op" where
  "resolve_pending E iv replaying d s =
     (case finish_pending_commit E (d, ds_world s) of
        (r, (d, w)) \<Rightarrow>
          (let s = s\<lparr>ds_cached := Some d, ds_world := w\<rparr> in
           case r of
             Inl _ \<Rightarrow> (Inr (InvocationCompleted (Failed outcome_unknown_after_execution)), s)
           | Inr _ \<Rightarrow> answer_invocation E (if replaying then replay d (iv_request_id iv) else None) s))"

definition prepare_invocation ::
    "('w, 'v) actor_env \<Rightarrow> 'v ActorInvocation \<Rightarrow> u64 option \<Rightarrow> bool \<Rightarrow>
      ('w, 'v, 'v PreparedInvocation) session_op" where
  "prepare_invocation E iv scope replaying =
     bind_op (lift_op (context_opt ''activation scopes cannot run invocations'' scope)) (\<lambda>epoch.
     bind_op (try_op (on_world (ae_ensure_authority E))) (\<lambda>authority.
     case authority of
       Inl _ \<Rightarrow> ret_op (InvocationCompleted HostUnavailable)
     | Inr _ \<Rightarrow>
         bind_op (take_or_load_state E epoch) (resolve_pending E iv replaying)))"

definition database_call ::
    "('w, 'v) actor_env \<Rightarrow> 'v ActorInvocation \<Rightarrow> u64 option \<Rightarrow> CommitOrigin \<Rightarrow> DatabaseCall \<Rightarrow>
      ('w, 'v, DatabaseReply) session_op" where
  "database_call E iv scope origin call s =
     (case ds_cached s of
        None \<Rightarrow> (Inr (ReplyRejected ''actor database is not activated''), s)
      | Some d \<Rightarrow>
          (case execute_database_call E iv scope origin call (d, ds_world s) of
             (r, (d, w)) \<Rightarrow> (r, s\<lparr>ds_cached := Some d, ds_world := w\<rparr>)))"

definition acquire_resident :: "('w, 'v) actor_env \<Rightarrow> ActorActivation \<Rightarrow> ('w, 'v, ActorActivation) session_op" where
  "acquire_resident E a s =
     (if ds_cached s \<noteq> None then (Inr a, s)
      else
        bind_op (on_world
          (if aa_state_version a = 0 then
             bind_op (open_new E (aa_owner_epoch a)) (\<lambda>d. ret_op (a, d))
           else
             bind_op (lift_op (context_opt ''activation has no recovered state'' (aa_state a))) (\<lambda>b.
             bind_op (load_cached E (aa_owner_epoch a) (aa_state_version a) b) (\<lambda>d.
             ret_op (a\<lparr>aa_state := None\<rparr>, d))))) (\<lambda>(a, d) s.
        (Inr a, s\<lparr>ds_cached := Some d\<rparr>)) s)"

definition prepare_activation :: "('w, 'v) actor_env \<Rightarrow> ('w, 'v, PreparedActivation) session_op" where
  "prepare_activation E s =
     (let prepared = ds_prepared s in
      bind_op (on_world (ae_ensure_authority E)) (\<lambda>_ s.
      case ds_activation s of
        Some a \<Rightarrow> (Inr (ActivationCompleted a), s)
      | None \<Rightarrow>
          (case prepared of
             Some a \<Rightarrow> (Inr (Hydrate a), s\<lparr>ds_prepared := Some a\<rparr>)
           | None \<Rightarrow>
               bind_op (on_world (ae_acquire_actor E)) (\<lambda>a.
               bind_op (acquire_resident E a) (\<lambda>a.
               bind_op (on_world (ae_ensure_authority E)) (\<lambda>_ s.
               (Inr (Hydrate a), s\<lparr>ds_prepared := Some a\<rparr>)))) s)) (s\<lparr>ds_prepared := None\<rparr>))"

definition finish_activation ::
    "('w, 'v) actor_env \<Rightarrow> ActorActivation \<Rightarrow> unit result \<Rightarrow> ('w, 'v, ActorActivation) session_op" where
  "finish_activation E a result s =
     bind_op (lift_op result) (\<lambda>_.
     bind_op (on_world (ae_ensure_authority E)) (\<lambda>_ s.
     case ds_cached s of
       None \<Rightarrow> (Inl ''activation has no cached state'', s)
     | Some d \<Rightarrow>
         if rd_owner_epoch d \<noteq> aa_owner_epoch a then (Inl ''activation ownership changed'', s)
         else (let a = a\<lparr>aa_state_version := rd_state_version d\<rparr>
               in (Inr a, s\<lparr>ds_activation := Some a\<rparr>)))) (s\<lparr>ds_prepared := None\<rparr>)"

definition PublicationError :: string where
  "PublicationError = ''actor state publication could not be confirmed''"

definition publish_completion ::
    "('w, 'v) actor_env \<Rightarrow> 'v ActorInvocation \<Rightarrow> u64 \<Rightarrow> 'v \<Rightarrow> u64 option \<Rightarrow> CommitOrigin \<Rightarrow>
      ('w, 'v, unit) resident_op" where
  "publish_completion E iv epoch result committed origin =
     bind_op resident (\<lambda>d.
     case unpublished d committed of
       Some tx \<Rightarrow> publish_result E iv epoch result tx origin
     | None \<Rightarrow> ret_op ())"

definition complete_invocation ::
    "('w, 'v) actor_env \<Rightarrow> 'v ActorInvocation \<Rightarrow> u64 option \<Rightarrow> 'v \<Rightarrow> u64 option \<Rightarrow> CommitOrigin \<Rightarrow>
      ('w, 'v, u64) session_op" where
  "complete_invocation E iv scope result committed origin =
     bind_op (lift_op (context_opt ''activation scopes cannot complete invocations'' scope)) (\<lambda>epoch s.
     case ds_cached s of
       None \<Rightarrow> (Inl ''actor invocation has no state'', s)
     | Some d \<Rightarrow>
         if rd_owner_epoch d \<noteq> epoch
         then (Inl ''database completion ownership changed'', s\<lparr>ds_cached := None\<rparr>)
         else
           (case publish_completion E iv epoch result committed origin (d, ds_world s) of
              (Inl _, (d, w)) \<Rightarrow>
                (Inl PublicationError,
                 s\<lparr>ds_world := w, ds_activation := None,
                   ds_cached := (if rd_pending d = None then None else Some d)\<rparr>)
            | (Inr _, (d, w)) \<Rightarrow>
                bind_op (on_world (ae_ensure_authority E)) (\<lambda>_. ret_op (rd_state_version d))
                  (s\<lparr>ds_world := w, ds_cached := Some d\<rparr>)))"

definition reset :: "('w, 'v) DatabaseSession \<Rightarrow> ('w, 'v) DatabaseSession" where
  "reset s = s\<lparr>ds_cached := None, ds_prepared := None, ds_activation := None\<rparr>"

section \<open>Results of the operations\<close>

lemma resident_op_Inr [op_simps]:
  "outside m (d, w) = (Inr x, (d', w')) \<longleftrightarrow> m w = (Inr x, w') \<and> d' = d"
  "resident (d, w) = (Inr y, (d', w')) \<longleftrightarrow> y = d \<and> d' = d \<and> w' = w"
  "change f (d, w) = (Inr (), (d', w')) \<longleftrightarrow> d' = f d \<and> w' = w"
  by (auto simp: outside_def resident_def change_def split: prod.splits)

lemma on_world_Inr [op_simps]:
  "on_world m s = (Inr x, s') \<longleftrightarrow> (\<exists>w. m (ds_world s) = (Inr x, w) \<and> s' = s\<lparr>ds_world := w\<rparr>)"
  by (auto simp: on_world_def split: prod.splits)

lemma bind_op_pair_Inr:
  "bind_op m f s = (Inr y, s'') \<longleftrightarrow> (\<exists>x d w. m s = (Inr x, (d, w)) \<and> f x (d, w) = (Inr y, s''))"
  by (auto simp: bind_op_Inr)

lemma replay_set_completion [simp]:
  "replay (set_completion request completed d) r = (if r = request then completed else None)"
  by (cases completed) (auto simp: replay_def set_completion_def)

lemma set_completion_simps [simp]:
  "rd_sqlite (set_completion r c d) = rd_sqlite d" "rd_sqlite_head (set_completion r c d) = rd_sqlite_head d"
  "rd_owner_epoch (set_completion r c d) = rd_owner_epoch d"
  "rd_state_version (set_completion r c d) = rd_state_version d"
  "rd_published (set_completion r c d) = rd_published d" "rd_synced (set_completion r c d) = rd_synced d"
  "rd_next_write (set_completion r c d) = rd_next_write d" "rd_pending (set_completion r c d) = rd_pending d"
  by (simp_all add: set_completion_def)

text \<open>The state after the pending commit \<open>p\<close> has been installed.\<close>

definition installed_commit :: "('w, 'v) actor_env \<Rightarrow> 'v PendingStateCommit \<Rightarrow> bytes \<Rightarrow> 'v ResidentDatabase \<Rightarrow> bool" where
  "installed_commit E p b d \<longleftrightarrow>
     snapshot_encode (ae_json E) (pc_snapshot p) = Inr b \<and>
     rd_sqlite_head d = Some (snapshot_ref_new (ae_crypto E) (wp_object_name (pc_ticket p)) (pc_snapshot p) b) \<and>
     rd_state_version d = state_version (pc_snapshot p) \<and> rd_published d = Some (pc_txid p) \<and>
     rd_pending d = None \<and>
     (\<forall>r. replay d r = (if r = request_id (pc_snapshot p) then completion (pc_snapshot p) else None))"

lemma replay_record [simp]:
  "replay (d\<lparr>rd_sqlite_head := h, rd_state_version := v, rd_published := p, rd_next_write := n\<rparr>) r = replay d r"
  "replay (d\<lparr>rd_pending := q\<rparr>) r = replay d r"
  by (simp_all add: replay_def)

lemma install_pending_Inr:
  assumes "install_pending E p (d, w) = (Inr (), (d', w'))"
  shows "\<exists>b. installed_commit E p b d' \<and> w' = w \<and> rd_owner_epoch d' = rd_owner_epoch d \<and>
    rd_sqlite d' = rd_sqlite d \<and> rd_synced d' = rd_synced d"
  using assms
  by (auto simp: install_pending_def op_simps bind_op_pair_Inr installed_commit_def)

lemma finish_durable_Inr:
  assumes "finish_pending_commit E (d, w) = (Inr (), (d', w'))" and "rd_pending d = Some p" and "pc_durable p"
  shows "\<exists>b. installed_commit E p b d' \<and> w' = w \<and> rd_owner_epoch d' = rd_owner_epoch d \<and>
    rd_sqlite d' = rd_sqlite d \<and> rd_synced d' = rd_synced d"
  using assms install_pending_Inr [of E p d w d' w']
  by (auto simp: finish_pending_commit_def op_simps bind_op_pair_Inr)

lemma renew_pending_Inr:
  assumes "renew_pending E p (d, w) = (Inr (), (d', w'))"
  obtains t b w1 where "ae_prepare_state_write E (rd_owner_epoch d) (rd_state_version d) w = (Inr t, w1)"
    "wp_stream t = wp_stream (pc_ticket p)" "wp_object_name t = wp_object_name (pc_ticket p)"
    "snapshot_encode (ae_json E) (pc_snapshot p) = Inr b" "ae_write_snapshot E t b w1 = (Inr (), w')"
    "d' = d\<lparr>rd_pending := Some (p\<lparr>pc_ticket := t, pc_durable := True\<rparr>)\<rparr>"
  using assms by (auto simp: renew_pending_def op_simps bind_op_pair_Inr)

text \<open>Finishing the pending commit installs it, whether or not its write was already confirmed.\<close>

lemma finish_pending_Inr:
  assumes "finish_pending_commit E (d, w) = (Inr (), (d', w'))" and "rd_pending d = Some p"
  shows "\<exists>p' b. pc_snapshot p' = pc_snapshot p \<and> pc_txid p' = pc_txid p \<and>
    wp_object_name (pc_ticket p') = wp_object_name (pc_ticket p) \<and> installed_commit E p' b d' \<and>
    rd_owner_epoch d' = rd_owner_epoch d"
proof (cases "pc_durable p")
  case True
  from finish_durable_Inr [OF assms True] show ?thesis by blast
next
  case False
  with assms obtain d1 w1 where r: "renew_pending E p (d, w) = (Inr (), (d1, w1))"
    and i: "(case rd_pending d1 of None \<Rightarrow> lift_op (Inl ''panic: pending commit checked above'')
       | Some p \<Rightarrow> install_pending E p) (d1, w1) = (Inr (), (d', w'))"
    by (auto simp: finish_pending_commit_def op_simps bind_op_pair_Inr)
  from renew_pending_Inr [OF r] obtain t where
    d1: "d1 = d\<lparr>rd_pending := Some (p\<lparr>pc_ticket := t, pc_durable := True\<rparr>)\<rparr>"
    and t: "wp_object_name t = wp_object_name (pc_ticket p)" by metis
  from i d1 have "install_pending E (p\<lparr>pc_ticket := t, pc_durable := True\<rparr>) (d1, w1) = (Inr (), (d', w'))" by simp
  from install_pending_Inr [OF this] obtain b where
    b: "installed_commit E (p\<lparr>pc_ticket := t, pc_durable := True\<rparr>) b d'" "rd_owner_epoch d' = rd_owner_epoch d1" by blast
  show ?thesis
    by (intro exI [of _ "p\<lparr>pc_ticket := t, pc_durable := True\<rparr>"] exI [of _ b]) (use b t d1 in simp)
qed

section \<open>Publishing a state version\<close>

text \<open>The commit that an invocation publishes as the version after that of the database.\<close>

definition commit_of ::
    "'v ActorInvocation \<Rightarrow> u64 \<Rightarrow> 'v option \<Rightarrow> CommitOrigin \<Rightarrow> 'v ResidentDatabase \<Rightarrow> 'v StateSnapshot \<Rightarrow> bool" where
  "commit_of iv epoch completed origin d c \<longleftrightarrow>
     checked_add (rd_state_version d) 1 = Some (state_version c) \<and> owner_epoch c = epoch \<and>
     request_id c = iv_request_id iv \<and> completion c = completed \<and>
     (\<exists>ms. attribution c = Some \<lparr>operation = iv_method iv, connection_id = co_connection_id origin,
        committed_at_ms = ms, interleaved = co_interleaved origin\<rparr>) \<and>
     (parent (sqlite c) = None \<or> parent (sqlite c) = rd_sqlite_head d)"

definition ticket_for :: "u64 \<Rightarrow> 'v StateSnapshot \<Rightarrow> WritePlan \<Rightarrow> bool" where
  "ticket_for epoch c t \<longleftrightarrow> wp_state_version t = state_version c \<and> ss_owner_epoch (wp_stream t) = epoch"

lemma write_ticket_Inr:
  assumes "write_ticket E epoch nxt (d, w) = (Inr t, (d', w'))"
  shows "d' = d\<lparr>rd_next_write := None\<rparr>"
  using assms
  by (auto simp: write_ticket_def op_simps bind_op_pair_Inr Let_def split: option.splits if_splits)

lemma capture_Inr:
  assumes "capture E tx (c, w) = (Inr fs, (c', w'))"
  shows "cap_txid c \<le> tx \<and> c' = c\<lparr>cap_txid := tx, cap_published := tx\<rparr> \<and>
    collect_ltx_files (ae_replica E (cap_path c) w) (cap_published c) tx = Inr fs"
  using assms by (auto simp: capture_def ensure_def split: sum.splits prod.splits if_splits)

lemma capture_sqlite_Inr:
  assumes "capture_sqlite E tx (d, w) = (Inr sq, (d', w'))"
  shows "txid sq = tx \<and> (parent sq = None \<or> parent sq = rd_sqlite_head d) \<and>
    d' = d\<lparr>rd_sqlite := (rd_sqlite d)\<lparr>cap_txid := tx, cap_published := tx\<rparr>\<rparr> \<and>
    collect_ltx_files (ae_replica E (cap_path (rd_sqlite d)) w) (cap_published (rd_sqlite d)) tx = Inr (files sq)"
proof -
  from assms obtain c w1 fs where c: "capture E tx (rd_sqlite d, w) = (Inr fs, (c, w1))"
    and d': "d' = d\<lparr>rd_sqlite := c\<rparr>" and t: "txid sq = cap_txid c" and f: "files sq = fs"
    and p: "parent sq = None \<or> parent sq = rd_sqlite_head d"
    by (auto simp: capture_sqlite_def op_simps bind_op_pair_Inr context_opt_Inr_iff
        split: prod.splits if_splits list.splits)
  from capture_Inr [OF c] d' t f p show ?thesis by auto
qed

section \<open>What operations leave alone\<close>

definition leaves :: "('v ResidentDatabase \<Rightarrow> 'x) \<Rightarrow> ('w, 'v, 'a) resident_op \<Rightarrow> bool" where
  "leaves f m \<longleftrightarrow> (\<forall>d w r d' w'. m (d, w) = (r, (d', w')) \<longrightarrow> f d' = f d)"

lemma leavesD: "leaves f m \<Longrightarrow> m (d, w) = (r, (d', w')) \<Longrightarrow> f d' = f d"
  unfolding leaves_def by blast

lemma leaves_bind:
  assumes "leaves f m" and "\<And>x. leaves f (k x)"
  shows "leaves f (bind_op m k)"
  unfolding leaves_def
proof (intro allI impI)
  fix d w r d' w'
  assume b: "bind_op m k (d, w) = (r, (d', w'))"
  obtain c d1 w1 where c: "m (d, w) = (c, (d1, w1))" by (metis surj_pair)
  with leavesD [OF assms(1)] have "f d1 = f d" .
  moreover from b c leavesD [OF assms(2)] have "f d' = f d1" by (cases c) (auto simp: bind_op_def)
  ultimately show "f d' = f d" by simp
qed

lemma leaves_basic:
  "leaves f (ret_op x)" "leaves f (lift_op r)" "leaves f (outside m)" "leaves f resident"
  by (auto simp: leaves_def ret_op_def lift_op_def outside_def resident_def split: prod.splits)

lemma leaves_change: "(\<And>d. f (g d) = f d) \<Longrightarrow> leaves f (change g)"
  by (auto simp: leaves_def change_def)

lemma leaves_ensure: "leaves f m \<Longrightarrow> leaves f (ensure_op c msg m)"
  by (auto simp: leaves_def ensure_op_def split: if_splits)

lemma leaves_try: "leaves f m \<Longrightarrow> leaves f (try_op m)"
  by (auto simp: leaves_def try_op_def split: prod.splits)

lemma leaves_if: "leaves f m \<Longrightarrow> leaves f n \<Longrightarrow> leaves f (if c then m else n)"
  by simp

lemma leaves_option: "leaves f m \<Longrightarrow> (\<And>y. leaves f (n y)) \<Longrightarrow> leaves f (case x of None \<Rightarrow> m | Some y \<Rightarrow> n y)"
  by (cases x) auto

lemma leaves_sum: "(\<And>y. leaves f (m y)) \<Longrightarrow> (\<And>y. leaves f (n y)) \<Longrightarrow> leaves f (case x of Inl y \<Rightarrow> m y | Inr y \<Rightarrow> n y)"
  by (cases x) auto

lemma leaves_let: "leaves f (m x) \<Longrightarrow> leaves f (let y = x in m y)"
  by simp

lemmas leaves_rules = leaves_bind leaves_basic leaves_ensure leaves_try leaves_if leaves_option leaves_sum leaves_let

text \<open>Until a commit becomes the pending one, only the ticket and the capture change.\<close>

definition standing :: "'v ResidentDatabase \<Rightarrow>
    SnapshotRef option \<times> u64 \<times> u64 \<times> u64 option \<times> string option \<times> 'v option \<times> 'v PendingStateCommit option" where
  "standing d = (rd_sqlite_head d, rd_owner_epoch d, rd_state_version d, rd_published d, rd_last_request_id d,
     rd_last_result d, rd_pending d)"

lemma write_ticket_leaves: "leaves standing (write_ticket E epoch nxt)"
  unfolding write_ticket_def by (intro leaves_rules leaves_change) (simp add: standing_def)

lemma capture_sqlite_leaves: "leaves standing (capture_sqlite E tx)"
proof -
  have "leaves standing (\<lambda>(d, w). case capture E tx (rd_sqlite d, w) of (r, (c, w)) \<Rightarrow> (r, (d\<lparr>rd_sqlite := c\<rparr>, w)))"
    by (auto simp: leaves_def standing_def split: prod.splits)
  then show ?thesis unfolding capture_sqlite_def by (intro leaves_rules)
qed

lemma bind_op_Inl:
  "bind_op m f s = (Inl e, s') \<longleftrightarrow>
     m s = (Inl e, s') \<or> (\<exists>x s1. m s = (Inr x, s1) \<and> f x s1 = (Inl e, s'))"
  by (auto simp: bind_op_def split: prod.splits sum.splits)

lemma resident_op_Inl:
  "outside m (d, w) = (Inl e, (d', w')) \<longleftrightarrow> m w = (Inl e, w') \<and> d' = d"
  "resident (d, w) \<noteq> (Inl e, s')" "change f (d, w) \<noteq> (Inl e, s')"
  "lift_op r t = (Inl e, t') \<longleftrightarrow> r = Inl e \<and> t' = t" "ret_op x t \<noteq> (Inl e, t')"
  by (auto simp: outside_def resident_def change_def lift_op_def ret_op_def split: prod.splits)

text \<open>Installing a confirmed commit fails only when there is no next version or the commit
  cannot be encoded.\<close>

lemma finish_durable_Inl:
  assumes "finish_pending_commit E (d, w) = (Inl e, (d', w'))" and "rd_pending d = Some p" and "pc_durable p"
  shows "w' = w \<and> (d' = d \<or> d' = d\<lparr>rd_pending := None\<rparr> \<and> (\<forall>b. snapshot_encode (ae_json E) (pc_snapshot p) \<noteq> Inr b))"
  using assms
  by (auto simp: finish_pending_commit_def install_pending_def bind_op_Inl op_simps bind_op_pair_Inr
      resident_op_Inl context_opt_Inr_iff)

lemma begin_commit_leaves: "leaves standing (begin_commit E iv epoch completed tx origin)"
  unfolding begin_commit_def by (intro leaves_rules write_ticket_leaves capture_sqlite_leaves)

lemma begin_commit_Inr:
  assumes "begin_commit E iv epoch completed tx origin (d, w) = (Inr (b, p), (d', w'))"
  shows "commit_of iv epoch completed origin d (pc_snapshot p) \<and> ticket_for epoch (pc_snapshot p) (pc_ticket p) \<and>
    pc_txid p = tx \<and> snapshot_encode (ae_json E) (pc_snapshot p) = Inr b"
proof -
  let ?tail = "\<lambda>nxt ticket sq. bind_op (outside (ae_unix_millis E)) (\<lambda>ms.
     let snapshot = commit_snapshot iv epoch completed origin nxt sq ms in
     bind_op (lift_op (snapshot_encode (ae_json E) snapshot)) (\<lambda>b.
     ret_op (b, \<lparr>pc_snapshot = snapshot, pc_txid = tx, pc_ticket = ticket, pc_durable = False\<rparr>)))"
  from assms obtain nxt t d1 w1 sq d2 w2 where
    n: "checked_add (rd_state_version d) 1 = Some nxt" and t: "write_ticket E epoch nxt (d, w) = (Inr t, (d1, w1))"
    and tn: "wp_state_version t = nxt" "ss_owner_epoch (wp_stream t) = epoch"
    and sq: "capture_sqlite E tx (d1, w1) = (Inr sq, (d2, w2))" and tl: "?tail nxt t sq (d2, w2) = (Inr (b, p), (d', w'))"
    unfolding begin_commit_def bind_op_pair_Inr ensure_op_Inr lift_op_Inr context_opt_Inr_iff resident_op_Inr by blast
  from tl obtain ms where
    b: "snapshot_encode (ae_json E) (commit_snapshot iv epoch completed origin nxt sq ms) = Inr b"
    and p: "p = \<lparr>pc_snapshot = commit_snapshot iv epoch completed origin nxt sq ms, pc_txid = tx,
      pc_ticket = t, pc_durable = False\<rparr>"
    unfolding Let_def bind_op_pair_Inr lift_op_Inr ret_op_Inr resident_op_Inr by blast
  have "rd_sqlite_head d1 = rd_sqlite_head d" using write_ticket_Inr [OF t] by simp
  then have "parent sq = None \<or> parent sq = rd_sqlite_head d" using capture_sqlite_Inr [OF sq] by simp
  with n tn b show ?thesis by (simp add: p commit_of_def ticket_for_def commit_snapshot_def)
qed

lemma publish_state_once_Inr:
  assumes "publish_state_once E iv epoch completed tx origin (d, w) = (Inr (), (d', w'))"
  shows "\<exists>p b w1. commit_of iv epoch completed origin d (pc_snapshot p) \<and> pc_txid p = tx \<and>
    ticket_for epoch (pc_snapshot p) (pc_ticket p) \<and>
    (\<exists>x. begin_commit E iv epoch completed tx origin (d, w) = (Inr x, w1)) \<and>
    ae_write_snapshot E (pc_ticket p) b (snd w1) = (Inr (), w') \<and> installed_commit E p b d' \<and>
    rd_owner_epoch d' = rd_owner_epoch d"
proof -
  from assms obtain b p d1 w1 w2 where
    c: "begin_commit E iv epoch completed tx origin (d, w) = (Inr (b, p), (d1, w1))"
    and w: "ae_write_snapshot E (pc_ticket p) b w1 = (Inr (), w2)"
    and f: "finish_pending_commit E (d1\<lparr>rd_pending := Some (p\<lparr>pc_durable := True\<rparr>)\<rparr>, w2) = (Inr (), (d', w'))"
    by (auto simp: publish_state_once_def op_simps bind_op_pair_Inr)
  note C = begin_commit_Inr [OF c]
  from leavesD [OF begin_commit_leaves c] have e1: "rd_owner_epoch d1 = rd_owner_epoch d"
    by (simp add: standing_def)
  from finish_durable_Inr [OF f, of "p\<lparr>pc_durable := True\<rparr>"] obtain b' where
    i: "installed_commit E (p\<lparr>pc_durable := True\<rparr>) b' d'" and w': "w' = w2"
    and e: "rd_owner_epoch d' = rd_owner_epoch d1" by auto
  from i C have "b' = b" by (simp add: installed_commit_def)
  show ?thesis
    by (intro exI [of _ "p\<lparr>pc_durable := True\<rparr>"] exI [of _ b] exI [of _ "(d1, w1)"])
      (use C c w w' i e e1 \<open>b' = b\<close> in simp)
qed

lemma publish_state_once_Inl:
  assumes "publish_state_once E iv epoch completed tx origin (d, w) = (Inl e, (d', w'))"
  shows "standing d' = standing d \<or>
    (\<exists>p. standing d' = standing (d\<lparr>rd_pending := Some p\<rparr>) \<and>
      commit_of iv epoch completed origin d (pc_snapshot p) \<and> ticket_for epoch (pc_snapshot p) (pc_ticket p) \<and>
      pc_txid p = tx)"
proof -
  from assms consider "begin_commit E iv epoch completed tx origin (d, w) = (Inl e, (d', w'))"
    | b p d1 w1 where "begin_commit E iv epoch completed tx origin (d, w) = (Inr (b, p), (d1, w1))"
      "ae_write_snapshot E (pc_ticket p) b w1 = (Inl e, w')" "d' = d1\<lparr>rd_pending := Some p\<rparr>"
    | b p d1 w1 w2 where "begin_commit E iv epoch completed tx origin (d, w) = (Inr (b, p), (d1, w1))"
      "finish_pending_commit E (d1\<lparr>rd_pending := Some (p\<lparr>pc_durable := True\<rparr>)\<rparr>, w2) = (Inl e, (d', w'))"
    by (auto simp: publish_state_once_def bind_op_Inl op_simps bind_op_pair_Inr resident_op_Inl)
  then show ?thesis
  proof cases
    case 1
    from leavesD [OF begin_commit_leaves 1] show ?thesis by simp
  next
    case 2
    from leavesD [OF begin_commit_leaves 2(1)] 2(3) begin_commit_Inr [OF 2(1)] show ?thesis
      by (auto simp: standing_def)
  next
    case 3
    note C = begin_commit_Inr [OF 3(1)]
    from finish_durable_Inl [OF 3(2), of "p\<lparr>pc_durable := True\<rparr>"] C
    have "d' = d1\<lparr>rd_pending := Some (p\<lparr>pc_durable := True\<rparr>)\<rparr>" by auto
    with leavesD [OF begin_commit_leaves 3(1)] have "standing d' = standing (d\<lparr>rd_pending := Some (p\<lparr>pc_durable := True\<rparr>)\<rparr>)"
      by (simp add: standing_def)
    with C show ?thesis by (intro disjI2 exI [of _ "p\<lparr>pc_durable := True\<rparr>"]) simp
  qed
qed

section \<open>Completing and retrying an invocation\<close>

lemma publish_completion_some:
  assumes "unpublished d committed = Some tx"
  shows "publish_completion E iv epoch result committed origin (d, w) =
    publish_state_once E iv epoch (Some result) tx origin (d, w)"
  by (simp add: publish_completion_def publish_result_def publish_state_def bind_op_def resident_def assms)

text \<open>What a session with the database \<open>d\<close> knows of a request: its completion is the last
  one installed, or it is the commit that is still to be confirmed.\<close>

definition remembers :: "'v ResidentDatabase \<Rightarrow> string \<Rightarrow> 'v \<Rightarrow> bool" where
  "remembers d request result \<longleftrightarrow>
     (case rd_pending d of
        None \<Rightarrow> replay d request = Some result
      | Some p \<Rightarrow> request_id (pc_snapshot p) = request \<and> completion (pc_snapshot p) = Some result)"

text \<open>The answers to an invocation that do not run it.\<close>

definition answered_with :: "'v \<Rightarrow> 'v PreparedInvocation \<Rightarrow> bool" where
  "answered_with result p \<longleftrightarrow>
     p = InvocationCompleted (Completed result []) \<or> p = InvocationCompleted HostUnavailable \<or>
     p = InvocationCompleted (Failed outcome_unknown_after_execution)"

lemma answer_invocation_Inr:
  "answer_invocation E (Some result) s = (Inr p, s') \<Longrightarrow> answered_with result p"
  unfolding answer_invocation_def answered_with_def op_simps by (metis (no_types, lifting) option.simps(5) sum.case_eq_if)

lemma resolve_pending_remembers:
  assumes r: "resolve_pending E iv True d s = (Inr p, s')" and m: "remembers d (iv_request_id iv) result"
  shows "answered_with result p"
proof -
  obtain c d1 w1 where f: "finish_pending_commit E (d, ds_world s) = (c, (d1, w1))" by (metis surj_pair)
  show ?thesis
  proof (cases c)
    case (Inl e)
    with r f show ?thesis by (simp add: resolve_pending_def answered_with_def)
  next
    case (Inr u)
    with f have f': "finish_pending_commit E (d, ds_world s) = (Inr (), (d1, w1))" by simp
    have "replay d1 (iv_request_id iv) = Some result"
    proof (cases "rd_pending d")
      case None
      with f' have "d1 = d" by (simp add: finish_pending_commit_def bind_op_def resident_def ret_op_def)
      with m None show ?thesis by (simp add: remembers_def)
    next
      case (Some q)
      from finish_pending_Inr [OF f' Some] obtain q' b where "pc_snapshot q' = pc_snapshot q"
        "installed_commit E q' b d1" by blast
      with m Some show ?thesis by (simp add: remembers_def installed_commit_def)
    qed
    with r f Inr have "answer_invocation E (Some result) (s\<lparr>ds_cached := Some d1, ds_world := w1\<rparr>) = (Inr p, s')"
      by (simp add: resolve_pending_def)
    then show ?thesis by (rule answer_invocation_Inr)
  qed
qed

lemma prepare_remembered:
  assumes "prepare_invocation E iv (Some epoch) True s = (Inr p, s')"
    and "\<And>s1 d s2. ds_cached s1 = ds_cached s \<Longrightarrow> take_or_load_state E epoch s1 = (Inr d, s2) \<Longrightarrow>
      remembers d (iv_request_id iv) result"
  shows "answered_with result p"
proof -
  from assms(1) obtain a s1 where a: "try_op (on_world (ae_ensure_authority E)) s = (Inr a, s1)"
    and k: "(case a of Inl _ \<Rightarrow> ret_op (InvocationCompleted HostUnavailable)
       | Inr _ \<Rightarrow> bind_op (take_or_load_state E epoch) (resolve_pending E iv True)) s1 = (Inr p, s')"
    by (auto simp: prepare_invocation_def op_simps)
  from a have c: "ds_cached s1 = ds_cached s" by (auto simp: try_op_def on_world_def split: prod.splits)
  show ?thesis
  proof (cases a)
    case (Inl e)
    with k show ?thesis by (simp add: answered_with_def op_simps)
  next
    case (Inr u)
    with k obtain d s2 where t: "take_or_load_state E epoch s1 = (Inr d, s2)"
      and r: "resolve_pending E iv True d s2 = (Inr p, s')" by (auto simp: op_simps)
    from resolve_pending_remembers [OF r assms(2) [OF c t]] show ?thesis .
  qed
qed

lemma take_cached:
  assumes "take_or_load_state E epoch s = (Inr d, s')" and "ds_cached s = Some d0" and "rd_owner_epoch d0 = epoch"
  shows "d = d0"
  using assms by (simp add: take_or_load_state_def)

text \<open>A session that still has a state after completing an invocation remembers it.\<close>

lemma complete_remembers:
  assumes "complete_invocation E iv (Some epoch) result committed origin s = (r, s')"
    and "ds_cached s = Some d" and "rd_pending d = None" and "unpublished d committed = Some tx"
    and "ds_cached s' = Some d'"
  shows "remembers d' (iv_request_id iv) result \<and> rd_owner_epoch d' = epoch"
proof -
  obtain c d1 w1 where p: "publish_state_once E iv epoch (Some result) tx origin (d, ds_world s) = (c, (d1, w1))"
    by (metis surj_pair)
  from assms(1,2,5) have e: "rd_owner_epoch d = epoch"
    by (auto simp: complete_invocation_def bind_op_def lift_op_def split: if_splits)
  show ?thesis
  proof (cases c)
    case (Inl x)
    with p assms e have c1: "rd_pending d1 \<noteq> None" "d' = d1"
      by (auto simp: complete_invocation_def bind_op_def lift_op_def publish_completion_some split: if_splits)
    from publish_state_once_Inl [of E iv epoch "Some result" tx origin d "ds_world s" x d1 w1] p Inl assms(3) c1(1)
    obtain q where "standing d1 = standing (d\<lparr>rd_pending := Some q\<rparr>)"
      and "commit_of iv epoch (Some result) origin d (pc_snapshot q)" by (auto simp: standing_def)
    with c1 e show ?thesis by (auto simp: standing_def commit_of_def remembers_def)
  next
    case (Inr x)
    with p have p': "publish_state_once E iv epoch (Some result) tx origin (d, ds_world s) = (Inr (), (d1, w1))" by simp
    from assms(1,2,4,5) p' e have "d' = d1"
      by (auto simp: complete_invocation_def bind_op_def lift_op_def ret_op_def on_world_def publish_completion_some
          split: if_splits prod.splits sum.splits)
    with publish_state_once_Inr [OF p'] e show ?thesis
      by (auto simp: installed_commit_def commit_of_def remembers_def)
  qed
qed

text \<open>What is published is written before the completion is confirmed.\<close>

lemma complete_Inr:
  assumes "complete_invocation E iv (Some epoch) result committed origin s = (Inr v, s')"
    and "ds_cached s = Some d" and "unpublished d committed = Some tx"
  shows "\<exists>p b w1 w2 d'. commit_of iv epoch (Some result) origin d (pc_snapshot p) \<and> pc_txid p = tx \<and>
    ticket_for epoch (pc_snapshot p) (pc_ticket p) \<and> v = state_version (pc_snapshot p) \<and>
    (\<exists>x. begin_commit E iv epoch (Some result) tx origin (d, ds_world s) = (Inr x, w1)) \<and>
    ae_write_snapshot E (pc_ticket p) b (snd w1) = (Inr (), w2) \<and> ae_ensure_authority E w2 = (Inr (), ds_world s') \<and>
    ds_cached s' = Some d' \<and> installed_commit E p b d'"
proof -
  obtain c d1 w2 where p: "publish_state_once E iv epoch (Some result) tx origin (d, ds_world s) = (c, (d1, w2))"
    by (metis surj_pair)
  from assms p obtain u where c: "c = Inr u"
    by (cases c) (auto simp: complete_invocation_def bind_op_def lift_op_def publish_completion_some split: if_splits)
  from assms p c have a: "ae_ensure_authority E w2 = (Inr (), ds_world s')" and d: "ds_cached s' = Some d1"
    and v: "v = rd_state_version d1"
    by (auto simp: complete_invocation_def op_simps publish_completion_some split: if_splits)
  from p c have "publish_state_once E iv epoch (Some result) tx origin (d, ds_world s) = (Inr (), (d1, w2))" by simp
  from publish_state_once_Inr [OF this] obtain q b w1 where
    "commit_of iv epoch (Some result) origin d (pc_snapshot q)" "pc_txid q = tx"
    "ticket_for epoch (pc_snapshot q) (pc_ticket q)"
    "\<exists>x. begin_commit E iv epoch (Some result) tx origin (d, ds_world s) = (Inr x, w1)"
    "ae_write_snapshot E (pc_ticket q) b (snd w1) = (Inr (), w2)"
    "installed_commit E q b d1" by blast
  with a d v show ?thesis by (intro exI [of _ q] exI [of _ b] exI [of _ w1] exI [of _ w2] exI [of _ d1])
    (simp add: installed_commit_def)
qed

text \<open>A database restored from a commit remembers its completion.\<close>

lemma load_cached_remembers:
  assumes "load_cached E epoch version b w = (Inr d, w')" and "snapshot_decode (ae_json E) b = Inr c"
    and "completion c = Some result"
  shows "remembers d (request_id c) result \<and> rd_owner_epoch d = epoch \<and> rd_state_version d = version"
  using assms
  by (auto simp: load_cached_def resident_open_def op_simps remembers_def replay_def set_completion_def)

section \<open>A store that keeps what it confirms\<close>

text \<open>What the session relies on: a confirmed write is stored under the name of its ticket, and
  the steps before it and the check after it do not get in the way.\<close>

locale durable_writer =
  fixes E :: "('w, 'v) actor_env"
    and winv :: "'w \<Rightarrow> bool"
    and stored :: "'w \<Rightarrow> string \<rightharpoonup> bytes"
  assumes write_stored: "winv w \<Longrightarrow> ae_write_snapshot E plan b w = (Inr (), w') \<Longrightarrow>
      stored w' (wp_object_name plan) = Some b"
    and prepare_winv: "winv w \<Longrightarrow> ae_prepare_state_write E epoch v w = (r, w') \<Longrightarrow> winv w'"
    and prune_winv: "winv w \<Longrightarrow> ae_prune E path tx w = (u, w') \<Longrightarrow> winv w'"
    and millis_winv: "winv w \<Longrightarrow> ae_unix_millis E w = (ms, w') \<Longrightarrow> winv w'"
    and authority_stored: "ae_ensure_authority E w = (u, w') \<Longrightarrow> stored w' = stored w"
begin

abbreviation keeps_winv :: "('w, 'v, 'a) resident_op \<Rightarrow> bool" where
  "keeps_winv m \<equiv> only_adds (\<lambda>(d, w). winv w) (\<lambda>_. Map.empty :: unit \<rightharpoonup> unit) m"

lemma keeps_winv_outside:
  "(\<And>w r w'. winv w \<Longrightarrow> m w = (r, w') \<Longrightarrow> winv w') \<Longrightarrow> keeps_winv (outside m)"
  by (auto simp: keeps_def outside_def split: prod.splits)

lemma keeps_winv_basic: "keeps_winv resident" "keeps_winv (change f)"
  by (auto simp: keeps_def resident_def change_def)

lemma keeps_winv_capture: "keeps_winv (capture_sqlite E tx)"
proof -
  have "keeps_winv (\<lambda>(d, w). case capture E tx (rd_sqlite d, w) of (r, (c, w)) \<Rightarrow> (r, (d\<lparr>rd_sqlite := c\<rparr>, w)))"
    using prune_winv
    by (auto simp: keeps_def capture_def split: prod.splits sum.splits)
  then show ?thesis unfolding capture_sqlite_def by (intro adds_rules keeps_winv_basic)
qed

lemma keeps_winv_ticket: "keeps_winv (write_ticket E epoch nxt)"
  unfolding write_ticket_def Let_def
  by (intro adds_rules keeps_winv_basic keeps_winv_outside) (erule (1) prepare_winv)+

lemma keeps_winv_begin: "keeps_winv (begin_commit E iv epoch completed tx origin)"
  unfolding begin_commit_def
  by (intro adds_rules keeps_winv_basic keeps_winv_ticket keeps_winv_capture keeps_winv_outside)
    (erule (1) millis_winv)

text \<open>The commit of a completed invocation is stored, with the result of the invocation.\<close>

lemma completed_is_stored:
  assumes c: "complete_invocation E iv (Some epoch) result committed origin s = (Inr v, s')"
    and d: "ds_cached s = Some d" and u: "unpublished d committed = Some tx" and w: "winv (ds_world s)"
  shows "\<exists>obj b c. stored (ds_world s') obj = Some b \<and> snapshot_encode (ae_json E) c = Inr b \<and>
    commit_of iv epoch (Some result) origin d c \<and> state_version c = v"
proof -
  from complete_Inr [OF c d u] obtain p b w1 w2 x d' where
    p: "commit_of iv epoch (Some result) origin d (pc_snapshot p)" "v = state_version (pc_snapshot p)"
    and x: "begin_commit E iv epoch (Some result) tx origin (d, ds_world s) = (Inr x, w1)"
    and wr: "ae_write_snapshot E (pc_ticket p) b (snd w1) = (Inr (), w2)"
    and a: "ae_ensure_authority E w2 = (Inr (), ds_world s')"
    and i: "installed_commit E p b d'"
    by (elim exE conjE) (rule that)
  from keepsD(1) [OF keeps_winv_begin _ x] w have "winv (snd w1)" by (simp add: case_prod_beta)
  from write_stored [OF this wr] authority_stored [OF a] p i show ?thesis
    by (auto simp: installed_commit_def)
qed

end

end
