(* ===== verification/Host_Storage.thy ===== *)
theory Host_Storage
  imports Actor_Session Runtime_Storage
begin

text \<open>
  The storage of a host (\<open>host/storage.rs\<close>, \<open>host/persistence.rs\<close>): the runtime
  storage of its one actor behind a fence. \<open>LeaseFence\<close> (\<open>control_plane/client.rs\<close>)
  is a deadline on the monotonic clock of the process; it lies five seconds before the end of the
  lease, counted from before the request for it was sent, and once it has passed the session is
  fenced for good. The n-th reading of the monotonic clock is \<open>he_instant\<close>, in
  milliseconds. What belongs to the process but not to the storage (SQLite, replication, the
  control plane with its alarms) is \<open>local_env\<close>, operations on a state of their own;
  \<open>he_restore_prefetched\<close> is the operation of that name of the snapshot store. The deadlines
  of a shutdown are left out. A passed check of authority is tied to the lease of the bucket, and
  the session of an actor is shown to keep its completed invocations on this storage.
\<close>

section \<open>The fence\<close>

record LeaseFence =
  lf_deadline :: "nat option"
  lf_fenced :: bool

definition fence_default :: LeaseFence where
  "fence_default = \<lparr>lf_deadline = None, lf_fenced = False\<rparr>"

definition fence_check :: "nat \<Rightarrow> (LeaseFence, unit) op" where
  "fence_check now f =
     (case lf_deadline f of
        None \<Rightarrow> (Inl ''host lease is not confirmed yet'', f)
      | Some deadline \<Rightarrow>
          (let f = (if deadline \<le> now then f\<lparr>lf_fenced := True\<rparr> else f)
           in (ensure (\<not> lf_fenced f) ''host session has no confirmed live lease'' (Inr ()), f)))"

definition fence_begin :: "nat \<Rightarrow> (LeaseFence, unit) op" where
  "fence_begin now f =
     bind_op (if lf_deadline f \<noteq> None then fence_check now else ret_op ()) (\<lambda>_ f.
     (ensure (\<not> lf_fenced f) ''host session is permanently fenced'' (Inr ()), f)) f"

definition fence_confirm :: "nat \<Rightarrow> nat \<Rightarrow> nat \<Rightarrow> (LeaseFence, unit) op" where
  "fence_confirm started duration now =
     bind_op (fence_begin now) (\<lambda>_ f.
     let deadline = started + (duration - 5000);
         f = (if deadline \<le> now then f\<lparr>lf_fenced := True\<rparr> else f)
     in if lf_fenced f then (Inl ''host lease response arrived after the safe lease window'', f)
        else (Inr (), f\<lparr>lf_deadline := Some deadline\<rparr>))"

section \<open>The state of a host\<close>

record 'l local_env =
  le_get_alarm :: "('l, int option) op"
  le_update_alarm :: "int option \<Rightarrow> ('l, unit) op"
  le_tempdir :: "('l, string) op"
  le_create_tables :: "string \<Rightarrow> ('l, unit) op"
  le_restore :: "LtxFile list \<Rightarrow> string \<Rightarrow> u64 \<Rightarrow> ('l, unit) op"
  le_register :: "string \<Rightarrow> u64 option \<Rightarrow> u64 option \<Rightarrow> ('l, u64) op"
  le_sync :: "string \<Rightarrow> ('l, u64) op"
  le_replica :: "string \<Rightarrow> 'l \<Rightarrow> replica_dir"
  le_prune :: "string \<Rightarrow> u64 \<Rightarrow> ('l, unit) op"
  le_db_open :: "string \<Rightarrow> ('l, unit) op"
  le_db_call :: "string \<Rightarrow> DatabaseCall \<Rightarrow> ('l, Executed) op"
  le_unix_millis :: "('l, u64) op"

record ('s, 'l, 'v) host_env =
  he_runtime :: "('s, 'v) runtime_env"
  he_local :: "'l local_env"
  he_restore_prefetched :: "string \<Rightarrow> bytes \<Rightarrow> PrefetchedCheckpoint option \<Rightarrow> ('s, SqliteSnapshot) op"
  he_instant :: "nat \<Rightarrow> nat"
  he_host :: HostId
  he_session :: string
  he_region :: string
  he_actor :: ActorKey
  he_new_actor :: bool
  he_owner_hint :: "OwnershipHint option"

record ('s, 'l) host_world =
  hw_runtime :: "'s runtime"
  hw_local :: 'l
  hw_stopped :: bool
  hw_activation :: "ActorActivation option"
  hw_checkpoint :: "PrefetchedCheckpoint option"
  hw_fence :: LeaseFence
  hw_lease :: "HostLease option"
  hw_reading :: nat

type_synonym ('s, 'l, 'a) host_op = "(('s, 'l) host_world, 'a) op"

definition on_runtime :: "('s runtime, 'a) op \<Rightarrow> ('s, 'l, 'a) host_op" where
  "on_runtime m w = (case m (hw_runtime w) of (r, t) \<Rightarrow> (r, w\<lparr>hw_runtime := t\<rparr>))"

definition on_local :: "('l, 'a) op \<Rightarrow> ('s, 'l, 'a) host_op" where
  "on_local m w = (case m (hw_local w) of (r, l) \<Rightarrow> (r, w\<lparr>hw_local := l\<rparr>))"

definition on_fence :: "(LeaseFence, 'a) op \<Rightarrow> ('s, 'l, 'a) host_op" where
  "on_fence m w = (case m (hw_fence w) of (r, f) \<Rightarrow> (r, w\<lparr>hw_fence := f\<rparr>))"

definition instant_now :: "('s, 'l, 'v) host_env \<Rightarrow> ('s, 'l, nat) host_op" where
  "instant_now H w = (Inr (he_instant H (hw_reading w)), w\<lparr>hw_reading := Suc (hw_reading w)\<rparr>)"

section \<open>The operations of the storage\<close>

definition ensure_authority :: "('s, 'l, 'v) host_env \<Rightarrow> ('s, 'l, unit) host_op" where
  "ensure_authority H w =
     (if hw_stopped w then (Inl ''host session is permanently fenced'', w)
      else bind_op (instant_now H) (\<lambda>now. on_fence (fence_check now)) w)"

definition held_lease :: "string \<Rightarrow> ('s, 'l, HostLease) host_op" where
  "held_lease msg w = (context_opt msg (hw_lease w), w)"

definition current_lease :: "('s, 'l, 'v) host_env \<Rightarrow> ('s, 'l, HostLease) host_op" where
  "current_lease H = bind_op (ensure_authority H) (\<lambda>_. held_lease ''activation lease missing'')"

definition get_alarm :: "('s, 'l, 'v) host_env \<Rightarrow> ('s, 'l, int option) host_op" where
  "get_alarm H =
     bind_op (ensure_authority H) (\<lambda>_.
     bind_op (on_local (le_get_alarm (he_local H))) (\<lambda>at.
     bind_op (ensure_authority H) (\<lambda>_. ret_op at)))"

definition update_alarm :: "('s, 'l, 'v) host_env \<Rightarrow> int option \<Rightarrow> ('s, 'l, unit) host_op" where
  "update_alarm H at =
     bind_op (ensure_authority H) (\<lambda>_.
     bind_op (on_local (le_update_alarm (he_local H) at)) (\<lambda>_. ensure_authority H))"

definition FULL_SNAPSHOT_INTERVAL :: u64 where "FULL_SNAPSHOT_INTERVAL = 60000"

definition full_snapshots :: "('s, 'l, 'v) host_env \<Rightarrow> u64 option" where
  "full_snapshots H =
     (case rapid_settings (re_persistence (he_runtime H)) of
        Some _ \<Rightarrow> None
      | None \<Rightarrow> Some FULL_SNAPSHOT_INTERVAL)"

definition resume_parent :: "('s, 'l, 'v) host_env \<Rightarrow> 'v StateSnapshot \<Rightarrow> bytes \<Rightarrow> SnapshotRef option result" where
  "resume_parent H snapshot b =
     (if rapid_settings (re_persistence (he_runtime H)) = None then Inr None
      else
        rbind (snapshot_object_name (re_crypto (he_runtime H)) (he_actor H) (state_version snapshot)
                 (show_u64_032x (owner_epoch snapshot))) (\<lambda>obj.
        Inr (Some (snapshot_ref_new (re_crypto (he_runtime H)) obj snapshot b))))"

definition loaded_activation :: "LoadedActor \<Rightarrow> ActorActivation" where
  "loaded_activation loaded =
     \<lparr>aa_owner_epoch = op_owner_epoch (la_placement loaded),
      aa_state_version = op_state_version (la_placement loaded), aa_state = la_state loaded\<rparr>"

definition acquire_actor :: "('s, 'l, 'v) host_env \<Rightarrow> ('s, 'l, ActorActivation) host_op" where
  "acquire_actor H =
     bind_op (ensure_authority H) (\<lambda>_ w.
     case hw_activation w of
       Some a \<Rightarrow> (Inr a, w\<lparr>hw_activation := None\<rparr>)
     | None \<Rightarrow>
         bind_op (held_lease ''host lease missing'') (\<lambda>lease.
         bind_op (on_runtime (activate_actor (he_runtime H) (he_actor H) lease (he_region H))) (\<lambda>loaded.
         bind_op (ensure_authority H) (\<lambda>_. ret_op (loaded_activation loaded)))) w)"

definition load_actor_state :: "('s, 'l, 'v) host_env \<Rightarrow> u64 \<Rightarrow> ('s, 'l, u64 \<times> bytes) host_op" where
  "load_actor_state H epoch =
     bind_op (ensure_authority H) (\<lambda>_.
     bind_op (held_lease ''host lease missing'') (\<lambda>lease.
     bind_op (on_runtime (load_owned_actor (he_runtime H) (he_actor H) lease epoch)) (\<lambda>loaded.
     bind_op (ensure_authority H) (\<lambda>_.
     ret_op (op_state_version (la_placement loaded), case la_state loaded of None \<Rightarrow> [] | Some b \<Rightarrow> b)))))"

definition host_read_sqlite :: "('s, 'l, 'v) host_env \<Rightarrow> bytes \<Rightarrow> ('s, 'l, SqliteSnapshot) host_op" where
  "host_read_sqlite H b =
     bind_op (ensure_authority H) (\<lambda>_.
     bind_op (lift_op (snapshot_decode (re_json (he_runtime H)) b)) (\<lambda>snapshot.
     bind_op (lift_op (snapshot_object_name (re_crypto (he_runtime H)) (he_actor H) (state_version snapshot)
       (show_u64_032x (owner_epoch snapshot)))) (\<lambda>obj w.
     on_runtime (on_store (he_restore_prefetched H obj b (hw_checkpoint w))) (w\<lparr>hw_checkpoint := None\<rparr>))))"

definition prepare_state_write :: "('s, 'l, 'v) host_env \<Rightarrow> u64 \<Rightarrow> u64 \<Rightarrow> ('s, 'l, WritePlan) host_op" where
  "prepare_state_write H epoch v =
     bind_op (ensure_authority H) (\<lambda>_.
     bind_op (held_lease ''host lease missing'') (\<lambda>lease.
     bind_op (lift_op (context_opt ''state version overflow'' (checked_add v 1))) (\<lambda>nxt.
     bind_op (on_runtime (prepare_actor_write (he_runtime H) (he_actor H) lease epoch nxt)) (\<lambda>ticket.
     bind_op (ensure_authority H) (\<lambda>_. ret_op ticket)))))"

text \<open>A write that is not confirmed stops the session: the guard cancels its token.\<close>

definition persist_snapshot :: "('s, 'l, 'v) host_env \<Rightarrow> WritePlan \<Rightarrow> bytes \<Rightarrow> ('s, 'l, unit) host_op" where
  "persist_snapshot H plan b =
     bind_op (ensure_authority H) (\<lambda>_ w.
     case bind_op (on_runtime (write_snapshot (he_runtime H) plan b)) (\<lambda>_. ensure_authority H) w of
       (Inl e, w) \<Rightarrow> (Inl e, w\<lparr>hw_stopped := True\<rparr>)
     | (Inr _, w) \<Rightarrow> (Inr (), w))"

definition first_registration ::
    "('s, 'l, 'v) host_env \<Rightarrow> HostLeaseRequest \<Rightarrow> ('s, 'l, HostLease) host_op" where
  "first_registration H request =
     bind_op (on_runtime (register_activation (he_runtime H) (he_actor H) request (he_region H) (he_new_actor H)
       (he_owner_hint H))) (\<lambda>loaded w.
     (Inr (op_lease (la_placement loaded)),
      w\<lparr>hw_checkpoint := la_checkpoint loaded, hw_activation := Some (loaded_activation loaded)\<rparr>))"

definition host_register :: "('s, 'l, 'v) host_env \<Rightarrow> HostLeaseRequest \<Rightarrow> ('s, 'l, HostLease) host_op" where
  "host_register H request =
     ensure_op (hr_id request = he_host H \<and> hr_session_id request = he_session H) ''host lease scope mismatch'' (
     bind_op (instant_now H) (\<lambda>started.
     bind_op (on_fence (fence_begin started)) (\<lambda>_ w.
     bind_op (if hw_lease w = None then first_registration H request
              else on_runtime (renew_activation (he_runtime H) (he_actor H) request)) (\<lambda>lease.
     bind_op (instant_now H) (\<lambda>now.
     bind_op (on_fence (fence_confirm started (unat (hr_duration_ms request)) now)) (\<lambda>_ w.
     (Inr lease, w\<lparr>hw_lease := Some lease\<rparr>)))) w)))"

definition host_finish :: "('s, 'l, 'v) host_env \<Rightarrow> ('s, 'l, unit) host_op" where
  "host_finish H =
     bind_op (try_op (on_runtime (drain_activation (he_runtime H) (he_actor H) (he_host H) (he_session H)))) (\<lambda>drained.
     bind_op (\<lambda>w. (Inr (), w\<lparr>hw_fence := (hw_fence w)\<lparr>lf_fenced := True\<rparr>\<rparr>)) (\<lambda>_.
     on_runtime (release_with_checkpoint (he_runtime H) (he_actor H) (he_host H) (he_session H)
       (case drained of Inl _ \<Rightarrow> None | Inr checkpoint \<Rightarrow> Some checkpoint))))"

definition host_unregister :: "('s, 'l, 'v) host_env \<Rightarrow> HostId \<Rightarrow> string \<Rightarrow> ('s, 'l, unit) host_op" where
  "host_unregister H host session =
     ensure_op (host = he_host H \<and> session = he_session H) ''host lease scope mismatch'' (host_finish H)"

text \<open>The traits that the database session of the actor is given.\<close>

definition actor_storage :: "('s, 'l, 'v) host_env \<Rightarrow> (('s, 'l) host_world, 'v) actor_env" where
  "actor_storage H =
     \<lparr>ae_crypto = re_crypto (he_runtime H), ae_json = re_json (he_runtime H),
      ae_ensure_authority = ensure_authority H, ae_acquire_actor = acquire_actor H,
      ae_load_actor_state = load_actor_state H, ae_read_sqlite = host_read_sqlite H,
      ae_get_alarm = get_alarm H, ae_update_alarm = update_alarm H,
      ae_prepare_state_write = prepare_state_write H, ae_full_snapshots = full_snapshots H,
      ae_resume_parent = resume_parent H, ae_write_snapshot = persist_snapshot H,
      ae_tempdir = on_local (le_tempdir (he_local H)),
      ae_create_tables = (\<lambda>path. on_local (le_create_tables (he_local H) path)),
      ae_restore = (\<lambda>fs path tx. on_local (le_restore (he_local H) fs path tx)),
      ae_register = (\<lambda>path full resume. on_local (le_register (he_local H) path full resume)),
      ae_sync = (\<lambda>path. on_local (le_sync (he_local H) path)),
      ae_replica = (\<lambda>path w. le_replica (he_local H) path (hw_local w)),
      ae_prune = (\<lambda>path tx. on_local (le_prune (he_local H) path tx)),
      ae_db_open = (\<lambda>path. on_local (le_db_open (he_local H) path)),
      ae_db_call = (\<lambda>path call. on_local (le_db_call (he_local H) path call)),
      ae_unix_millis = on_local (le_unix_millis (he_local H))\<rparr>"

section \<open>The fence holds until its deadline\<close>

lemma fence_check_Inr:
  "fence_check now f = (Inr (), f') \<longleftrightarrow> (\<exists>deadline. lf_deadline f = Some deadline \<and> now < deadline \<and> \<not> lf_fenced f \<and> f' = f)"
  by (auto simp: fence_check_def Let_def result_simps split: option.splits if_splits)

lemma fence_confirm_Inr:
  assumes "fence_confirm started duration now f = (Inr (), f')"
  shows "lf_deadline f' = Some (started + (duration - 5000)) \<and> now < started + (duration - 5000)"
  using assms by (auto simp: fence_confirm_def bind_op_Inr Let_def split: if_splits)

lemma host_op_Inr [op_simps]:
  "on_runtime m w = (Inr x, w') \<longleftrightarrow> (\<exists>t. m (hw_runtime w) = (Inr x, t) \<and> w' = w\<lparr>hw_runtime := t\<rparr>)"
  "on_fence f w = (Inr y, w') \<longleftrightarrow> (\<exists>g. f (hw_fence w) = (Inr y, g) \<and> w' = w\<lparr>hw_fence := g\<rparr>)"
  "instant_now H w = (Inr n, w') \<longleftrightarrow> n = he_instant H (hw_reading w) \<and> w' = w\<lparr>hw_reading := Suc (hw_reading w)\<rparr>"
  by (auto simp: on_runtime_def on_fence_def instant_now_def split: prod.splits)

lemma ensure_authority_Inr:
  assumes "ensure_authority H w = (Inr (), w')"
  shows "\<exists>deadline. lf_deadline (hw_fence w) = Some deadline \<and> he_instant H (hw_reading w) < deadline"
  using assms by (auto simp: ensure_authority_def op_simps fence_check_Inr split: if_splits)

lemma ensure_authority_runtime: "ensure_authority H w = (r, w') \<Longrightarrow> hw_runtime w' = hw_runtime w"
  by (auto simp: ensure_authority_def bind_op_def instant_now_def on_fence_def split: if_splits prod.splits)

section \<open>The store behind the session\<close>

text \<open>On a bucket that keeps its promises, the storage of a host is one that a session can rely
  on.\<close>

locale host_laws = bucket_laws +
  fixes H :: "('s, 'l, 'v) host_env"
  assumes host_env_on: "env_on B (he_runtime H)"
begin

lemma persist_snapshot_stored:
  assumes i: "inv (rt_store (hw_runtime w))" and p: "persist_snapshot H plan b w = (Inr (), w')"
  shows "map_option obj_bytes (view (rt_store (hw_runtime w')) (wp_object_name plan)) = Some b"
proof -
  from p obtain x w1 where a1: "ensure_authority H w = (Inr x, w1)"
    and k: "(case bind_op (on_runtime (write_snapshot (he_runtime H) plan b)) (\<lambda>_. ensure_authority H) w1 of
       (Inl e, w) \<Rightarrow> (Inl e, w\<lparr>hw_stopped := True\<rparr>) | (Inr _, w) \<Rightarrow> (Inr (), w)) = (Inr (), w')"
    unfolding persist_snapshot_def bind_op_Inr by blast
  obtain r w2 where r: "bind_op (on_runtime (write_snapshot (he_runtime H) plan b)) (\<lambda>_. ensure_authority H) w1 = (r, w2)"
    by (metis surj_pair)
  with k have "r = Inr ()" "w2 = w'" by (cases r; simp)+
  with r obtain t where t: "write_snapshot (he_runtime H) plan b (hw_runtime w1) = (Inr (), t)"
    and a2: "ensure_authority H (w1\<lparr>hw_runtime := t\<rparr>) = (Inr (), w')"
    by (auto simp: op_simps)
  from ensure_authority_runtime [OF a1] i have "inv (rt_store (hw_runtime w1))" by simp
  from stored_write [OF host_env_on this t] ensure_authority_runtime [OF a2] show ?thesis by auto
qed

lemma prepare_state_write_runtime:
  assumes "prepare_state_write H epoch v w = (r, w')"
  shows "hw_runtime w' = hw_runtime w"
proof -
  let ?I = "\<lambda>u. hw_runtime u = hw_runtime w"
  have a: "only_adds ?I (\<lambda>_. Map.empty :: unit \<rightharpoonup> unit) (ensure_authority H)"
    using ensure_authority_runtime [of H] by (simp add: keeps_def)
  have l: "only_adds ?I (\<lambda>_. Map.empty :: unit \<rightharpoonup> unit) (held_lease msg)" for msg
    unfolding held_lease_def by (rule adds_read)
  have p: "only_adds ?I (\<lambda>_. Map.empty :: unit \<rightharpoonup> unit) (on_runtime (prepare_actor_write E actor lease e n))"
    for E actor lease e n
    by (simp add: keeps_def on_runtime_def prepare_actor_write_def)
  have "only_adds ?I (\<lambda>_. Map.empty :: unit \<rightharpoonup> unit) (prepare_state_write H epoch v)"
    unfolding prepare_state_write_def by (intro adds_rules a l p)
  from keepsD(1) [OF this _ assms] show ?thesis by simp
qed

end

sublocale host_laws \<subseteq> writer: durable_writer "actor_storage H" "\<lambda>w. inv (rt_store (hw_runtime w))"
  "\<lambda>w k. map_option obj_bytes (view (rt_store (hw_runtime w)) k)"
proof (unfold_locales, goal_cases)
  case (1 w plan b w')
  then show ?case by (intro persist_snapshot_stored) (simp_all add: actor_storage_def)
next
  case (2 w epoch v r w')
  then show ?case using prepare_state_write_runtime [of epoch v w r w'] by (simp add: actor_storage_def)
next
  case (5 w u w')
  then show ?case using ensure_authority_runtime [of H w u w'] by (simp add: actor_storage_def)
qed (auto simp: actor_storage_def on_local_def split: prod.splits)

context host_laws
begin

lemmas host_completed_is_stored = writer.completed_is_stored

end

section \<open>Time passes\<close>

text \<open>Operations of the runtime storage never go back in the readings of the clock.\<close>

definition forward :: "('s runtime, 'a) op \<Rightarrow> bool" where
  "forward m \<longleftrightarrow> (\<forall>s r s'. m s = (r, s') \<longrightarrow> rt_tick s \<le> rt_tick s')"

named_theorems forwards

lemma forwardD: "forward m \<Longrightarrow> m s = (r, s') \<Longrightarrow> rt_tick s \<le> rt_tick s'"
  unfolding forward_def by blast

lemma forward_bind [forwards]:
  assumes "forward m" "\<And>x. forward (f x)"
  shows "forward (bind_op m f)"
  unfolding forward_def
proof (intro allI impI)
  fix s r s' assume "bind_op m f s = (r, s')"
  then consider e where "m s = (Inl e, s')" | x t where "m s = (Inr x, t)" "f x t = (r, s')"
    by (auto simp: bind_op_def split: prod.splits sum.splits)
  then show "rt_tick s \<le> rt_tick s'"
    by cases (use forwardD [OF assms(1)] forwardD [OF assms(2)] le_trans in blast)+
qed

lemma forward_basic [forwards]:
  "forward (ret_op x)" "forward (lift_op r)" "forward (ask f)" "forward (now_ms E)"
  "forward (read_store g)" "forward (on_store h)" "forward (remember q l)"
  by (auto simp: forward_def ret_op_def lift_op_def ask_def now_ms_def read_store_def on_store_def remember_def Let_def
      split: prod.splits option.splits)

lemma forward_ensure [forwards]: "forward m \<Longrightarrow> forward (ensure_op c msg m)"
  by (auto simp: forward_def ensure_op_def)

lemma forward_try [forwards]: "forward m \<Longrightarrow> forward (try_op m)"
  by (auto simp: forward_def try_op_def split: prod.splits)

lemma forward_cases [forwards]:
  "forward m \<Longrightarrow> forward n \<Longrightarrow> forward (if c then m else n)"
  "forward k \<Longrightarrow> (\<And>y. forward (l y)) \<Longrightarrow> forward (case x of None \<Rightarrow> k | Some y \<Rightarrow> l y)"
  "(\<And>y. forward (p y)) \<Longrightarrow> (\<And>y. forward (q y)) \<Longrightarrow> forward (case z of Inl y \<Rightarrow> p y | Inr y \<Rightarrow> q y)"
  "(\<And>a b. forward (f a b)) \<Longrightarrow> forward (case v of (a, b) \<Rightarrow> f a b)"
  by (cases x; cases z; cases v; simp)+

lemma forward_load [forwards]: "forward (load E k)"
  unfolding load_def by (intro forwards)

lemma forward_load_latest [forwards]: "forward (load_latest E r l)"
  unfolding load_latest_def by (intro forwards)

lemma forward_recover [forwards]: "forward (recover_activation E prev)"
  unfolding recover_activation_def recover_sealed_activation_def load_activation_snapshot_def
    prefetch_activation_checkpoint_def
  by (intro forwards)

lemma forward_replace [forwards]: "forward (replace_activation E r gen)"
  unfolding replace_activation_def Let_def by (intro forwards)

lemma forward_release [forwards]: "forward (release_with_checkpoint E actor host session cp)"
proof -
  have "forward (release_attempts n E actor host session cp)" for n
    by (induction n) (auto intro!: forwards)
  then show ?thesis by (simp add: release_with_checkpoint_def)
qed

lemma forward_claim [forwards]: "forward (claim_and_recover E current r)"
  unfolding claim_and_recover_def Let_def by (intro forwards)

lemma forward_attempt [forwards]: "forward (activation_attempt E actor request region skip_read hint)"
  unfolding activation_attempt_def activation_current_def activation_outcome_def adopt_activation_def
  by (intro forwards)

section \<open>The lease behind the fence\<close>

lemma claim_lease:
  assumes "claim_and_recover E current r s = (Inr (recovery, ok, r'), s')"
  shows "ow_lease r' = ow_lease r"
  using assms
  by (auto simp: claim_and_recover_def op_simps replace_activation_def Let_def split: if_splits)

lemma adopt_lease:
  assumes "adopt_activation E actor request recovery r s = (Inr loaded, s')"
  shows "op_lease (la_placement loaded) = ow_lease r"
  using assms
  by (auto simp: adopt_activation_def op_simps remember_def Let_def apply_snapshot_def placement_def
      split: sum.splits option.splits)

lemma attempt_lease:
  assumes "activation_attempt E actor request region skip_read hint s = (Inr (Some loaded), s')"
  shows "\<exists>n \<ge> rt_tick s. new_lease (re_now E n) request = Inr (op_lease (la_placement loaded))"
proof -
  from assms obtain current s1 r recovery ok r' s2 where
    c: "activation_current E actor skip_read hint s = (Inr current, s1)"
    and r: "activation_record (re_persistence E) (re_now E (Suc (rt_tick s1))) actor request region
      (map_option snd current) = Inr r"
    and cl: "claim_and_recover E current r (s1\<lparr>rt_tick := Suc (Suc (rt_tick s1))\<rparr>) = (Inr (recovery, ok, r'), s2)"
    and o: "activation_outcome E actor request hint (recovery, ok, r') s2 = (Inr (Some loaded), s')"
    by (auto simp: activation_attempt_def op_simps)
  have "forward (activation_current E actor skip_read hint)"
    unfolding activation_current_def by (intro forwards)
  from forwardD [OF this c] have "rt_tick s \<le> Suc (rt_tick s1)" by simp
  moreover from r have "new_lease (re_now E (Suc (rt_tick s1))) request = Inr (ow_lease r)"
    by (auto simp: activation_record_def result_simps)
  moreover from o have "op_lease (la_placement loaded) = ow_lease r'"
    by (auto simp: activation_outcome_def op_simps dest: adopt_lease split: if_splits)
  ultimately show ?thesis using claim_lease [OF cl] by auto
qed

lemma activation_loop_lease:
  assumes "activation_loop E actor request region skip hint s = (Inr loaded, s')"
  shows "\<exists>n \<ge> rt_tick s. new_lease (re_now E n) request = Inr (op_lease (la_placement loaded))"
proof -
  from assms obtain x t where a: "activation_attempt E actor request region skip hint s = (Inr x, t)"
    and k: "(case x of Some loaded \<Rightarrow> ret_op loaded
     | None \<Rightarrow> bind_op (activation_attempt E actor request region skip None) (\<lambda>second.
         case second of Some loaded \<Rightarrow> ret_op loaded
         | None \<Rightarrow> lift_op (Inl ''actor activation changed concurrently''))) t = (Inr loaded, s')"
    unfolding activation_loop_def bind_op_Inr by blast
  show ?thesis
  proof (cases x)
    case None
    with k obtain y u where y: "activation_attempt E actor request region skip None t = (Inr y, u)"
      and k2: "(case y of Some loaded \<Rightarrow> ret_op loaded
        | None \<Rightarrow> lift_op (Inl ''actor activation changed concurrently'')) u = (Inr loaded, s')"
      by (auto simp: bind_op_Inr)
    from k2 have "y = Some loaded" by (cases y) (simp_all add: op_simps)
    with y have "activation_attempt E actor request region skip None t = (Inr (Some loaded), u)" by simp
    from attempt_lease [OF this] forwardD [OF forward_attempt a] show ?thesis by (metis le_trans)
  next
    case (Some l)
    with k a have "activation_attempt E actor request region skip hint s = (Inr (Some loaded), t)"
      by (simp add: op_simps)
    from attempt_lease [OF this] show ?thesis .
  qed
qed

lemma register_lease:
  assumes "register_activation E actor request region new_actor owner_hint s = (Inr loaded, s')"
  shows "\<exists>n \<ge> rt_tick s. new_lease (re_now E n) request = Inr (op_lease (la_placement loaded))"
proof -
  from assms obtain skip hint where
    "activation_loop E actor request region skip hint (s\<lparr>rt_tick := Suc (rt_tick s)\<rparr>) = (Inr loaded, s')"
    unfolding register_activation_def Let_def bind_op_Inr lift_op_Inr runtime_op_Inr by blast
  from activation_loop_lease [OF this] show ?thesis by (auto intro: Suc_leD)
qed

lemma renew_lease:
  assumes "renew_activation E actor request s = (Inr lease, s')"
  shows "\<exists>n \<ge> rt_tick s. new_lease (re_now E n) request = Inr lease"
proof -
  from assms obtain x s1 g r where l: "load E (storage_key actor) s = (Inr x, s1)"
    and b: "bind_op (now_ms E) (\<lambda>now. bind_op (lift_op (renewal_check now actor request r)) (\<lambda>_.
     bind_op (now_ms E) (\<lambda>now.
     bind_op (lift_op (new_lease now request)) (\<lambda>lease.
     bind_op (save_activation E (r\<lparr>ow_lease := lease\<rparr>) (Some g)) (\<lambda>r.
     (\<lambda>s. case rt_owned s (as_str (storage_key actor)) of
            None \<Rightarrow> (Inr lease, s)
          | Some own \<Rightarrow>
              if ow_epoch own = ow_epoch r
              then (Inr lease, s\<lparr>rt_owned := (rt_owned s)(as_str (storage_key actor) \<mapsto> own\<lparr>ow_lease := lease\<rparr>)\<rparr>)
              else (Inl ''local ownership epoch changed'', s))))))) s1 = (Inr lease, s')"
    unfolding renew_activation_def by (auto simp: bind_op_Inr [of "load E (storage_key actor)"] bind_op_Inr [of "lift_op (context_opt _ _)"]
      lift_op_Inr ensure_op_Inr)
  from b have n: "new_lease (re_now E (Suc (rt_tick s1))) request = Inr lease"
    by (auto simp: bind_op_Inr runtime_op_Inr lift_op_Inr split: option.splits if_splits)
  from forwardD [OF forward_load l] n show ?thesis by (intro exI [of _ "Suc (rt_tick s1)"]) simp
qed

lemma host_register_Inr:
  assumes "host_register H request w = (Inr lease, w')" and "mono (he_instant H)"
  shows "(\<exists>n \<ge> rt_tick (hw_runtime w). new_lease (re_now (he_runtime H) n) request = Inr lease) \<and>
    lf_deadline (hw_fence w') = Some (he_instant H (hw_reading w) + (unat (hr_duration_ms request) - 5000)) \<and>
    5000 < unat (hr_duration_ms request)"
proof -
  let ?started = "he_instant H (hw_reading w)"
  from assms(1) obtain g w2 f where
    l: "(if hw_lease w = None then first_registration H request
      else on_runtime (renew_activation (he_runtime H) (he_actor H) request))
      (w\<lparr>hw_reading := Suc (hw_reading w), hw_fence := g\<rparr>) = (Inr lease, w2)"
    and f: "fence_confirm ?started (unat (hr_duration_ms request)) (he_instant H (hw_reading w2)) (hw_fence w2) = (Inr (), f)"
    and e: "hw_fence w' = f"
    unfolding host_register_def by (auto simp: op_simps)
  have "\<exists>n \<ge> rt_tick (hw_runtime w). new_lease (re_now (he_runtime H) n) request = Inr lease"
  proof (cases "hw_lease w = None")
    case True
    with l obtain loaded u where
      "register_activation (he_runtime H) (he_actor H) request (he_region H) (he_new_actor H) (he_owner_hint H)
        (hw_runtime w) = (Inr loaded, u)" "lease = op_lease (la_placement loaded)"
      by (auto simp: first_registration_def op_simps)
    with register_lease show ?thesis by metis
  next
    case False
    with l obtain u where "renew_activation (he_runtime H) (he_actor H) request (hw_runtime w) = (Inr lease, u)"
      by (auto simp: op_simps)
    from renew_lease [OF this] show ?thesis .
  qed
  moreover have "hw_reading w2 = Suc (hw_reading w)"
    using l by (auto simp: first_registration_def op_simps split: if_splits)
  then have "?started \<le> he_instant H (hw_reading w2)" using monoD [OF assms(2)] by simp
  with fence_confirm_Inr [OF f] have "5000 < unat (hr_duration_ms request)" by linarith
  moreover have "lf_deadline (hw_fence w') = Some (?started + (unat (hr_duration_ms request) - 5000))"
    using fence_confirm_Inr [OF f] e by simp
  ultimately show ?thesis by blast
qed

text \<open>C7. Authority ends before the lease does. Whenever a host has registered or renewed its
  lease and its authority check still passes under that deadline, the lease it was granted runs
  for more than five seconds longer. The two clocks are tied by \<open>off\<close>: no reading of the
  wall clock after the registration started lies before the start. The monotonic clock is one.\<close>

theorem authority_ends_before_lease:
  assumes "host_register H request w = (Inr lease, w')"
    and "\<forall>n \<ge> rt_tick (hw_runtime w). he_instant H (hw_reading w) + off \<le> unat (re_now (he_runtime H) n)"
    and "mono (he_instant H)"
    and "lf_deadline (hw_fence t) = lf_deadline (hw_fence w')" and "ensure_authority H t = (Inr (), t')"
  shows "he_instant H (hw_reading t) + off + 5000 < unat (hl_expires_at_ms lease)"
proof -
  note R = host_register_Inr [OF assms(1,3)]
  from R obtain n where n: "rt_tick (hw_runtime w) \<le> n" "new_lease (re_now (he_runtime H) n) request = Inr lease"
    by blast
  from n(2) have "unat (hl_expires_at_ms lease) = unat (re_now (he_runtime H) n) + unat (hr_duration_ms request)"
    by (auto simp: new_lease_def result_simps checked_add_Some_iff)
  moreover from ensure_authority_Inr [OF assms(5)] assms(4) R
  have "he_instant H (hw_reading t) < he_instant H (hw_reading w) + (unat (hr_duration_ms request) - 5000)" by auto
  moreover from assms(2) n(1) have "he_instant H (hw_reading w) + off \<le> unat (re_now (he_runtime H) n)" by blast
  ultimately show ?thesis using R by linarith
qed

section \<open>Completed invocations\<close>




section \<open>A host in memory\<close>

text \<open>The commit \<open>sample_bytes\<close> again, now made by a session: the first invocation of a new
  actor, on a host with a lease until \<open>30005\<close>.\<close>

definition sample_local :: "unit local_env" where
  "sample_local =
     \<lparr>le_get_alarm = ret_op None, le_update_alarm = (\<lambda>_. ret_op ()), le_tempdir = ret_op ''/t'',
      le_create_tables = (\<lambda>_. ret_op ()), le_restore = (\<lambda>_ _ _. ret_op ()), le_register = (\<lambda>_ _ _. ret_op 2),
      le_sync = (\<lambda>_. ret_op 2), le_replica = (\<lambda>_ _. sample_replica), le_prune = (\<lambda>_ _. ret_op ()),
      le_db_open = (\<lambda>_. ret_op ()), le_db_call = (\<lambda>_ _. ret_op \<lparr>ex_result = Inr Done, ex_committed = True\<rparr>),
      le_unix_millis = ret_op 5\<rparr>"

definition sample_host :: "((string \<times> BucketObject) list, unit, string) host_env" where
  "sample_host =
     \<lparr>he_runtime = sample_env, he_local = sample_local,
      he_restore_prefetched = (\<lambda>_ _ _. ret_op (sqlite sample_snapshot)), he_instant = (\<lambda>n. n),
      he_host = HostId ''h1'', he_session = ''s1'', he_region = ''eu'', he_actor = sample_actor,
      he_new_actor = True, he_owner_hint = None\<rparr>"

interpretation sample_storage: host_laws mem_bucket "\<lambda>_. True" map_of sample_host
  by unfold_locales (simp add: sample_host_def sample_env_on)

definition host_state :: "((string \<times> BucketObject) list, unit) host_world" where
  "host_state =
     \<lparr>hw_runtime = start_state, hw_local = (), hw_stopped = False, hw_activation = None, hw_checkpoint = None,
      hw_fence = \<lparr>lf_deadline = Some 25000, lf_fenced = False\<rparr>, hw_lease = Some sample_lease, hw_reading = 0\<rparr>"

definition fresh_database :: "string ResidentDatabase" where
  "fresh_database =
     \<lparr>rd_sqlite = \<lparr>cap_path = ''/t'', cap_txid = 0, cap_published = 0\<rparr>, rd_sqlite_head = None, rd_owner_epoch = 1,
      rd_state_version = 0, rd_published = None, rd_synced = 2, rd_last_request_id = None, rd_last_result = None,
      rd_next_write = None, rd_pending = None\<rparr>"

definition host_session :: "(((string \<times> BucketObject) list, unit) host_world, string) DatabaseSession" where
  "host_session =
     \<lparr>ds_world = host_state, ds_cached = Some fresh_database, ds_prepared = None, ds_activation = None\<rparr>"

definition sample_invocation :: "string ActorInvocation" where
  "sample_invocation = \<lparr>iv_request_id = ''r1'', iv_actor = sample_actor, iv_method = ''run'', iv_args = []\<rparr>"

text \<open>What the run leaves, after five readings of the clock.\<close>

definition final_database :: "string ResidentDatabase" where
  "final_database =
     \<lparr>rd_sqlite = \<lparr>cap_path = ''/t'', cap_txid = 2, cap_published = 2\<rparr>, rd_sqlite_head = Some sample_ref,
      rd_owner_epoch = 1, rd_state_version = 1, rd_published = Some 2, rd_synced = 2,
      rd_last_request_id = Some ''r1'', rd_last_result = Some ''null'',
      rd_next_write = Some \<lparr>wp_stream = sample_stream, wp_state_version = 2, wp_object_name = stream_object sample_stream 2\<rparr>,
      rd_pending = None\<rparr>"

definition final_session :: "(((string \<times> BucketObject) list, unit) host_world, string) DatabaseSession" where
  "final_session = host_session\<lparr>ds_cached := Some final_database,
     ds_world := host_state\<lparr>hw_runtime := written_state, hw_reading := 5\<rparr>\<rparr>"

lemma sample_authority:
  "ensure_authority sample_host (host_state\<lparr>hw_runtime := r, hw_reading := n\<rparr>) =
     (Inr (), host_state\<lparr>hw_runtime := r, hw_reading := Suc n\<rparr>)"
  if "n < 25000"
  using that
  by (simp add: ensure_authority_def host_state_def bind_op_def instant_now_def on_fence_def fence_check_def
      sample_host_def Let_def)

lemma sample_ticket:
  "prepare_state_write sample_host 1 0 host_state = (Inr sample_plan, host_state\<lparr>hw_reading := 2\<rparr>)"
proof -
  have a: "ensure_authority sample_host host_state = (Inr (), host_state\<lparr>hw_reading := Suc 0\<rparr>)"
    using sample_authority [of 0 start_state] by (simp add: host_state_def)
  have b: "ensure_authority sample_host (host_state\<lparr>hw_reading := Suc 0\<rparr>) = (Inr (), host_state\<lparr>hw_reading := 2\<rparr>)"
    using sample_authority [of 1 start_state] by (simp add: host_state_def)
  have p: "on_runtime (prepare_actor_write (he_runtime sample_host) (he_actor sample_host) sample_lease 1 1)
      (host_state\<lparr>hw_reading := Suc 0\<rparr>) = (Inr sample_plan, host_state\<lparr>hw_reading := Suc 0\<rparr>)"
    by (simp add: on_runtime_def prepare_actor_write_def sample_host_def host_state_def start_state_def write_plan_def
        sample_record_stream sample_plan_def stream_object_def sample_object_def)
      (simp add: sample_record_def sample_stream_def)
  have l: "hw_lease host_state = Some sample_lease" by (simp add: host_state_def)
  show ?thesis
    by (simp add: prepare_state_write_def bind_op_def a b p l held_lease_def lift_op_def ret_op_def checked_add_def)
qed

lemma sample_persist:
  "persist_snapshot sample_host sample_plan sample_bytes (host_state\<lparr>hw_reading := 2\<rparr>) =
     (Inr (), host_state\<lparr>hw_runtime := written_state, hw_reading := 4\<rparr>)"
proof -
  have a: "ensure_authority sample_host (host_state\<lparr>hw_reading := 2\<rparr>) = (Inr (), host_state\<lparr>hw_reading := 3\<rparr>)"
    using sample_authority [of 2 start_state] by (simp add: host_state_def)
  have w: "on_runtime (write_snapshot (he_runtime sample_host) sample_plan sample_bytes) (host_state\<lparr>hw_reading := 3\<rparr>) =
      (Inr (), host_state\<lparr>hw_runtime := written_state, hw_reading := 3\<rparr>)"
    using sample_write by (simp add: on_runtime_def sample_host_def host_state_def)
  have b: "ensure_authority sample_host (host_state\<lparr>hw_runtime := written_state, hw_reading := 3\<rparr>) =
      (Inr (), host_state\<lparr>hw_runtime := written_state, hw_reading := 4\<rparr>)"
    using sample_authority [of 3 written_state] by simp
  show ?thesis by (simp add: persist_snapshot_def bind_op_def a w b)
qed

definition sample_pending :: "bool \<Rightarrow> string PendingStateCommit" where
  "sample_pending durable =
     \<lparr>pc_snapshot = sample_snapshot, pc_txid = 2, pc_ticket = sample_plan, pc_durable = durable\<rparr>"

lemma actor_storage_simps:
  "ae_crypto (actor_storage sample_host) = hex_crypto" "ae_json (actor_storage sample_host) = sample_json"
  "ae_ensure_authority (actor_storage sample_host) = ensure_authority sample_host"
  "ae_prepare_state_write (actor_storage sample_host) = prepare_state_write sample_host"
  "ae_write_snapshot (actor_storage sample_host) = persist_snapshot sample_host"
  "ae_read_sqlite (actor_storage sample_host) = host_read_sqlite sample_host"
  "ae_full_snapshots (actor_storage sample_host) = full_snapshots sample_host"
  "ae_resume_parent (actor_storage sample_host) = resume_parent sample_host"
  "ae_tempdir (actor_storage sample_host) = ret_op ''/t''"
  "ae_create_tables (actor_storage sample_host) path = ret_op ()"
  "ae_restore (actor_storage sample_host) fs path tx = ret_op ()"
  "ae_register (actor_storage sample_host) path full resume = ret_op 2"
  "ae_replica (actor_storage sample_host) path w = sample_replica"
  "ae_prune (actor_storage sample_host) path tx = ret_op ()"
  "ae_db_open (actor_storage sample_host) path = ret_op ()"
  "ae_unix_millis (actor_storage sample_host) = ret_op 5"
  by (simp_all add: actor_storage_def sample_host_def sample_local_def on_local_def ret_op_def fun_eq_iff)

lemma sample_begin:
  "begin_commit (actor_storage sample_host) sample_invocation 1 (Some ''null'') 2 default_origin (fresh_database, host_state) =
     (Inr (sample_bytes, sample_pending False),
      (fresh_database\<lparr>rd_sqlite := \<lparr>cap_path = ''/t'', cap_txid = 2, cap_published = 2\<rparr>\<rparr>, host_state\<lparr>hw_reading := 2\<rparr>))"
proof -
  let ?d = "fresh_database\<lparr>rd_sqlite := \<lparr>cap_path = ''/t'', cap_txid = 2, cap_published = 2\<rparr>\<rparr>"
  have t: "write_ticket (actor_storage sample_host) 1 1 (fresh_database, host_state) =
      (Inr sample_plan, (fresh_database, host_state\<lparr>hw_reading := 2\<rparr>))"
    by (simp add: write_ticket_def bind_op_def resident_def change_def outside_def Let_def actor_storage_simps sample_ticket
        fresh_database_def)
  have c: "capture_sqlite (actor_storage sample_host) 2 (fresh_database, w) =
      (Inr \<lparr>txid = 2, parent = None, files = [sample_ltx]\<rparr>, (?d, w))" for w
    by (simp add: capture_sqlite_def bind_op_def lift_op_def ret_op_def resident_def capture_def actor_storage_simps
        fresh_database_def sample_capture)
      (simp add: sample_ltx_def)
  have s: "commit_snapshot sample_invocation 1 (Some ''null'') default_origin 1
      \<lparr>txid = 2, parent = None, files = [sample_ltx]\<rparr> 5 = sample_snapshot"
    by (simp add: commit_snapshot_def sample_invocation_def default_origin_def sample_snapshot_def)
  have v: "rd_state_version fresh_database = 0" "wp_state_version sample_plan = 1" "ss_owner_epoch (wp_stream sample_plan) = 1"
    by (simp_all add: fresh_database_def sample_plan_def sample_stream_def)
  show ?thesis
    unfolding begin_commit_def Let_def
    by (simp add: bind_op_def lift_op_def ret_op_def ensure_op_def resident_def outside_def checked_add_def actor_storage_simps
        t c s v sample_encode sample_pending_def)
qed

lemma sample_install:
  "finish_pending_commit (actor_storage sample_host)
     (fresh_database\<lparr>rd_sqlite := \<lparr>cap_path = ''/t'', cap_txid = 2, cap_published = 2\<rparr>,
        rd_pending := Some (sample_pending True)\<rparr>, w) = (Inr (), (final_database, w))"
proof -
  have s: "state_version sample_snapshot = 1" "request_id sample_snapshot = ''r1''" "completion sample_snapshot = Some ''null''"
    by (simp_all add: sample_snapshot_def)
  show ?thesis
    by (simp add: finish_pending_commit_def install_pending_def bind_op_def resident_def change_def lift_op_def ret_op_def
        actor_storage_simps sample_pending_def s checked_add_def sample_encode set_completion_def fresh_database_def
        final_database_def sample_plan_def sample_ref_def)
qed

lemma sample_complete:
  "complete_invocation (actor_storage sample_host) sample_invocation (Some 1) ''null'' (Some 2) default_origin host_session =
     (Inr 1, final_session)"
proof -
  have d: "rd_owner_epoch fresh_database = 1" "unpublished fresh_database (Some 2) = Some 2"
    by (simp_all add: fresh_database_def unpublished_def)
  have a: "ensure_authority sample_host (host_state\<lparr>hw_runtime := written_state, hw_reading := 4\<rparr>) =
      (Inr (), host_state\<lparr>hw_runtime := written_state, hw_reading := 5\<rparr>)"
    using sample_authority [of 4 written_state] by simp
  have q: "pc_ticket (sample_pending False) = sample_plan" "(sample_pending False)\<lparr>pc_durable := True\<rparr> = sample_pending True"
    by (simp_all add: sample_pending_def)
  have p: "publish_completion (actor_storage sample_host) sample_invocation 1 ''null'' (Some 2) default_origin
      (fresh_database, host_state) = (Inr (), (final_database, host_state\<lparr>hw_runtime := written_state, hw_reading := 4\<rparr>))"
    by (simp add: publish_completion_def publish_result_def publish_state_def publish_state_once_def bind_op_def
        resident_def change_def outside_def lift_op_def ret_op_def d sample_begin actor_storage_simps q sample_persist sample_install)
  show ?thesis
    by (simp add: complete_invocation_def bind_op_def lift_op_def ret_op_def on_world_def host_session_def d p a
        actor_storage_simps final_session_def final_database_def)
qed



theorem authority_ends_before_lease_witness:
  "\<exists>w'. host_register sample_host sample_request host_state = (Inr sample_lease, w') \<and>
     he_instant sample_host (hw_reading w') + 5 + 5000 < unat (hl_expires_at_ms sample_lease)"
proof -
  obtain u where u: "renew_activation sample_env sample_actor sample_request start_state = (Inr sample_lease, u)"
    using sample_renew by blast
  define w where "w = host_state\<lparr>hw_runtime := u, hw_reading := 2\<rparr>"
  have r: "host_register sample_host sample_request host_state = (Inr sample_lease, w)"
    using u
    by (simp add: host_register_def bind_op_def ensure_op_def instant_now_def on_fence_def on_runtime_def fence_begin_def
        fence_check_def fence_confirm_def sample_host_def sample_request_def host_state_def w_def Let_def ret_op_def)
  have "mono (he_instant sample_host)" by (simp add: sample_host_def mono_def)
  moreover have "\<forall>n \<ge> rt_tick (hw_runtime host_state). he_instant sample_host (hw_reading host_state) + 5 \<le>
      unat (re_now (he_runtime sample_host) n)"
    by (simp add: sample_host_def host_state_def)
  moreover have "ensure_authority sample_host w = (Inr (), host_state\<lparr>hw_runtime := u, hw_reading := Suc 2\<rparr>)"
    unfolding w_def by (rule sample_authority) simp
  ultimately show ?thesis using r authority_ends_before_lease [OF r _ _ refl] by blast
qed

definition takeover_state :: "(((string \<times> BucketObject) list, unit) host_world, string) DatabaseSession" where
  "takeover_state = session_new (host_state\<lparr>hw_runtime := released_state\<rparr>)"

definition takeover_activation :: ActorActivation where
  "takeover_activation = \<lparr>aa_owner_epoch = 2, aa_state_version = 1, aa_state = Some sample_bytes\<rparr>"

lemma takeover_loads:
  "\<exists>d. load_cached (actor_storage sample_host) 2 1 sample_bytes (host_state\<lparr>hw_runtime := released_state\<rparr>) =
     (Inr d, host_state\<lparr>hw_runtime := released_state, hw_reading := Suc 0\<rparr>) \<and>
   rd_owner_epoch d = 2 \<and> rd_pending d = None \<and> replay d ''r1'' = Some ''null''"
proof -
  obtain obj where o: "snapshot_object_name hex_crypto sample_actor 1 (show_u64_032x 1) = Inr obj"
    by (simp add: snapshot_object_name_Inr_iff nonce_ok_epoch)
  have a: "ensure_authority sample_host (host_state\<lparr>hw_runtime := released_state\<rparr>) =
      (Inr (), host_state\<lparr>hw_runtime := released_state, hw_reading := Suc 0\<rparr>)"
    using sample_authority [of 0 released_state] by (simp add: host_state_def)
  have s: "state_version sample_snapshot = 1" "owner_epoch sample_snapshot = 1" "request_id sample_snapshot = ''r1''"
    "completion sample_snapshot = Some ''null''"
    by (simp_all add: sample_snapshot_def)
  have r: "host_read_sqlite sample_host sample_bytes (host_state\<lparr>hw_runtime := released_state\<rparr>) =
      (Inr (sqlite sample_snapshot), host_state\<lparr>hw_runtime := released_state, hw_reading := Suc 0\<rparr>)"
    unfolding host_read_sqlite_def bind_op_def a
    by (simp add: lift_op_def o s sample_decode on_runtime_def on_store_def sample_host_def ret_op_def) (simp add: host_state_def)
  have p: "resume_parent sample_host sample_snapshot sample_bytes = Inr None"
    by (simp add: resume_parent_def sample_host_def)
  show ?thesis
    by (simp add: load_cached_def bind_op_def lift_op_def ensure_op_def actor_storage_simps sample_decode s r p
        capture_restore_def capture_open_def resident_open_def ret_op_def set_completion_def replay_def)
qed


end
