(* ===== verification/Spec2Isabelle.thy ===== *)
theory Spec2Isabelle
  imports State_Snapshots Payload Bucket_Store Store_Config Recovery Ownership Lease_Protocol Runtime_Storage Rapid_Journal
    Actor_Protocol Sqlite_Capture Actor_Session Host_Storage
begin

text \<open>
  \<^bold>\<open>Durable actors.\<close> A development about the Rust runtime under \<open>src/src\<close>. An
  actor is a named object whose state is a SQLite database. One host at a time owns it under
  a lease; every commit of the owner is a snapshot object in a bucket, and a host that takes
  over rebuilds the database from those objects.

  \<^bold>\<open>Conventions.\<close> Fallible code returns \<open>'a result\<close>, a sum whose left side is the
  message of the error. Unsigned 64-bit integers are \<open>64 word\<close> where they are counters,
  versions, epochs or times; positions in byte strings are natural numbers. Strings are their
  UTF-8 bytes. A Rust panic is an error whose message starts with \<open>panic\<close>. Third-party
  code (JSON, base64, SHA-256, UUIDs, cloud storage) is a parameter, and what is relied on is
  a named predicate such as \<open>crypto_ok\<close> or \<open>envelope_json_ok\<close>.

  \<^bold>\<open>Theories.\<close>
  \<^item> \<open>DA_Prelude\<close>: results, machine integers, byte codecs, strings and numerals,
    stateful operations, and the locale \<open>invariant_of\<close> for step relations.
  \<^item> \<open>Storage_Paths\<close>: actor keys and object names (\<open>actor/protocol.rs\<close>,
    \<open>actor_state.rs\<close>, \<open>storage_paths.rs\<close>, \<open>storage.rs\<close>).
  \<^item> \<open>State_Snapshots\<close>: commits, their validation and their binary format
    (\<open>state_log.rs\<close>, \<open>state_log/\<close>, \<open>storage/stream.rs\<close>).
  \<^item> \<open>Payload\<close>: spools, uploads and downloads (\<open>payload.rs\<close>).
  \<^item> \<open>Bucket_Store\<close>: the bucket interface, the file bucket and immutable snapshot
    objects (\<open>bucket.rs\<close>, \<open>bucket/file.rs\<close>, \<open>bucket/snapshots.rs\<close>).
  \<^item> \<open>Store_Config\<close>: the configuration of the snapshot store.
  \<^item> \<open>Recovery\<close>: rebuilding a database from its commits (\<open>bucket/recovery.rs\<close>).
  \<^item> \<open>Ownership\<close>: leases, ownership records, streams and positions
    (\<open>bucket/runtime.rs\<close>, \<open>bucket/runtime/activation.rs\<close>, \<open>host_leases.rs\<close>).
  \<^item> \<open>Lease_Protocol\<close>: sessions of many hosts that activate, renew and release one
    actor, step by step on the ownership object; at most one of them may write.
  \<^item> \<open>Runtime_Storage\<close>: the operations of \<open>RuntimeStorage\<close> in full, on any bucket
    that keeps the promises of \<open>bucket_laws\<close>: activation, renewal, release, writes and
    drains (\<open>bucket/runtime.rs\<close>, \<open>bucket/runtime/\<close>). An acknowledged write is
    what the next owner starts from.
  \<^item> \<open>Std_Collections\<close>: ordered maps and string replacement of the standard library.
  \<^item> \<open>Rapid_Frames\<close>: the frames of the Rapid log and the index of a batch
    (\<open>bucket/rapid/frame.rs\<close>, \<open>bucket/rapid/index.rs\<close>).
  \<^item> \<open>Rapid_Storage\<close>: manifests, replicas, the archive, recovery and cleanup of log
    segments (\<open>bucket/rapid.rs\<close>, \<open>bucket/rapid/reader.rs\<close>,
    \<open>bucket/rapid/archive.rs\<close>): acknowledged records survive the loss of replicas, and
    the archive returns what was copied to it.
  \<^item> \<open>Rapid_Archiver\<close>: the background worker that copies a segment to the archive
    (\<open>bucket/rapid/archive.rs\<close>), step by step beside the session that appends.
  \<^item> \<open>Rapid_Checkpoint\<close>: restoring a database from the log, checkpoints and when they are
    due (\<open>bucket/rapid/checkpoint.rs\<close>, \<open>bucket/rapid/standard.rs\<close>).
  \<^item> \<open>Op_Logic\<close>: rules for the stateful operations, one for each way of composing them.
  \<^item> \<open>Rapid_Session\<close>: segments, sessions and the snapshot store on them
    (\<open>bucket/rapid/prepared.rs\<close>, \<open>bucket/rapid/segment.rs\<close>,
    \<open>bucket/rapid/writer.rs\<close>, \<open>bucket/rapid.rs\<close>).
  \<^item> \<open>Rapid_Growth\<close>: no operation of the log overwrites or deletes an object of the
    archive.
  \<^item> \<open>Rapid_Lifecycle\<close>: the snapshot store and its background tasks as one step relation;
    what a finished session stored stays.
  \<^item> \<open>Rapid_Journal\<close>: a session is a journal to its callers, and what it acknowledged is on
    every replica of the segment in use, whenever it crashes.
  \<^item> \<open>Actor_Protocol\<close>: invocations, socket events and effects with their validation, and
    database calls (\<open>actor/protocol.rs\<close>, \<open>actor/executor_connection.rs\<close>,
    \<open>actor/socket.rs\<close>, \<open>actor/database.rs\<close>).
  \<^item> \<open>Sqlite_Capture\<close>: collecting the replication files of a commit
    (\<open>litestream/storage.rs\<close>); they leave no gap.
  \<^item> \<open>Actor_Session\<close>: the database session of an actor
    (\<open>host/actor_database/session.rs\<close>): activation, database calls, publishing and
    completing invocations. Its locale \<open>durable_writer\<close> is what a session asks of its
    storage.
  \<^item> \<open>Host_Storage\<close>: the storage of a host behind its lease fence
    (\<open>host/storage.rs\<close>, \<open>host/persistence.rs\<close>, \<open>LeaseFence\<close> of
    \<open>control_plane/client.rs\<close>), which is a \<open>durable_writer\<close> on any bucket with
    \<open>bucket_laws\<close>. A completed invocation is stored, is not run again by a retry or after a
    takeover, and authority ends before the lease.

  \<^bold>\<open>How the parts fit.\<close> A \<open>DatabaseSession\<close> publishes through the operations of
  \<open>actor_env\<close>; \<open>actor_storage\<close> fills them with the operations of \<open>HostStorage\<close>,
  which call \<open>RuntimeStorage\<close> on a \<open>Bucket\<close> and a \<open>SnapshotStore\<close>. The store is
  either the bucket itself (\<open>bucket_snapshots\<close>) or the Rapid log. The locale
  \<open>bucket_laws\<close> stands between the two halves: it is interpreted for the file bucket and a
  bucket in memory, and everything about ownership, writes, handover and sessions is proved from
  it alone.

  \<^bold>\<open>Loops and bounds.\<close> Loops over lists recurse on the list, and loops that retry take the
  bound of the code: an activation is attempted twice, a release three times. The dependency walk
  of recovery and the uploads of a closed segment have no bound in the code; they are partial
  functions whose value is \<open>None\<close> when they do not return, and that recovery and the
  sweep of the log return is proved. Times are numbered readings of a clock.

  \<^bold>\<open>Not modelled.\<close> What is left is input and output around these parts, where the kernel could
  only check a model of the services it talks to: the control plane (routing, authentication,
  alarms, administration, limits of organizations, its HTTP and gRPC services), the connections of
  client sockets, the sandboxes that run actor code, the mailbox of \<open>ActorHost\<close> and the
  process around it, the clients of cloud storage, Postgres, Redis and ClickHouse, lifecycle
  records and request traces, the SQLite statements and the replication library, the listing of
  past versions for inspection, and the TypeScript and Python SDKs. Ownership and durability do not
  depend on them: the ownership object and the stored commits alone decide who may write and what
  the state is. Telemetry, timeouts of single requests and the deadlines of a shutdown are left
  out of the operations that are modelled.
\<close>

end
